(* ===== verification/Prelude.thy ===== *)
theory Prelude
  imports Main "HOL-Library.Word"
begin

text \<open>
  Shared vocabulary of the development: the machine integer types of the Rust sources, the
  bit-level operations their register code is written with, the iterator adaptors it uses
  (\<open>find\<close>, \<open>min_by_key\<close>, \<open>max_by_key\<close>, an in-place update of the first match), and the
  generic lemmas the component theories rest on.

  Unsigned integers keep their width: \<open>u8\<close>, \<open>u16\<close>, \<open>u32\<close> and \<open>u64\<close> are words, so \<open>+\<close> and
  \<open>-\<close> wrap as in a release build.  Indices into fixed arrays and small level numbers are
  \<open>nat\<close>.
\<close>

unbundle bit_operations_syntax

type_synonym u8 = "8 word"
type_synonym u16 = "16 word"
type_synonym u32 = "32 word"
type_synonym u64 = "64 word"
type_synonym u128 = "128 word"

named_theorems bitw \<open>facts about single bits of machine words\<close>
named_theorems dev_defs \<open>definitions of device operations, unfolded in their correctness proofs\<close>

section \<open>Single bits of a register\<close>

text \<open>The Rust expression \<open>1 << n\<close>.\<close>

definition bitmask :: "nat \<Rightarrow> 'a::len word" where
  "bitmask n = push_bit n 1"

lemma bit_bitmask [simp, bitw]:
  "bit (bitmask n :: 'a::len word) m \<longleftrightarrow> m = n \<and> n < LENGTH('a)"
  by (auto simp: bitmask_def bit_simps)

lemma and_bitmask_eq_0 [simp]: "(w :: 'a::len word) AND bitmask n = 0 \<longleftrightarrow> \<not> bit w n"
  by (simp add: bitmask_def bit_iff_and_push_bit_not_eq_0)

lemma bitmask_numeral: "(bitmask (numeral k) :: 'a::len word) = push_bit (numeral k) 1"
  by (simp add: bitmask_def)

lemma bitmask_0 [simp]: "(bitmask 0 :: 'a::len word) = 1"
  by (simp add: bitmask_def)

lemma bit_set_mask [simp, bitw]:
  "bit (w OR bitmask n :: 'a::len word) m \<longleftrightarrow> bit w m \<or> m = n \<and> n < LENGTH('a)"
  by (simp add: bit_simps)

lemma bit_clear_mask [simp, bitw]:
  "bit (w AND NOT (bitmask n) :: 'a::len word) m \<longleftrightarrow> bit w m \<and> m \<noteq> n"
  by (auto simp: bit_simps dest: bit_imp_le_length)

text \<open>The statement \<open>if b { w |= 1 << n; }\<close>.\<close>

definition or_bit_if :: "bool \<Rightarrow> nat \<Rightarrow> 'a::len word \<Rightarrow> 'a word" where
  "or_bit_if b n w = (if b then w OR bitmask n else w)"

lemma bit_or_bit_if [simp, bitw]:
  "bit (or_bit_if b n w :: 'a::len word) m \<longleftrightarrow> bit w m \<or> b \<and> m = n \<and> n < LENGTH('a)"
  by (auto simp: or_bit_if_def)

lemma set_mask_idem: "bit w n \<Longrightarrow> w OR bitmask n = (w :: 'a::len word)"
  by (rule bit_word_eqI) (auto simp: bitw)

lemma clear_mask_idem: "\<not> bit w n \<Longrightarrow> w AND NOT (bitmask n) = (w :: 'a::len word)"
  by (rule bit_word_eqI) (auto simp: bitw)

lemma set_then_clear: "\<not> bit w n \<Longrightarrow> (w OR bitmask n) AND NOT (bitmask n) = (w :: 'a::len word)"
  by (rule bit_word_eqI) (auto simp: bitw)

lemma word_nonzero_iff_bit: "w \<noteq> 0 \<longleftrightarrow> (\<exists>n < LENGTH('a). bit w n)" for w :: "'a::len word"
proof
  assume "w \<noteq> 0"
  then obtain n where "bit w n"
    using bit_word_eqI [of w 0] by auto
  then show "\<exists>n < LENGTH('a). bit w n"
    using bit_imp_le_length by blast
qed auto

text \<open>Equality of words checked bit by bit, and the fields a mask of low ones selects.\<close>

lemma word_eq_by_bits:
  "list_all (\<lambda>n. bit w n \<longleftrightarrow> bit v n) [0..<LENGTH('a)] \<Longrightarrow> w = v" for w v :: "'a::len word"
  by (rule bit_word_eqI) (simp add: list_all_iff)

lemma upt_widths:
  "[0..<8] = [0, 1, 2, 3, 4, 5, 6, 7]"
  "[0..<16] = [0, 1, 2, 3, 4, 5, 6, 7, 8, 9, 10, 11, 12, 13, 14, 15]"
  "[0..<32] =
     [0, 1, 2, 3, 4, 5, 6, 7, 8, 9, 10, 11, 12, 13, 14, 15, 16, 17, 18, 19, 20, 21, 22, 23, 24,
      25, 26, 27, 28, 29, 30, 31]"
  by code_simp+

lemma bit_index_less:
  fixes w :: "'a::len word"
  assumes "bit w n" "unat w < 2 ^ k"
  shows "n < k"
proof (rule ccontr)
  assume "\<not> n < k"
  then have "(2::nat) ^ k \<le> 2 ^ n" by simp
  with assms(2) have "unat w < 2 ^ n" by (rule order_less_le_trans)
  then have "\<not> bit (unat w) n" by (simp add: bit_iff_odd)
  with assms(1) show False by (simp add: bit_unsigned_iff)
qed

lemma and_low_ones:
  "w AND 0x7 = take_bit 3 w" "w AND 0xF = take_bit 4 w" "w AND 0xFF = take_bit 8 w"
  for w :: "'a::len word"
  by (simp_all add: take_bit_eq_mask mask_eq_exp_minus_1)

lemma bit_drop_and_1: "drop_bit n v AND 1 \<noteq> 0 \<longleftrightarrow> bit v n" for v :: "'a::len word"
  by (simp add: bit_iff_odd_drop_bit odd_iff_mod_2_eq_one and_one_eq)

lemma bit_beyond: "LENGTH('a) \<le> n \<Longrightarrow> \<not> bit w n" for w :: "'a::len word"
  using bit_imp_le_length [of w n] by linarith

lemma unat_ucast_up:
  "LENGTH('a) \<le> LENGTH('b) \<Longrightarrow> unat (ucast w :: 'b::len word) = unat w" for w :: "'a::len word"
proof -
  assume le: "LENGTH('a) \<le> LENGTH('b)"
  have "unat w < 2 ^ LENGTH('a)" by (rule unsigned_less)
  also have "(2 :: nat) ^ LENGTH('a) \<le> 2 ^ LENGTH('b)" using le by simp
  finally show ?thesis by (simp add: unsigned_ucast_eq take_bit_nat_eq_self)
qed

lemma ucast_ucast_up:
  "LENGTH('a) \<le> LENGTH('b) \<Longrightarrow> ucast (ucast w :: 'b::len word) = w" for w :: "'a::len word"
  by (rule bit_word_eqI) (simp add: bit_ucast_iff)

lemma word_and_7_cases: "w AND 7 \<in> {0, 1, 2, 3, 4, 5, 6, 7}" for w :: "'a::len word"
proof -
  have "w AND 7 \<le> 7" by (rule word_and_le1)
  then have "unat (w AND 7) \<le> unat (7 :: 'a word)" by (simp add: word_le_nat_alt)
  also have "unat (7 :: 'a word) \<le> 7"
    using unat_of_nat [of 7, where 'a = 'a] by (simp add: mod_less_eq_dividend)
  finally have "unat (w AND 7) \<in> {0, 1, 2, 3, 4, 5, 6, 7}" by auto
  then have "word_of_nat (unat (w AND 7)) \<in> (word_of_nat :: nat \<Rightarrow> 'a word) ` {0, 1, 2, 3, 4, 5, 6, 7}"
    by (rule imageI)
  then show ?thesis by simp
qed

section \<open>Lowest and highest set bit\<close>

text \<open>Rust's \<open>trailing_zeros\<close>: the index of the lowest set bit, the width when there is none.\<close>

definition trailing_zeros :: "'a::len word \<Rightarrow> nat" where
  "trailing_zeros w =
     (case List.find (bit w) [0..<LENGTH('a)] of None \<Rightarrow> LENGTH('a) | Some n \<Rightarrow> n)"

text \<open>Rust's \<open>ilog2\<close>: the index of the highest set bit; \<open>None\<close> where it panics, on 0.\<close>

definition ilog2 :: "'a::len word \<Rightarrow> nat option" where
  "ilog2 w = List.find (bit w) (rev [0..<LENGTH('a)])"

lemma find_SomeD: "List.find P xs = Some x \<Longrightarrow> x \<in> set xs \<and> P x"
  by (induction xs) (auto split: if_splits)

lemma find_upt_Some_iff:
  "List.find P [a..<b] = Some n \<longleftrightarrow> a \<le> n \<and> n < b \<and> P n \<and> (\<forall>m. a \<le> m \<and> m < n \<longrightarrow> \<not> P m)"
proof
  assume "List.find P [a..<b] = Some n"
  then obtain i where i: "i < b - a" "P (a + i)" "n = a + i" "\<forall>j < i. \<not> P (a + j)"
    by (auto simp: find_Some_iff)
  have "\<not> P m" if "a \<le> m" "m < n" for m
    using i(3,4) that by (auto dest: spec [of _ "m - a"])
  with i show "a \<le> n \<and> n < b \<and> P n \<and> (\<forall>m. a \<le> m \<and> m < n \<longrightarrow> \<not> P m)" by auto
next
  assume "a \<le> n \<and> n < b \<and> P n \<and> (\<forall>m. a \<le> m \<and> m < n \<longrightarrow> \<not> P m)"
  then show "List.find P [a..<b] = Some n"
    unfolding find_Some_iff by (intro exI [of _ "n - a"]) auto
qed

lemma find_rev_upt_Some_iff:
  "List.find P (rev [0..<b]) = Some n \<longleftrightarrow> n < b \<and> P n \<and> (\<forall>m. n < m \<and> m < b \<longrightarrow> \<not> P m)"
  by (induction b) (auto simp: less_Suc_eq)

lemma find_upt_None_iff: "List.find P [a..<b] = None \<longleftrightarrow> (\<forall>n. a \<le> n \<and> n < b \<longrightarrow> \<not> P n)"
  by (auto simp: find_None_iff)

lemma trailing_zeros_nonzero:
  fixes w :: "'a::len word"
  assumes "w \<noteq> 0"
  shows "trailing_zeros w < LENGTH('a)" and "bit w (trailing_zeros w)"
    and "m < trailing_zeros w \<Longrightarrow> \<not> bit w m"
proof -
  obtain k where k: "List.find (bit w) [0..<LENGTH('a)] = Some k"
    using assms by (cases "List.find (bit w) [0..<LENGTH('a)]")
      (auto simp: find_upt_None_iff word_nonzero_iff_bit)
  then have eq: "trailing_zeros w = k" by (simp add: trailing_zeros_def)
  from k have "k < LENGTH('a)" "bit w k" "\<And>m. m < k \<Longrightarrow> \<not> bit w m"
    unfolding find_upt_Some_iff by auto
  then show "trailing_zeros w < LENGTH('a)" and "bit w (trailing_zeros w)"
    and "m < trailing_zeros w \<Longrightarrow> \<not> bit w m"
    by (simp_all add: eq)
qed

lemma trailing_zeros_le: "bit (w :: 'a::len word) n \<Longrightarrow> trailing_zeros w \<le> n"
  using trailing_zeros_nonzero(3) [of w n]
  by (metis bit_0_eq bot_apply bot_bool_def linorder_not_le)

lemma trailing_zeros_set_below:
  fixes w :: "'a::len word"
  assumes "n < LENGTH('a)" and "\<And>m. bit w m \<Longrightarrow> n < m"
  shows "trailing_zeros (w OR bitmask n) = n"
proof -
  let ?v = "w OR bitmask n"
  have b: "bit ?v n" using assms(1) by simp
  then have "?v \<noteq> 0" by (metis bit_0_eq bot_apply bot_bool_def)
  with trailing_zeros_nonzero(2) [of ?v] have "bit ?v (trailing_zeros ?v)" by simp
  moreover have "trailing_zeros ?v \<le> n" using b by (rule trailing_zeros_le)
  ultimately show ?thesis using assms(2) by (auto dest: leD)
qed

lemma bitmask_nonzero: "n < LENGTH('a) \<Longrightarrow> (w OR bitmask n :: 'a::len word) \<noteq> 0"
  by (metis bit_0_eq bit_set_mask bot_apply bot_bool_def)

lemma ilog2_Some_iff:
  "ilog2 (w :: 'a::len word) = Some n \<longleftrightarrow> bit w n \<and> (\<forall>m > n. \<not> bit w m)"
  unfolding ilog2_def find_rev_upt_Some_iff by (meson bit_imp_le_length)

lemma ilog2_None_iff: "ilog2 (w :: 'a::len word) = None \<longleftrightarrow> w = 0"
  unfolding ilog2_def using word_nonzero_iff_bit [of w] by (auto simp: find_None_iff)

section \<open>Iterator adaptors over slices\<close>

text \<open>
  \<open>iter_mut().find(p)\<close> followed by a mutation of the element found: the first match is
  updated, the rest of the slice is untouched.
\<close>

fun update_first :: "('a \<Rightarrow> bool) \<Rightarrow> ('a \<Rightarrow> 'a) \<Rightarrow> 'a list \<Rightarrow> 'a list" where
  "update_first P f [] = []"
| "update_first P f (x # xs) = (if P x then f x # xs else x # update_first P f xs)"

lemma length_update_first [simp]: "length (update_first P f xs) = length xs"
  by (induction xs) auto

lemma map_update_first [simp]:
  "(\<And>x. g (f x) = g x) \<Longrightarrow> map g (update_first P f xs) = map g xs"
  by (induction xs) auto

lemma update_first_no_match: "(\<And>x. x \<in> set xs \<Longrightarrow> \<not> P x) \<Longrightarrow> update_first P f xs = xs"
  by (induction xs) auto

lemma find_update_first:
  "(\<And>x. P (f x) = P x) \<Longrightarrow>
   List.find P (update_first P f xs) = map_option f (List.find P xs)"
  by (induction xs) auto

text \<open>
  \<open>iter().enumerate().filter(p).min_by_key(k)\<close>: the index of the first element of least key
  among those that pass the filter.
\<close>

fun min_index :: "('a \<Rightarrow> bool) \<Rightarrow> ('a \<Rightarrow> 'k::linorder) \<Rightarrow> 'a list \<Rightarrow> nat option" where
  "min_index P k [] = None"
| "min_index P k (x # xs) =
     (case min_index P k xs of
        None \<Rightarrow> if P x then Some 0 else None
      | Some j \<Rightarrow> if P x \<and> k x \<le> k (xs ! j) then Some 0 else Some (Suc j))"

lemma min_index_None_iff: "min_index P k xs = None \<longleftrightarrow> (\<forall>x \<in> set xs. \<not> P x)"
  by (induction xs) (auto split: option.splits if_splits)

text \<open>The contract of \<open>min_by_key\<close>: a match of least key, the first such.\<close>

lemma min_index_SomeD:
  "min_index P k xs = Some j \<Longrightarrow>
   j < length xs \<and> P (xs ! j) \<and> (\<forall>x \<in> set xs. P x \<longrightarrow> k (xs ! j) \<le> k x) \<and>
   (\<forall>m < j. P (xs ! m) \<longrightarrow> k (xs ! j) < k (xs ! m))"
proof (induction xs arbitrary: j)
  case Nil
  then show ?case by simp
next
  case (Cons x xs)
  show ?case
  proof (cases "min_index P k xs")
    case None
    then have "\<forall>y \<in> set xs. \<not> P y" by (simp add: min_index_None_iff)
    with None Cons.prems show ?thesis by (auto split: if_splits)
  next
    case (Some i)
    note IH = Cons.IH [OF Some]
    show ?thesis
    proof (cases "P x \<and> k x \<le> k (xs ! i)")
      case True
      with Some Cons.prems have "j = 0" by simp
      with True IH show ?thesis by (auto intro: order_trans)
    next
      case False
      with Some Cons.prems have "j = Suc i" by auto
      with False IH show ?thesis by (auto simp: less_Suc_eq_0_disj)
    qed
  qed
qed

section \<open>Checked and saturating arithmetic\<close>

definition checked_add :: "'a::len word \<Rightarrow> 'a word \<Rightarrow> 'a word option" where
  "checked_add a b = (if unat a + unat b < 2 ^ LENGTH('a) then Some (a + b) else None)"

definition saturating_add :: "'a::len word \<Rightarrow> 'a word \<Rightarrow> 'a word" where
  "saturating_add a b = (if unat a + unat b < 2 ^ LENGTH('a) then a + b else - 1)"

definition saturating_sub :: "'a::len word \<Rightarrow> 'a word \<Rightarrow> 'a word" where
  "saturating_sub a b = (if b \<le> a then a - b else 0)"

text \<open>The sum wraps iff it is below an operand; this is how the two are evaluated.\<close>

lemma checked_add_code [code]: "checked_add a b = (if a \<le> a + b then Some (a + b) else None)"
  by (simp add: checked_add_def no_olen_add_nat)

lemma saturating_add_code [code]: "saturating_add a b = (if a \<le> a + b then a + b else - 1)"
  by (simp add: saturating_add_def no_olen_add_nat)

lemma checked_add_SomeD:
  "checked_add a b = Some c \<Longrightarrow> c = a + b \<and> unat c = unat a + unat b"
  by (auto simp: checked_add_def unat_word_ariths split: if_splits)

lemma unat_saturating_add:
  "unat a + unat b < 2 ^ LENGTH('a) \<Longrightarrow> unat (saturating_add a b) = unat a + unat b"
  for a b :: "'a::len word"
  by (simp add: saturating_add_def unat_word_ariths)

lemma unat_add_no_wrap:
  "unat a + unat b < 2 ^ LENGTH('a) \<Longrightarrow> unat (a + b) = unat a + unat b" for a b :: "'a::len word"
  by (simp add: unat_word_ariths)

text \<open>Reading back natural-number arithmetic on unsigned values.\<close>

lemma of_nat_unat_diff: "y \<le> x \<Longrightarrow> of_nat (unat x - unat y) = x - y" for x y :: "'a::len word"
  by (simp add: word_le_nat_alt of_nat_diff)

lemma of_nat_unat_mod: "of_nat (unat x mod unat y) = x mod y" for x y :: "'a::len word"
  by (simp flip: unat_mod)

lemma unat_diff: "y \<le> x \<Longrightarrow> unat (x - y) = unat x - unat y" for x y :: "'a::len word"
proof -
  assume "y \<le> x"
  then have "unat (x - y) = unat (of_nat (unat x - unat y) :: 'a word)"
    by (simp only: of_nat_unat_diff)
  also have "\<dots> = unat x - unat y"
    by (simp add: unat_of_nat less_imp_diff_less)
  finally show ?thesis .
qed

text \<open>Splitting a span into two: quotients add up, with the remainder carried.\<close>

lemma div_mod_split:
  "(a + (n + m)) div d = (a + n) div d + ((a + n) mod d + m) div d"
  "(a + (n + m)) mod d = ((a + n) mod d + m) mod d" for a n m d :: nat
proof -
  have eq: "a + (n + m) = ((a + n) mod d + m) + (a + n) div d * d"
    using div_mult_mod_eq [of "a + n" d] by linarith
  show "(a + (n + m)) mod d = ((a + n) mod d + m) mod d"
    unfolding eq by (rule mod_mult_self1)
  show "(a + (n + m)) div d = (a + n) div d + ((a + n) mod d + m) div d"
  proof (cases "d = 0")
    case False
    then show ?thesis unfolding eq by (rule div_mult_self1)
  qed simp
qed

lemma unat_mul_no_wrap:
  "unat a * unat b < 2 ^ LENGTH('a) \<Longrightarrow> unat (a * b) = unat a * unat b" for a b :: "'a::len word"
  by (simp add: unat_word_ariths)

lemma unat_drop_bit: "unat (drop_bit n w) = unat w div 2 ^ n" for w :: "'a::len word"
  unfolding unsigned_drop_bit_eq by (simp add: drop_bit_eq_div take_bit_nat_eq_self unsigned_less)

lemma unat_push_bit_no_wrap:
  "unat w * 2 ^ n < 2 ^ LENGTH('a) \<Longrightarrow> unat (push_bit n w) = unat w * 2 ^ n" for w :: "'a::len word"
  unfolding unsigned_push_bit_eq by (simp add: push_bit_eq_mult take_bit_eq_mod)

lemma unat_bound: "unat w < 2 ^ LENGTH('a)" for w :: "'a::len word"
  by (rule unsigned_less)

lemma u64_product_bound: "unat a * unat b < 2 ^ 128" for a b :: u64
proof -
  have "unat a * unat b \<le> (2 ^ 64 - 1) * (2 ^ 64 - 1)"
    using unat_bound [of a] unat_bound [of b] by (intro mult_mono) simp_all
  then show ?thesis by simp
qed

text \<open>The product of two \<open>u64\<close> values taken in \<open>u128\<close> is exact.\<close>

lemma unat_wide_mul: "unat (ucast a * ucast b :: u128) = unat a * unat b" for a b :: u64
  using u64_product_bound [of a b] by (simp add: unat_mul_no_wrap unat_ucast_up)

lemma unat_ucast_down: "unat (ucast w :: 'b::len word) = unat w mod 2 ^ LENGTH('b)" for w :: "'a::len word"
  by (simp add: unsigned_ucast_eq take_bit_eq_mod)

text \<open>Quotients and remainders of values given as natural numbers.\<close>

lemma unat_of_nat_small: "a < 2 ^ LENGTH('a) \<Longrightarrow> unat (of_nat a :: 'a::len word) = a"
  by (simp add: unat_of_nat)

lemma word_of_nat_div:
  assumes "a < 2 ^ LENGTH('a)" "b < 2 ^ LENGTH('a)"
  shows "of_nat a div of_nat b = (of_nat (a div b) :: 'a::len word)"
proof -
  have "a div b < 2 ^ LENGTH('a)" using assms(1) div_le_dividend le_less_trans by blast
  then show ?thesis using assms by (simp only: word_unat_eq_iff unat_div unat_of_nat_small)
qed

lemma word_of_nat_mod:
  assumes "a < 2 ^ LENGTH('a)" "b < 2 ^ LENGTH('a)"
  shows "of_nat a mod of_nat b = (of_nat (a mod b) :: 'a::len word)"
proof -
  have "a mod b < 2 ^ LENGTH('a)" using assms(1) mod_less_eq_dividend le_less_trans by blast
  then show ?thesis using assms by (simp only: word_unat_eq_iff unat_mod unat_of_nat_small)
qed

lemma small_of_nat_le:
  "a < 2 ^ LENGTH('a) \<Longrightarrow> b < 2 ^ LENGTH('a) \<Longrightarrow> (of_nat a :: 'a::len word) \<le> of_nat b \<longleftrightarrow> a \<le> b"
  by (simp only: word_le_nat_alt unat_of_nat_small)

lemma small_of_nat_less:
  "a < 2 ^ LENGTH('a) \<Longrightarrow> b < 2 ^ LENGTH('a) \<Longrightarrow> (of_nat a :: 'a::len word) < of_nat b \<longleftrightarrow> a < b"
  by (simp only: word_less_nat_alt unat_of_nat_small)

lemma small_of_nat_eq:
  "a < 2 ^ LENGTH('a) \<Longrightarrow> b < 2 ^ LENGTH('a) \<Longrightarrow> (of_nat a :: 'a::len word) = of_nat b \<longleftrightarrow> a = b"
  by (simp only: word_unat_eq_iff unat_of_nat_small)

section \<open>Searching and alignment\<close>

text \<open>\<open>Iterator::position\<close>.\<close>

fun position :: "('a \<Rightarrow> bool) \<Rightarrow> 'a list \<Rightarrow> nat option" where
  "position P [] = None"
| "position P (x # xs) = (if P x then Some 0 else map_option Suc (position P xs))"

lemma position_SomeD: "position P xs = Some i \<Longrightarrow> i < length xs \<and> P (xs ! i)"
  by (induction xs arbitrary: i) (auto split: if_splits)

lemma position_None_iff: "position P xs = None \<longleftrightarrow> (\<forall>x \<in> set xs. \<not> P x)"
  by (induction xs) auto

text \<open>The expression \<open>(a + align - 1) & !(align - 1)\<close> for a power of two.\<close>

lemma unat_align_up:
  fixes a :: "'a::len word"
  assumes "n < LENGTH('a)" "unat a + 2 ^ n - 1 < 2 ^ LENGTH('a)"
  shows "unat ((a + bitmask n - 1) AND NOT (bitmask n - 1)) = (unat a + 2 ^ n - 1) div 2 ^ n * 2 ^ n"
proof -
  let ?x = "a + (bitmask n - 1)"
  have "(2 :: nat) ^ n < 2 ^ LENGTH('a)" using assms(1) by (intro power_strict_increasing) auto
  then have A: "unat (bitmask n :: 'a word) = 2 ^ n"
    using unat_push_bit_no_wrap [of "1 :: 'a word" n] by (simp add: bitmask_def)
  have mask: "bitmask n - 1 = (mask n :: 'a word)" by (simp add: bitmask_def mask_eq_exp_minus_1 push_bit_eq_mult)
  have "unat (bitmask n - 1 :: 'a word) = 2 ^ n - 1" using A by (subst unat_diff) (simp_all add: word_le_nat_alt)
  then have x: "unat ?x = unat a + 2 ^ n - 1" using assms(2) by (subst unat_add_no_wrap) simp_all
  have "(a + bitmask n - 1) AND NOT (bitmask n - 1) = push_bit n (drop_bit n ?x)"
    unfolding add_diff_eq [symmetric] mask by (rule bit_word_eqI) (auto simp: bit_simps)
  moreover have "unat ?x div 2 ^ n * 2 ^ n < 2 ^ LENGTH('a)"
    using unat_bound [of ?x] by (intro le_less_trans [OF div_times_less_eq_dividend]) simp
  then have "unat (push_bit n (drop_bit n ?x)) = unat ?x div 2 ^ n * 2 ^ n"
    by (simp add: unat_push_bit_no_wrap unat_drop_bit)
  ultimately show ?thesis by (simp only: x)
qed

end
