(* ===== verification/Irq_Types.thy ===== *)
theory Irq_Types
  imports Prelude
begin

text \<open>
  The vocabulary the interrupt controllers share (\<open>enlil-devices/src/interrupt/mod.rs\<close>): the
  delivery and trigger modes and the entry handed to a local APIC.
\<close>

datatype DeliveryMode = Fixed | LowestPriority | Smi | Nmi | Init | StartUp | ExtInt

datatype TriggerMode = Edge | Level

record InterruptEntry =
  ie_vector :: u8
  ie_delivery_mode :: DeliveryMode
  ie_trigger_mode :: TriggerMode
  ie_level :: bool

text \<open>The enum's discriminants, which \<open>as u32\<close> and \<open>as u8\<close> read.\<close>

fun dm_bits :: "DeliveryMode \<Rightarrow> 'a::len word" where
  "dm_bits Fixed = 0"
| "dm_bits LowestPriority = 1"
| "dm_bits Smi = 2"
| "dm_bits Nmi = 4"
| "dm_bits Init = 5"
| "dm_bits StartUp = 6"
| "dm_bits ExtInt = 7"

definition dm_from_bits :: "u8 \<Rightarrow> DeliveryMode" where
  "dm_from_bits b =
     (let n = b AND 7 in
      if n = 1 then LowestPriority
      else if n = 2 then Smi
      else if n = 4 then Nmi
      else if n = 5 then Init
      else if n = 6 then StartUp
      else if n = 7 then ExtInt
      else Fixed)"

lemma dm_from_bits_dm_bits [simp]: "dm_from_bits (dm_bits m) = m"
  by (cases m) (simp_all add: dm_from_bits_def)

lemma dm_bits_from_bits:
  "b AND 7 \<noteq> 3 \<Longrightarrow> dm_bits (dm_from_bits b) = (ucast (b AND 7) :: u32)"
  using word_and_7_cases [of b] by (auto simp: dm_from_bits_def)

lemma bit_dm_bits: "bit (dm_bits m :: u32) n \<Longrightarrow> n < 3"
  by (erule bit_index_less) (cases m, simp_all)

end
