(* ===== verification/Nesting.thy ===== *)
theory Nesting
  imports Prelude
begin

text \<open>
  The contract every interrupt controller of the platform offers to the CPU that services it: an
  acknowledge cycle puts an interrupt in service, an EOI retires the one of highest priority, and
  the outside world (devices, timers, other registers) acts in between.  The interface is a
  locale; the 8259A and the local APIC are its providers.
\<close>

text \<open>
  A run of acknowledge cycles, each preceded by a burst of activity of the environment.  It
  returns what was acknowledged and the final state.
\<close>

fun nested :: "('s \<Rightarrow> 'v option \<times> 's) \<Rightarrow> ('e \<Rightarrow> 's \<Rightarrow> 's) \<Rightarrow> 'e list \<Rightarrow> 's \<Rightarrow> 'v list \<times> 's" where
  "nested ack env [] s = ([], s)"
| "nested ack env (e # es) s =
     (case ack (env e s) of
        (None, t) \<Rightarrow> nested ack env es t
      | (Some v, t) \<Rightarrow> (case nested ack env es t of (vs, u) \<Rightarrow> (v # vs, u)))"

locale interrupt_nesting =
  fixes ok :: "'s \<Rightarrow> bool"
    and in_service_of :: "'s \<Rightarrow> 'i"
    and ack :: "'s \<Rightarrow> 'v option \<times> 's"
    and eoi :: "'s \<Rightarrow> 's"
    and env :: "'e \<Rightarrow> 's \<Rightarrow> 's"
  assumes env_ok: "ok s \<Longrightarrow> ok (env e s)"
    and env_in_service: "ok s \<Longrightarrow> in_service_of (env e s) = in_service_of s"
    and ack_None: "ok s \<Longrightarrow> ack s = (None, t) \<Longrightarrow> t = s"
    and ack_ok: "ok s \<Longrightarrow> ack s = (Some v, t) \<Longrightarrow> ok t"
    and ack_eoi: "ok s \<Longrightarrow> ack s = (Some v, t) \<Longrightarrow> in_service_of (eoi t) = in_service_of s"
    and eoi_cong: "in_service_of s = in_service_of t \<Longrightarrow> in_service_of (eoi s) = in_service_of (eoi t)"
begin

lemma eois_cong:
  "in_service_of s = in_service_of t \<Longrightarrow> in_service_of ((eoi ^^ k) s) = in_service_of ((eoi ^^ k) t)"
  by (induction k) (auto intro: eoi_cong)

lemma nested_ok: "ok s \<Longrightarrow> nested ack env es s = (vs, t) \<Longrightarrow> ok t"
proof (induction es arbitrary: s vs)
  case (Cons e es)
  from Cons.prems env_ok [OF Cons.prems(1), of e] show ?case
    by (auto split: prod.splits option.splits dest: ack_None ack_ok intro: Cons.IH)
qed simp

text \<open>As many EOIs as interrupts were acknowledged undo the whole run, whatever its nesting.\<close>

lemma nested_restores:
  assumes "ok s" "nested ack env es s = (vs, t)"
  shows "in_service_of ((eoi ^^ length vs) t) = in_service_of s"
  using assms
proof (induction es arbitrary: s vs)
  case Nil
  then show ?case by simp
next
  case (Cons e es)
  note ok = env_ok [OF Cons.prems(1), of e]
  obtain r u where ack: "ack (env e s) = (r, u)" by fastforce
  show ?case
  proof (cases r)
    case None
    with ack ack_None [OF ok] have "u = env e s" by simp
    with Cons ack None ok show ?thesis by (simp add: env_in_service)
  next
    case (Some v)
    note ack = ack [unfolded Some]
    obtain ws where rec: "nested ack env es u = (ws, t)" and vs: "vs = v # ws"
      using Cons.prems(2) ack by (auto split: prod.splits)
    have "in_service_of ((eoi ^^ length vs) t) = in_service_of (eoi u)"
      using Cons.IH [OF ack_ok [OF ok ack] rec] by (auto simp: vs intro: eoi_cong)
    also have "\<dots> = in_service_of s"
      using ack_eoi [OF ok ack] env_in_service [OF Cons.prems(1)] by simp
    finally show ?thesis .
  qed
qed

end

end
