(* ===== verification/Irq_Line.thy ===== *)
theory Irq_Line
  imports Prelude
begin

text \<open>
  The interface between a device and the interrupt input it is wired to: the \<open>IrqLine\<close> trait of
  \<open>enlil-devices/src/timer/pit.rs\<close>, one method \<open>set_level\<close>.  A device model reports the levels
  it drove as a trace; an edge-triggered input promises that a rising level is latched and that
  later levels do not withdraw it.
\<close>

text \<open>The sink after a trace of levels has been driven into it.\<close>

definition drive_trace :: "(bool \<Rightarrow> 's \<Rightarrow> 's) \<Rightarrow> bool list \<Rightarrow> 's \<Rightarrow> 's" where
  "drive_trace set_level ls s = fold set_level ls s"

locale edge_line =
  fixes ready :: "'s \<Rightarrow> bool"
    and requested :: "'s \<Rightarrow> bool"
    and set_level :: "bool \<Rightarrow> 's \<Rightarrow> 's"
  assumes ready_set_level: "ready s \<Longrightarrow> ready (set_level l s)"
    and rise_latches: "ready s \<Longrightarrow> requested (set_level True s)"
    and latched_stays: "ready s \<Longrightarrow> requested s \<Longrightarrow> requested (set_level l s)"
begin

lemma trace_ready: "ready s \<Longrightarrow> ready (drive_trace set_level ls s)"
  unfolding drive_trace_def by (induction ls arbitrary: s) (auto intro: ready_set_level)

lemma trace_keeps: "ready s \<Longrightarrow> requested s \<Longrightarrow> requested (drive_trace set_level ls s)"
  unfolding drive_trace_def
  by (induction ls arbitrary: s) (auto intro: ready_set_level latched_stays)

text \<open>A trace with a rise in it leaves the request latched, whatever follows the rise.\<close>

lemma trace_latches: "ready s \<Longrightarrow> True \<in> set ls \<Longrightarrow> requested (drive_trace set_level ls s)"
proof (induction ls arbitrary: s)
  case (Cons l ls)
  show ?case
  proof (cases l)
    case True
    with Cons.prems(1) show ?thesis
      using trace_keeps [of "set_level True s" ls]
      by (simp add: drive_trace_def ready_set_level rise_latches)
  next
    case False
    with Cons show ?thesis by (auto simp: drive_trace_def ready_set_level)
  qed
qed simp

end

end
