(* ===== verification/Pic.thy ===== *)
theory Pic
  imports Irq_Types Nesting Irq_Line
begin

text \<open>
  The Intel 8259A programmable interrupt controller and the cascaded PC/AT pair
  (\<open>enlil-devices/src/interrupt/pic.rs\<close>): the initialisation sequence ICW1-ICW4, the operation
  words OCW1-OCW3, the request/in-service/mask registers with fully nested fixed priority, the
  ELCR edge/level control and the cascade of the slave into IR2 of the master.

  Input levels are \<open>nat\<close> (0-7 on a chip); registers are bytes.
\<close>

section \<open>A single 8259A\<close>

datatype InitStep = Ready | Icw2 | Icw3 | Icw4

record ReadState =
  isr_selected :: bool
  special_mask :: bool
  poll :: bool

definition read_state_new :: ReadState where
  "read_state_new = \<lparr>isr_selected = False, special_mask = False, poll = False\<rparr>"

record Pic8259 =
  irr :: u8
  isr :: u8
  imr :: u8
  vector_base :: u8
  init_step :: InitStep
  expect_icw4 :: bool
  single :: bool
  auto_eoi :: bool
  elcr :: u8
  line_level :: u8
  read :: ReadState

definition pic_new :: Pic8259 where
  "pic_new = \<lparr>irr = 0, isr = 0, imr = 0, vector_base = 0, init_step = Ready,
     expect_icw4 = False, single = False, auto_eoi = False, elcr = 0, line_level = 0,
     read = read_state_new\<rparr>"

definition pic_set_line :: "nat \<Rightarrow> bool \<Rightarrow> Pic8259 \<Rightarrow> Pic8259" where
  "pic_set_line irq level p =
     (if irq \<ge> 8 then p
      else
        let b = bitmask irq;
            p1 = p\<lparr>line_level := (if level then line_level p OR b else line_level p AND NOT b)\<rparr>
        in if elcr p1 AND b \<noteq> 0
           then (if level then p1\<lparr>irr := irr p1 OR b\<rparr> else p1\<lparr>irr := irr p1 AND NOT b\<rparr>)
           else if level then p1\<lparr>irr := irr p1 OR b\<rparr>
           else p1)"

definition pic_raise :: "nat \<Rightarrow> Pic8259 \<Rightarrow> Pic8259" where
  "pic_raise irq p = pic_set_line irq True p"

definition pic_set_elcr :: "u8 \<Rightarrow> u8 \<Rightarrow> Pic8259 \<Rightarrow> Pic8259" where
  "pic_set_elcr val writable p = p\<lparr>elcr := val AND writable\<rparr>"

definition write_icw1 :: "u8 \<Rightarrow> Pic8259 \<Rightarrow> Pic8259" where
  "write_icw1 val p =
     p\<lparr>expect_icw4 := val AND 0x01 \<noteq> 0, single := val AND 0x02 \<noteq> 0, imr := 0, isr := 0,
       read := read_state_new, auto_eoi := False, init_step := Icw2\<rparr>"

definition clear_highest_in_service :: "Pic8259 \<Rightarrow> Pic8259" where
  "clear_highest_in_service p =
     (if isr p \<noteq> 0 then p\<lparr>isr := isr p AND NOT (bitmask (trailing_zeros (isr p)))\<rparr> else p)"

definition write_ocw2 :: "u8 \<Rightarrow> Pic8259 \<Rightarrow> Pic8259" where
  "write_ocw2 val p =
     (let specific = val AND 0x40 \<noteq> 0; eoi = val AND 0x20 \<noteq> 0 in
      if \<not> eoi then p
      else if specific then p\<lparr>isr := isr p AND NOT (bitmask (unat (val AND 0x07)))\<rparr>
      else clear_highest_in_service p)"

definition write_ocw3 :: "u8 \<Rightarrow> Pic8259 \<Rightarrow> Pic8259" where
  "write_ocw3 val p =
     (let r0 = read p;
          r1 = (if val AND 0x02 \<noteq> 0 then r0\<lparr>isr_selected := val AND 0x01 \<noteq> 0\<rparr> else r0);
          r2 = (if val AND 0x04 \<noteq> 0 then r1\<lparr>poll := True\<rparr> else r1);
          r3 = (if val AND 0x40 \<noteq> 0 then r2\<lparr>special_mask := val AND 0x20 \<noteq> 0\<rparr> else r2)
      in p\<lparr>read := r3\<rparr>)"

definition pic_write_command :: "u8 \<Rightarrow> Pic8259 \<Rightarrow> Pic8259" where
  "pic_write_command val p =
     (if val AND 0x10 \<noteq> 0 then write_icw1 val p
      else if val AND 0x08 \<noteq> 0 then write_ocw3 val p
      else write_ocw2 val p)"

definition pic_write_data :: "u8 \<Rightarrow> Pic8259 \<Rightarrow> Pic8259" where
  "pic_write_data val p =
     (case init_step p of
        Icw2 \<Rightarrow> p\<lparr>vector_base := val AND 0xF8,
                  init_step := (if single p then (if expect_icw4 p then Icw4 else Ready) else Icw3)\<rparr>
      | Icw3 \<Rightarrow> p\<lparr>init_step := (if expect_icw4 p then Icw4 else Ready)\<rparr>
      | Icw4 \<Rightarrow> p\<lparr>auto_eoi := val AND 0x02 \<noteq> 0, init_step := Ready\<rparr>
      | Ready \<Rightarrow> p\<lparr>imr := val\<rparr>)"

definition pic_read_data :: "Pic8259 \<Rightarrow> u8" where
  "pic_read_data p = imr p"

text \<open>The scan of \<open>resolve\<close>: the first requesting level below the ceiling.\<close>

function resolve_scan :: "u8 \<Rightarrow> nat \<Rightarrow> nat \<Rightarrow> nat option" where
  "resolve_scan requests ceiling irq =
     (if irq < ceiling
      then (if requests AND bitmask irq \<noteq> 0 then Some irq
            else resolve_scan requests ceiling (irq + 1))
      else None)"
  by pat_completeness auto
termination
  by (relation "measure (\<lambda>(requests, ceiling, irq). ceiling - irq)") auto

declare resolve_scan.simps [simp del]

definition blocking_levels :: "Pic8259 \<Rightarrow> u8" where
  "blocking_levels p = (if special_mask (read p) then isr p AND NOT (imr p) else isr p)"

definition pic_resolve :: "Pic8259 \<Rightarrow> u8 \<Rightarrow> nat option" where
  "pic_resolve p r =
     (let requests = r AND NOT (imr p) in
      if requests = 0 then None
      else
        let blocking = blocking_levels p;
            ceiling = (if blocking = 0 then 8 else trailing_zeros blocking)
        in resolve_scan requests ceiling 0)"

definition pic_acknowledge :: "Pic8259 \<Rightarrow> nat option \<times> Pic8259" where
  "pic_acknowledge p =
     (case pic_resolve p (irr p) of
        Some irq \<Rightarrow>
          let b = bitmask irq;
              p1 = p\<lparr>irr := irr p AND NOT b\<rparr>;
              p2 = (if elcr p1 AND b \<noteq> 0 \<and> line_level p1 AND b \<noteq> 0
                    then p1\<lparr>irr := irr p1 OR b\<rparr> else p1);
              p3 = (if \<not> auto_eoi p2 then p2\<lparr>isr := isr p2 OR b\<rparr> else p2)
          in (Some irq, p3)
      | None \<Rightarrow> (None, p))"

definition pic_read_command :: "Pic8259 \<Rightarrow> u8 \<times> Pic8259" where
  "pic_read_command p =
     (if poll (read p)
      then (case pic_acknowledge (p\<lparr>read := (read p)\<lparr>poll := False\<rparr>\<rparr>) of
              (Some irq, p') \<Rightarrow> (0x80 OR of_nat irq, p')
            | (None, p') \<Rightarrow> (0x00, p'))
      else if isr_selected (read p) then (isr p, p)
      else (irr p, p))"

section \<open>The cascaded pair\<close>

definition MASTER_CMD :: u16 where "MASTER_CMD = 0x20"
definition MASTER_DATA :: u16 where "MASTER_DATA = 0x21"
definition SLAVE_CMD :: u16 where "SLAVE_CMD = 0xA0"
definition SLAVE_DATA :: u16 where "SLAVE_DATA = 0xA1"
definition CASCADE_IRQ :: nat where "CASCADE_IRQ = 2"
definition ELCR_MASTER :: u16 where "ELCR_MASTER = 0x4D0"
definition ELCR_SLAVE :: u16 where "ELCR_SLAVE = 0x4D1"
definition ELCR_MASTER_WRITABLE :: u8 where "ELCR_MASTER_WRITABLE = 0xF8"
definition ELCR_SLAVE_WRITABLE :: u8 where "ELCR_SLAVE_WRITABLE = 0xDE"

lemmas pic_port_defs = MASTER_CMD_def MASTER_DATA_def SLAVE_CMD_def SLAVE_DATA_def
  ELCR_MASTER_def ELCR_SLAVE_def ELCR_MASTER_WRITABLE_def ELCR_SLAVE_WRITABLE_def

record DualPic =
  master :: Pic8259
  slave :: Pic8259

definition dual_new :: DualPic where
  "dual_new = \<lparr>master = pic_new, slave = pic_new\<rparr>"

definition set_irq_level :: "nat \<Rightarrow> bool \<Rightarrow> DualPic \<Rightarrow> DualPic" where
  "set_irq_level irq level d =
     (if irq < 8 then d\<lparr>master := pic_set_line irq level (master d)\<rparr>
      else if irq < 16 then d\<lparr>slave := pic_set_line (irq - 8) level (slave d)\<rparr>
      else d)"

definition raise_irq :: "nat \<Rightarrow> DualPic \<Rightarrow> DualPic" where
  "raise_irq irq d = set_irq_level irq True d"

definition write_elcr :: "u16 \<Rightarrow> u8 \<Rightarrow> DualPic \<Rightarrow> DualPic" where
  "write_elcr port val d =
     (if port = ELCR_MASTER then d\<lparr>master := pic_set_elcr val ELCR_MASTER_WRITABLE (master d)\<rparr>
      else if port = ELCR_SLAVE then d\<lparr>slave := pic_set_elcr val ELCR_SLAVE_WRITABLE (slave d)\<rparr>
      else d)"

definition read_elcr :: "u16 \<Rightarrow> DualPic \<Rightarrow> u8" where
  "read_elcr port d =
     (if port = ELCR_MASTER then elcr (master d)
      else if port = ELCR_SLAVE then elcr (slave d)
      else 0xFF)"

definition master_irr :: "DualPic \<Rightarrow> u8" where
  "master_irr d =
     (if pic_resolve (slave d) (irr (slave d)) \<noteq> None
      then irr (master d) OR bitmask CASCADE_IRQ
      else irr (master d) AND NOT (bitmask CASCADE_IRQ))"

definition pending_vector :: "DualPic \<Rightarrow> u8 option" where
  "pending_vector d =
     (case pic_resolve (master d) (master_irr d) of
        Some m \<Rightarrow>
          (if m = CASCADE_IRQ
           then (case pic_resolve (slave d) (irr (slave d)) of
                   Some s \<Rightarrow> Some (vector_base (slave d) + of_nat s)
                 | None \<Rightarrow> None)
           else Some (vector_base (master d) + of_nat m))
      | None \<Rightarrow> None)"

definition has_interrupt :: "DualPic \<Rightarrow> bool" where
  "has_interrupt d \<longleftrightarrow> pending_vector d \<noteq> None"

definition dual_acknowledge :: "DualPic \<Rightarrow> u8 option \<times> DualPic" where
  "dual_acknowledge d =
     (case pic_resolve (master d) (master_irr d) of
        Some m \<Rightarrow>
          (if m = CASCADE_IRQ
           then let d1 = (if \<not> auto_eoi (master d)
                          then d\<lparr>master := (master d)\<lparr>isr := isr (master d) OR bitmask CASCADE_IRQ\<rparr>\<rparr>
                          else d)
                in (case pic_acknowledge (slave d1) of
                      (Some s, sl) \<Rightarrow> (Some (vector_base (slave d1) + of_nat s), d1\<lparr>slave := sl\<rparr>)
                    | (None, sl) \<Rightarrow> (None, d1\<lparr>slave := sl\<rparr>))
           else (case pic_acknowledge (master d) of
                   (Some k, ma) \<Rightarrow> (Some (vector_base (master d) + of_nat k), d\<lparr>master := ma\<rparr>)
                 | (None, ma) \<Rightarrow> (None, d\<lparr>master := ma\<rparr>)))
      | None \<Rightarrow> (None, d))"

definition pic_read_port :: "u16 \<Rightarrow> DualPic \<Rightarrow> u8 \<times> DualPic" where
  "pic_read_port port d =
     (if port = MASTER_CMD then
        (case pic_read_command (master d) of (v, p) \<Rightarrow> (v, d\<lparr>master := p\<rparr>))
      else if port = MASTER_DATA then (pic_read_data (master d), d)
      else if port = SLAVE_CMD then
        (case pic_read_command (slave d) of (v, p) \<Rightarrow> (v, d\<lparr>slave := p\<rparr>))
      else if port = SLAVE_DATA then (pic_read_data (slave d), d)
      else (0xFF, d))"

definition pic_write_port :: "u16 \<Rightarrow> u8 \<Rightarrow> DualPic \<Rightarrow> DualPic" where
  "pic_write_port port val d =
     (if port = MASTER_CMD then d\<lparr>master := pic_write_command val (master d)\<rparr>
      else if port = MASTER_DATA then d\<lparr>master := pic_write_data val (master d)\<rparr>
      else if port = SLAVE_CMD then d\<lparr>slave := pic_write_command val (slave d)\<rparr>
      else if port = SLAVE_DATA then d\<lparr>slave := pic_write_data val (slave d)\<rparr>
      else d)"


section \<open>Priority resolution\<close>

lemma resolve_scan_Some_iff:
  "resolve_scan r c i = Some n \<longleftrightarrow> i \<le> n \<and> n < c \<and> bit r n \<and> (\<forall>m. i \<le> m \<and> m < n \<longrightarrow> \<not> bit r m)"
proof (induction r c i rule: resolve_scan.induct)
  case (1 r c i)
  show ?case
  proof (cases "i < c \<and> \<not> bit r i")
    case True
    with 1 have IH: "resolve_scan r c (i + 1) = Some n \<longleftrightarrow>
        i + 1 \<le> n \<and> n < c \<and> bit r n \<and> (\<forall>m. i + 1 \<le> m \<and> m < n \<longrightarrow> \<not> bit r m)"
      by simp
    from True have "resolve_scan r c i = resolve_scan r c (i + 1)"
      by (simp add: resolve_scan.simps [of r c i])
    with IH True show ?thesis
      by (metis Suc_eq_plus1 Suc_leD not_less_eq_eq order_antisym)
  next
    case False
    then show ?thesis
      by (cases "i < c") (auto simp: resolve_scan.simps [of r c i] dest: not_le_imp_less)
  qed
qed

text \<open>
  Level \<open>n\<close> of request register \<open>r\<close> can be delivered: it requests, it is not masked, and
  no level of the same or a higher priority blocks it.
\<close>

definition deliverable :: "Pic8259 \<Rightarrow> u8 \<Rightarrow> nat \<Rightarrow> bool" where
  "deliverable p r n \<longleftrightarrow>
     bit r n \<and> \<not> bit (imr p) n \<and>
     (\<forall>m \<le> n. bit (isr p) m \<longrightarrow> special_mask (read p) \<and> bit (imr p) m)"

lemma bit_blocking_levels:
  "bit (blocking_levels p) m \<longleftrightarrow> bit (isr p) m \<and> \<not> (special_mask (read p) \<and> bit (imr p) m)"
  by (auto simp: blocking_levels_def bit_simps dest: bit_imp_le_length)

lemma deliverable_alt:
  "deliverable p r n \<longleftrightarrow>
     bit (r AND NOT (imr p)) n \<and> (\<forall>m \<le> n. \<not> bit (blocking_levels p) m)"
  by (auto simp: deliverable_def bit_blocking_levels bit_simps dest: bit_imp_le_length)

lemma pic_resolve_Some_iff:
  "pic_resolve p r = Some n \<longleftrightarrow> deliverable p r n \<and> (\<forall>m < n. \<not> deliverable p r m)"
proof -
  let ?q = "r AND NOT (imr p)" and ?b = "blocking_levels p"
  let ?c = "if ?b = 0 then 8 else trailing_zeros ?b"
  have ceil: "n < ?c \<longleftrightarrow> n < 8 \<and> (\<forall>m \<le> n. \<not> bit ?b m)" for n
    using trailing_zeros_nonzero [of ?b] trailing_zeros_le [of ?b]
    by (cases "?b = 0") (auto simp: not_less_eq_eq dest: leD,
       metis le_eq_less_or_eq linorder_not_le order_less_trans)
  have lt8: "bit ?q n \<Longrightarrow> n < 8" for n
    using bit_imp_le_length [of ?q n] by simp
  have res: "pic_resolve p r = (if ?q = 0 then None else resolve_scan ?q ?c 0)"
    by (simp add: pic_resolve_def Let_def)
  show ?thesis
  proof (cases "?q = 0")
    case True
    then show ?thesis by (simp add: res deliverable_alt)
  next
    case False
    have "resolve_scan ?q ?c 0 = Some n \<longleftrightarrow>
        (\<forall>m \<le> n. \<not> bit ?b m) \<and> bit ?q n \<and> (\<forall>m < n. \<not> bit ?q m)"
      using lt8 [of n] by (auto simp: resolve_scan_Some_iff ceil)
    also have "\<dots> \<longleftrightarrow> deliverable p r n \<and> (\<forall>m < n. \<not> deliverable p r m)"
      unfolding deliverable_alt by (meson le_less_trans less_imp_le)
    finally show ?thesis using False by (simp add: res)
  qed
qed

lemma pic_resolve_None_iff: "pic_resolve p r = None \<longleftrightarrow> (\<forall>n. \<not> deliverable p r n)"
proof
  assume "pic_resolve p r = None"
  then have none: "\<not> (deliverable p r n \<and> (\<forall>m < n. \<not> deliverable p r m))" for n
    using pic_resolve_Some_iff [of p r n] by simp
  show "\<forall>n. \<not> deliverable p r n"
  proof
    fix n
    show "\<not> deliverable p r n"
      by (induction n rule: less_induct) (use none in blast)
  qed
next
  assume "\<forall>n. \<not> deliverable p r n"
  then show "pic_resolve p r = None"
    using pic_resolve_Some_iff [of p r] by (cases "pic_resolve p r") auto
qed

lemma pic_resolve_lt8: "pic_resolve p r = Some n \<Longrightarrow> n < 8"
  using bit_imp_le_length [of r n] by (simp add: pic_resolve_Some_iff deliverable_def)


section \<open>Acknowledge and end of interrupt\<close>

text \<open>The state after an INTA of level \<open>n\<close>, field by field.\<close>

lemma pic_acknowledge_None: "pic_acknowledge p = (None, p') \<longleftrightarrow> pic_resolve p (irr p) = None \<and> p' = p"
  by (auto simp: pic_acknowledge_def Let_def split: option.splits)

lemma pic_acknowledge_Some:
  assumes "pic_acknowledge p = (Some n, p')"
  shows "pic_resolve p (irr p) = Some n"
    and "isr p' = (if auto_eoi p then isr p else isr p OR bitmask n)"
    and "irr p' = (if bit (elcr p) n \<and> bit (line_level p) n then irr p
                   else irr p AND NOT (bitmask n))"
    and "imr p' = imr p" "elcr p' = elcr p" "line_level p' = line_level p"
    "vector_base p' = vector_base p" "auto_eoi p' = auto_eoi p" "read p' = read p"
    "init_step p' = init_step p"
proof -
  from assms show res: "pic_resolve p (irr p) = Some n"
    by (auto simp: pic_acknowledge_def Let_def split: option.splits)
  then have bitn: "bit (irr p) n" "n < 8"
    by (auto simp: pic_resolve_Some_iff deliverable_def dest: bit_imp_le_length)
  have keep: "(irr p AND NOT (bitmask n)) OR bitmask n = irr p"
    using bitn by (intro bit_word_eqI) (auto simp: bitw)
  show "isr p' = (if auto_eoi p then isr p else isr p OR bitmask n)"
    and "irr p' = (if bit (elcr p) n \<and> bit (line_level p) n then irr p
                   else irr p AND NOT (bitmask n))"
    and "imr p' = imr p" "elcr p' = elcr p" "line_level p' = line_level p"
    "vector_base p' = vector_base p" "auto_eoi p' = auto_eoi p" "read p' = read p"
    "init_step p' = init_step p"
    using assms res keep
    by (auto simp: pic_acknowledge_def Let_def split: if_splits)
qed

lemma pic_acknowledge_resolve:
  "pic_resolve p (irr p) = Some n \<Longrightarrow> \<exists>p'. pic_acknowledge p = (Some n, p')"
  by (simp add: pic_acknowledge_def Let_def)

text \<open>Outside special mask mode, an in-service level blocks itself and everything below it.\<close>

lemma resolve_above_in_service:
  "\<lbrakk>pic_resolve p r = Some n; \<not> special_mask (read p); bit (isr p) m\<rbrakk> \<Longrightarrow> n < m"
  by (auto simp: pic_resolve_Some_iff deliverable_def not_le [symmetric])

lemma nonspecific_eoi_isr:
  "isr (pic_write_command 0x20 p) = isr (clear_highest_in_service p)"
  by (simp add: pic_write_command_def write_ocw2_def)

lemma acknowledge_then_eoi:
  assumes "pic_acknowledge p = (Some n, p')" "\<not> auto_eoi p" "\<not> special_mask (read p)"
  shows "isr (pic_write_command 0x20 p') = isr p"
proof -
  have res: "pic_resolve p (irr p) = Some n" by (rule pic_acknowledge_Some(1) [OF assms(1)])
  have isr': "isr p' = isr p OR bitmask n"
    using pic_acknowledge_Some(2) [OF assms(1)] assms(2) by simp
  have n: "n < LENGTH(8)" using pic_resolve_lt8 [OF res] by simp
  have above: "bit (isr p) m \<Longrightarrow> n < m" for m
    by (rule resolve_above_in_service [OF res assms(3)])
  have "trailing_zeros (isr p') = n"
    unfolding isr' by (rule trailing_zeros_set_below [OF n above])
  moreover have "isr p' \<noteq> 0" unfolding isr' by (rule bitmask_nonzero [OF n])
  moreover have "\<not> bit (isr p) n" using above by blast
  ultimately show ?thesis
    by (simp add: nonspecific_eoi_isr clear_highest_in_service_def isr' set_then_clear)
qed

text \<open>
  Nested servicing: between two INTA cycles the inputs may change arbitrarily.  An episode is the
  list of line changes before one INTA.
\<close>

definition apply_lines :: "(nat \<times> bool) list \<Rightarrow> Pic8259 \<Rightarrow> Pic8259" where
  "apply_lines ls p = fold (\<lambda>(irq, l). pic_set_line irq l) ls p"

abbreviation nested_acks :: "(nat \<times> bool) list list \<Rightarrow> Pic8259 \<Rightarrow> nat list \<times> Pic8259" where
  "nested_acks \<equiv> nested pic_acknowledge apply_lines"

definition eois :: "nat \<Rightarrow> Pic8259 \<Rightarrow> Pic8259" where
  "eois k p = (pic_write_command 0x20 ^^ k) p"

lemma pic_set_line_frame [simp]:
  "isr (pic_set_line i l p) = isr p" "imr (pic_set_line i l p) = imr p"
  "auto_eoi (pic_set_line i l p) = auto_eoi p" "read (pic_set_line i l p) = read p"
  "vector_base (pic_set_line i l p) = vector_base p" "elcr (pic_set_line i l p) = elcr p"
  "init_step (pic_set_line i l p) = init_step p"
  by (simp_all add: pic_set_line_def Let_def)

lemma apply_lines_frame [simp]:
  "isr (apply_lines ls p) = isr p" "auto_eoi (apply_lines ls p) = auto_eoi p"
  "read (apply_lines ls p) = read p"
  unfolding apply_lines_def by (induction ls arbitrary: p) (auto simp: split_beta)

lemma eoi_isr_cong: "isr p = isr q \<Longrightarrow> isr (pic_write_command 0x20 p) = isr (pic_write_command 0x20 q)"
  by (simp add: nonspecific_eoi_isr clear_highest_in_service_def)

interpretation picn: interrupt_nesting "\<lambda>p. \<not> auto_eoi p \<and> \<not> special_mask (read p)" isr
  pic_acknowledge "pic_write_command 0x20" apply_lines
proof
  fix p q :: Pic8259 and n
  assume ok: "\<not> auto_eoi p \<and> \<not> special_mask (read p)" and ack: "pic_acknowledge p = (Some n, q)"
  show "\<not> auto_eoi q \<and> \<not> special_mask (read q)"
    using pic_acknowledge_Some [OF ack] ok by auto
  show "isr (pic_write_command 0x20 q) = isr p"
    using acknowledge_then_eoi [OF ack] ok by simp
qed (auto simp: pic_acknowledge_None intro: eoi_isr_cong)

section \<open>Edge-triggered inputs\<close>

text \<open>The chip and level an ISA interrupt arrives at, and the request it latches there.\<close>

definition pic_chip :: "nat \<Rightarrow> DualPic \<Rightarrow> Pic8259" where
  "pic_chip irq d = (if irq < 8 then master d else slave d)"

definition pic_latched :: "nat \<Rightarrow> DualPic \<Rightarrow> bool" where
  "pic_latched irq d \<longleftrightarrow> bit (irr (pic_chip irq d)) (irq mod 8)"

definition pic_edge_input :: "nat \<Rightarrow> DualPic \<Rightarrow> bool" where
  "pic_edge_input irq d \<longleftrightarrow> irq < 16 \<and> \<not> bit (elcr (pic_chip irq d)) (irq mod 8)"

lemma pic_set_line_edge:
  assumes "n < 8" "\<not> bit (elcr p) n"
  shows "bit (irr (pic_set_line n l p)) n \<longleftrightarrow> l \<or> bit (irr p) n"
  using assms by (simp add: pic_set_line_def Let_def)

lemma pic_chip_set_irq_level:
  assumes "irq < 16"
  shows "pic_chip irq (set_irq_level irq l d) = pic_set_line (irq mod 8) l (pic_chip irq d)"
proof (cases "irq < 8")
  case False
  with assms have "irq mod 8 = irq - 8" by (simp add: mod_if)
  with False assms show ?thesis by (simp add: pic_chip_def set_irq_level_def)
qed (simp add: pic_chip_def set_irq_level_def)

interpretation pic_input: edge_line "pic_edge_input irq" "pic_latched irq" "set_irq_level irq" for irq
  by unfold_locales (simp_all add: pic_edge_input_def pic_latched_def pic_chip_set_irq_level pic_set_line_edge)

section \<open>The cascade\<close>

lemma bit_master_irr:
  "bit (master_irr d) n \<longleftrightarrow>
     (if n = CASCADE_IRQ then pic_resolve (slave d) (irr (slave d)) \<noteq> None else bit (irr (master d)) n)"
  by (auto simp: master_irr_def CASCADE_IRQ_def)

lemma deliverable_master_irr:
  "n \<noteq> CASCADE_IRQ \<Longrightarrow>
   deliverable (master d) (master_irr d) n \<longleftrightarrow> deliverable (master d) (irr (master d)) n"
  by (simp add: deliverable_def bit_master_irr)

lemma resolve_master_own:
  assumes "pic_resolve (master d) (master_irr d) = Some m" "m \<noteq> CASCADE_IRQ"
    and "\<not> bit (irr (master d)) CASCADE_IRQ"
  shows "pic_resolve (master d) (irr (master d)) = Some m"
  unfolding pic_resolve_Some_iff
proof (intro conjI allI impI)
  show "deliverable (master d) (irr (master d)) m"
    using assms(1,2) by (simp add: pic_resolve_Some_iff deliverable_master_irr)
next
  fix k assume "k < m"
  show "\<not> deliverable (master d) (irr (master d)) k"
  proof (cases "k = CASCADE_IRQ")
    case True
    with assms(3) show ?thesis by (simp add: deliverable_def)
  next
    case False
    with \<open>k < m\<close> assms(1) show ?thesis
      using deliverable_master_irr [OF False, of d] by (auto simp: pic_resolve_Some_iff)
  qed
qed

lemma resolve_cascade_slave:
  "pic_resolve (master d) (master_irr d) = Some CASCADE_IRQ \<Longrightarrow>
   \<exists>s. pic_resolve (slave d) (irr (slave d)) = Some s"
  by (auto simp: pic_resolve_Some_iff [of "master d"] deliverable_def bit_master_irr)

lemma dual_acknowledge_pending:
  assumes "\<not> bit (irr (master d)) CASCADE_IRQ"
  shows "fst (dual_acknowledge d) = pending_vector d"
proof (cases "pic_resolve (master d) (master_irr d)")
  case None
  then show ?thesis by (simp add: dual_acknowledge_def pending_vector_def)
next
  case (Some m)
  show ?thesis
  proof (cases "m = CASCADE_IRQ")
    case True
    with Some obtain s where s: "pic_resolve (slave d) (irr (slave d)) = Some s"
      using resolve_cascade_slave by blast
    then obtain sl where "pic_acknowledge (slave d) = (Some s, sl)"
      using pic_acknowledge_resolve by blast
    with True Some s show ?thesis
      by (simp add: dual_acknowledge_def pending_vector_def Let_def)
  next
    case False
    then have "pic_resolve (master d) (irr (master d)) = Some m"
      using resolve_master_own Some assms by blast
    then obtain ma where "pic_acknowledge (master d) = (Some m, ma)"
      using pic_acknowledge_resolve by blast
    with False Some show ?thesis
      by (simp add: dual_acknowledge_def pending_vector_def)
  qed
qed

section \<open>Reachable states of the pair\<close>

text \<open>
  Everything that can happen to the pair: a device line changes, the guest programs the ELCR or
  a PIC port, reads a port, or the CPU runs an INTA cycle.  IR2 of the master is the cascade
  input; the wiring rule \<open>wired\<close> is that no device line drives it.
\<close>

datatype PicOp =
    DriveLine nat bool
  | WriteElcr u16 u8
  | ReadPicPort u16
  | WritePicPort u16 u8
  | Inta

fun pic_op :: "PicOp \<Rightarrow> DualPic \<Rightarrow> DualPic" where
  "pic_op (DriveLine irq l) d = set_irq_level irq l d"
| "pic_op (WriteElcr port v) d = write_elcr port v d"
| "pic_op (ReadPicPort port) d = snd (pic_read_port port d)"
| "pic_op (WritePicPort port v) d = pic_write_port port v d"
| "pic_op Inta d = snd (dual_acknowledge d)"

fun wired :: "PicOp \<Rightarrow> bool" where
  "wired (DriveLine irq l) \<longleftrightarrow> irq \<noteq> CASCADE_IRQ"
| "wired _ \<longleftrightarrow> True"

inductive pic_reachable :: "DualPic \<Rightarrow> bool" where
  start: "pic_reachable dual_new"
| op: "pic_reachable d \<Longrightarrow> wired x \<Longrightarrow> pic_reachable (pic_op x d)"

definition base_aligned :: "Pic8259 \<Rightarrow> bool" where
  "base_aligned p \<longleftrightarrow> vector_base p AND 0x07 = 0"

definition dual_inv :: "DualPic \<Rightarrow> bool" where
  "dual_inv d \<longleftrightarrow>
     \<not> bit (irr (master d)) CASCADE_IRQ \<and>
     base_aligned (master d) \<and> base_aligned (slave d) \<and>
     elcr (master d) AND NOT ELCR_MASTER_WRITABLE = 0 \<and>
     elcr (slave d) AND NOT ELCR_SLAVE_WRITABLE = 0"

lemma bit_pic_set_line_irr: "irq \<noteq> n \<Longrightarrow> bit (irr (pic_set_line irq l p)) n = bit (irr p) n"
  by (auto simp: pic_set_line_def Let_def)

lemma pic_acknowledge_keeps:
  "pic_acknowledge p = (r, p') \<Longrightarrow>
   vector_base p' = vector_base p \<and> elcr p' = elcr p \<and> (bit (irr p') n \<longrightarrow> bit (irr p) n)"
  using pic_acknowledge_Some [of p _ p'] pic_acknowledge_None [of p p']
  by (cases r) (auto split: if_splits)

lemma pic_read_command_keeps:
  "pic_read_command p = (v, p') \<Longrightarrow>
   vector_base p' = vector_base p \<and> elcr p' = elcr p \<and> (bit (irr p') n \<longrightarrow> bit (irr p) n)"
  using pic_acknowledge_keeps [of "p\<lparr>read := (read p)\<lparr>poll := False\<rparr>\<rparr>" _ p' n]
  by (auto simp: pic_read_command_def split: if_splits prod.splits option.splits)

lemma pic_write_command_keeps [simp]:
  "vector_base (pic_write_command v p) = vector_base p"
  "elcr (pic_write_command v p) = elcr p"
  "irr (pic_write_command v p) = irr p"
  by (simp_all add: pic_write_command_def write_icw1_def write_ocw2_def write_ocw3_def
      clear_highest_in_service_def Let_def)

lemma pic_write_data_keeps [simp]:
  "elcr (pic_write_data v p) = elcr p" "irr (pic_write_data v p) = irr p"
  by (simp_all add: pic_write_data_def split: InitStep.splits)

lemma base_aligned_write_data: "base_aligned p \<Longrightarrow> base_aligned (pic_write_data v p)"
  by (simp add: base_aligned_def pic_write_data_def and.assoc split: InitStep.splits)

lemma elcr_masked [simp]: "(v AND w) AND NOT w = (0 :: u8)"
  by (rule bit_word_eqI) (simp add: bit_simps)

lemma dual_acknowledge_keeps:
  "dual_acknowledge d = (r, d') \<Longrightarrow>
   vector_base (master d') = vector_base (master d) \<and> elcr (master d') = elcr (master d) \<and>
   vector_base (slave d') = vector_base (slave d) \<and> elcr (slave d') = elcr (slave d) \<and>
   (bit (irr (master d')) n \<longrightarrow> bit (irr (master d)) n)"
  using pic_acknowledge_keeps [of "slave d"] pic_acknowledge_keeps [of "master d"]
  by (auto simp: dual_acknowledge_def Let_def split: option.splits if_splits prod.splits)

lemma pic_op_inv:
  assumes "dual_inv d" "wired x"
  shows "dual_inv (pic_op x d)"
proof (cases x)
  case (DriveLine irq l)
  with assms show ?thesis
    by (auto simp: dual_inv_def set_irq_level_def base_aligned_def bit_pic_set_line_irr)
next
  case (WriteElcr port v)
  with assms show ?thesis
    by (auto simp: dual_inv_def write_elcr_def pic_set_elcr_def base_aligned_def)
next
  case (ReadPicPort port)
  with assms pic_read_command_keeps [of "master d"] pic_read_command_keeps [of "slave d"]
  show ?thesis
    by (auto simp: dual_inv_def pic_read_port_def base_aligned_def split: prod.splits)
next
  case (WritePicPort port v)
  with assms show ?thesis
    by (auto simp: dual_inv_def pic_write_port_def base_aligned_write_data)
       (auto simp: base_aligned_def)
next
  case Inta
  with assms dual_acknowledge_keeps [of d] show ?thesis
    by (cases "dual_acknowledge d") (auto simp: dual_inv_def base_aligned_def)
qed

lemma dual_new_inv: "dual_inv dual_new"
  by (simp add: dual_inv_def dual_new_def pic_new_def base_aligned_def)

lemma pic_reachable_inv: "pic_reachable d \<Longrightarrow> dual_inv d"
  by (induction rule: pic_reachable.induct) (auto simp: dual_new_inv pic_op_inv)

lemma pic_reachable_fold:
  "pic_reachable d \<Longrightarrow> list_all wired xs \<Longrightarrow> pic_reachable (fold pic_op xs d)"
  by (induction xs arbitrary: d) (auto intro: pic_reachable.op)

lemmas pic_reachable_run = pic_reachable_fold [OF pic_reachable.start]

lemma aligned_base_plus_level:
  fixes b :: u8
  assumes "b AND 0x07 = 0" "m < 8"
  shows "b + of_nat m = b OR of_nat m"
proof -
  have "m \<in> {0, 1, 2, 3, 4, 5, 6, 7}" using assms(2) by auto
  then have "(of_nat m :: u8) = 0x07 AND of_nat m" by auto
  then have "b AND of_nat m = (b AND 0x07) AND of_nat m" by (metis and.assoc)
  then have "b AND of_nat m = 0" by (simp add: assms(1))
  then show ?thesis by (rule disjunctive_add_eq_or)
qed

section \<open>Properties\<close>

text \<open>
  C12 (refinement).  The scan of \<open>resolve\<close> is a fully nested priority encoder: it returns the
  highest-priority level that requests, is unmasked and is not blocked by an in-service level of
  the same or higher priority, and \<open>None\<close> exactly when there is no such level.
\<close>

theorem pic_resolve_spec:
  "pic_resolve p r =
     (if \<exists>n. deliverable p r n then Some (LEAST n. deliverable p r n) else None)"
proof (cases "\<exists>n. deliverable p r n")
  case True
  then have "deliverable p r (LEAST n. deliverable p r n)" by (rule LeastI_ex)
  with not_less_Least [of _ "deliverable p r"]
  have "pic_resolve p r = Some (LEAST n. deliverable p r n)"
    unfolding pic_resolve_Some_iff by blast
  with True show ?thesis by simp
next
  case False
  then show ?thesis by (simp add: pic_resolve_None_iff)
qed

text \<open>
  C26 (safety).  In every state reachable without a device driving the cascade input, an INTA
  cycle returns exactly the vector \<open>pending_vector\<close> announced, and that vector carries a
  deliverable level of the owning chip in the low bits of the programmed base.
\<close>

theorem inta_delivers_pending:
  assumes "pic_reachable d"
  shows "fst (dual_acknowledge d) = pending_vector d \<and>
    (\<forall>v. pending_vector d = Some v \<longrightarrow>
       (\<exists>p m. p \<in> {master d, slave d} \<and> m < 8 \<and> deliverable p (irr p) m \<and>
              v = vector_base p OR of_nat m))"
proof
  have inv: "dual_inv d" using assms by (rule pic_reachable_inv)
  then have clear: "\<not> bit (irr (master d)) CASCADE_IRQ" by (simp add: dual_inv_def)
  show "fst (dual_acknowledge d) = pending_vector d"
    by (rule dual_acknowledge_pending [OF clear])
  show "\<forall>v. pending_vector d = Some v \<longrightarrow>
       (\<exists>p m. p \<in> {master d, slave d} \<and> m < 8 \<and> deliverable p (irr p) m \<and>
              v = vector_base p OR of_nat m)"
  proof (intro allI impI)
    fix v assume v: "pending_vector d = Some v"
    obtain p m where pm: "p \<in> {master d, slave d}" "pic_resolve p (irr p) = Some m"
      "v = vector_base p + of_nat m"
    proof (cases "pic_resolve (master d) (master_irr d) = Some CASCADE_IRQ")
      case True
      with v that [of "slave d"] show ?thesis
        by (auto simp: pending_vector_def split: option.splits)
    next
      case False
      with v obtain k where "pic_resolve (master d) (master_irr d) = Some k" "k \<noteq> CASCADE_IRQ"
        "v = vector_base (master d) + of_nat k"
        by (auto simp: pending_vector_def split: option.splits if_splits)
      with that [of "master d"] resolve_master_own clear show ?thesis by blast
    qed
    then have "m < 8" "deliverable p (irr p) m"
      using pic_resolve_lt8 pic_resolve_Some_iff by blast+
    moreover have "vector_base p AND 0x07 = 0"
      using pm(1) inv by (auto simp: dual_inv_def base_aligned_def)
    ultimately show "\<exists>p m. p \<in> {master d, slave d} \<and> m < 8 \<and> deliverable p (irr p) m \<and>
        v = vector_base p OR of_nat m"
      using pm by (intro exI [of _ p] exI [of _ m]) (simp add: aligned_base_plus_level)
  qed
qed

definition pc_at_init :: "PicOp list" where
  "pc_at_init = [WritePicPort MASTER_CMD 0x11, WritePicPort MASTER_DATA 0x20,
     WritePicPort MASTER_DATA 0x04, WritePicPort MASTER_DATA 0x01,
     WritePicPort SLAVE_CMD 0x11, WritePicPort SLAVE_DATA 0x28,
     WritePicPort SLAVE_DATA 0x02, WritePicPort SLAVE_DATA 0x01]"

theorem inta_delivers_pending_witness:
  "let d = fold pic_op (pc_at_init @ [DriveLine 10 True]) dual_new in
   pic_reachable d \<and> fst (dual_acknowledge d) = pending_vector d \<and> pending_vector d = Some 0x2A"
proof -
  let ?d = "fold pic_op (pc_at_init @ [DriveLine 10 True]) dual_new"
  have r: "pic_reachable ?d"
    by (rule pic_reachable_run) (simp add: pc_at_init_def CASCADE_IRQ_def)
  have v: "pending_vector ?d = Some 0x2A" by code_simp
  show ?thesis using r v inta_delivers_pending [OF r] by (simp only: Let_def simp_thms)
qed

text \<open>
  C18 (invariant).  Fully nested servicing is a stack: whatever the device lines do between
  INTA cycles, after \<open>k\<close> acknowledges that each delivered a level, \<open>k\<close> non-specific EOIs
  restore the in-service register.
\<close>

theorem nested_service_restores_isr:
  assumes "nested_acks es p = (ns, q)" "\<not> auto_eoi p" "\<not> special_mask (read p)"
  shows "isr (eois (length ns) q) = isr p"
  using assms picn.nested_restores [of p es ns q] by (simp add: eois_def)

theorem nested_service_restores_isr_witness:
  "nested_acks [[(5, True)], [(2, True)], [(7, True)], [(0, True)]] pic_new =
     ([5, 2, 0], snd (nested_acks [[(5, True)], [(2, True)], [(7, True)], [(0, True)]] pic_new)) \<and>
   isr (eois 3 (snd (nested_acks [[(5, True)], [(2, True)], [(7, True)], [(0, True)]] pic_new))) = 0"
proof -
  let ?q = "snd (nested_acks [[(5, True)], [(2, True)], [(7, True)], [(0, True)]] pic_new)"
  have n: "nested_acks [[(5, True)], [(2, True)], [(7, True)], [(0, True)]] pic_new = ([5, 2, 0], ?q)"
    by code_simp
  have "isr (eois (length [5::nat, 2, 0]) ?q) = isr pic_new"
    by (rule nested_service_restores_isr [OF n])
       (simp_all add: pic_new_def read_state_new_def)
  with n show ?thesis by (simp add: pic_new_def numeral_eq_Suc)
qed

text \<open>
  Trigger modes: acknowledging a level-triggered line that stays asserted
  leaves its request pending, so the next EOI makes it deliverable again; dropping the line
  first withdraws it.  An edge-triggered line is consumed by the acknowledge whatever its level.
\<close>

theorem level_rearms_edge_consumes:
  assumes "pic_acknowledge p = (Some n, p')" "\<not> auto_eoi p" "\<not> special_mask (read p)"
  shows "(if bit (elcr p) n \<and> bit (line_level p) n
          then pic_resolve (pic_write_command 0x20 p') (irr p') = Some n \<and>
               \<not> bit (irr (pic_set_line n False p')) n
          else \<not> bit (irr p') n)"
proof -
  note ack = pic_acknowledge_Some [OF assms(1)]
  have isr: "isr (pic_write_command 0x20 p') = isr p"
    by (rule acknowledge_then_eoi [OF assms])
  have frame: "imr (pic_write_command 0x20 p') = imr p'" "read (pic_write_command 0x20 p') = read p'"
    by (simp_all add: pic_write_command_def write_ocw2_def clear_highest_in_service_def)
  have same: "deliverable (pic_write_command 0x20 p') r m \<longleftrightarrow> deliverable p r m" for r m
    by (simp add: deliverable_def isr frame ack)
  have n: "n < 8" using ack(1) by (rule pic_resolve_lt8)
  show ?thesis
    using ack(1,3,5,6) n same
    by (auto simp: pic_resolve_Some_iff pic_set_line_def Let_def)
qed

theorem level_rearms_edge_consumes_witness:
  "let p = pic_set_line 3 True (pic_set_elcr 0x08 ELCR_MASTER_WRITABLE pic_new);
       p' = snd (pic_acknowledge p)
   in pic_resolve (pic_write_command 0x20 p') (irr p') = Some 3 \<and>
      \<not> bit (irr (pic_set_line 3 False p')) 3"
proof -
  let ?p = "pic_set_line 3 True (pic_set_elcr 0x08 ELCR_MASTER_WRITABLE pic_new)"
  have a: "pic_acknowledge ?p = (Some 3, snd (pic_acknowledge ?p))" by code_simp
  have e: "\<not> auto_eoi ?p" "\<not> special_mask (read ?p)" by code_simp+
  have l: "bit (elcr ?p) 3 \<and> bit (line_level ?p) 3" by code_simp
  show ?thesis
    using level_rearms_edge_consumes [OF a e] l by (simp only: Let_def if_True simp_thms)
qed

text \<open>
  Initialisation: after ICW1 the chip consumes exactly the ICW bytes ICW1
  announced (ICW2, then ICW3 unless single, then ICW4 if announced) before it is operational
  again, with the base of ICW2, the auto-EOI bit of ICW4, no level in service, nothing masked and
  the latched requests kept.
\<close>

definition icw_count :: "u8 \<Rightarrow> nat" where
  "icw_count icw1 =
     1 + (if icw1 AND 0x02 \<noteq> 0 then 0 else 1) + (if icw1 AND 0x01 \<noteq> 0 then 1 else 0)"

theorem icw_sequence:
  assumes "icw1 AND 0x10 \<noteq> 0" "length bs = icw_count icw1"
  shows "let q = fold pic_write_data bs (pic_write_command icw1 p) in
     (\<forall>k < length bs. init_step (fold pic_write_data (take k bs) (pic_write_command icw1 p)) \<noteq> Ready) \<and>
     init_step q = Ready \<and> vector_base q = hd bs AND 0xF8 \<and> isr q = 0 \<and> imr q = 0 \<and>
     irr q = irr p \<and> auto_eoi q = (icw1 AND 0x01 \<noteq> 0 \<and> last bs AND 0x02 \<noteq> 0)"
proof -
  let ?w = "pic_write_command icw1 p"
  have w: "init_step ?w = Icw2" "single ?w = (icw1 AND 0x02 \<noteq> 0)" "expect_icw4 ?w = (icw1 AND 0x01 \<noteq> 0)"
    "isr ?w = 0" "imr ?w = 0" "auto_eoi ?w = False"
    using assms(1) by (simp_all add: pic_write_command_def write_icw1_def)
  have upto: "(\<forall>k < Suc n. P k) \<longleftrightarrow> P n \<and> (\<forall>k < n. P k)" for P and n :: nat
    by (auto simp: less_Suc_eq)
  consider (single) "icw1 AND 0x02 \<noteq> 0" "icw1 AND 0x01 = 0" | (single4) "icw1 AND 0x02 \<noteq> 0" "icw1 AND 0x01 \<noteq> 0"
    | (cascade) "icw1 AND 0x02 = 0" "icw1 AND 0x01 = 0" | (cascade4) "icw1 AND 0x02 = 0" "icw1 AND 0x01 \<noteq> 0"
    by blast
  then show ?thesis
  proof cases
    case single
    with assms(2) obtain a where "bs = [a]" by (auto simp: icw_count_def length_Suc_conv)
    with single w show ?thesis by (simp add: upto pic_write_data_def)
  next
    case single4
    with assms(2) obtain a b where "bs = [a, b]" by (auto simp: icw_count_def length_Suc_conv)
    with single4 w show ?thesis by (simp add: upto pic_write_data_def)
  next
    case cascade
    with assms(2) obtain a b where "bs = [a, b]" by (auto simp: icw_count_def length_Suc_conv)
    with cascade w show ?thesis by (simp add: upto pic_write_data_def)
  next
    case cascade4
    with assms(2) obtain a b c where "bs = [a, b, c]" by (auto simp: icw_count_def length_Suc_conv)
    with cascade4 w show ?thesis by (simp add: upto pic_write_data_def)
  qed
qed

theorem icw_sequence_witness:
  "let q = fold pic_write_data [0x20, 0x04, 0x03] (pic_write_command 0x11 pic_new) in
     init_step q = Ready \<and> vector_base q = 0x20 \<and> auto_eoi q"
proof -
  have h: "(0x11 :: u8) AND 0x10 \<noteq> 0" "length [0x20 :: u8, 0x04, 0x03] = icw_count 0x11"
    by (simp_all add: icw_count_def)
  show ?thesis using icw_sequence [OF h, of pic_new] by (simp add: Let_def)
qed

text \<open>
  The wiring rule matters: with a device latched on IR2 of the master, \<open>acknowledge\<close> consults
  the raw request register that \<open>pending_vector\<close> masks, and delivers a different vector from
  the one announced.
\<close>

lemma inta_mismatch_when_ir2_driven:
  "let d = raise_irq 4 (raise_irq 2 dual_new) in
     pending_vector d = Some 4 \<and> fst (dual_acknowledge d) = Some 2"
  by code_simp

end
