(* ===== verification/Pirq.thy ===== *)
theory Pirq
  imports Prelude
begin

text \<open>
  The chipset PCI interrupt router (\<open>enlil-devices/src/interrupt/pirq.rs\<close>): the slot/pin
  swizzle onto the four PIRQ lines, the four routing registers, and the resolution of a device to
  its ISA IRQ (PIC mode) or I/O APIC input (APIC mode).  The register array is a list of
  length 4; every access is reduced modulo 4 as in the source, so none is out of range.
\<close>

definition PIRQ_LINES :: nat where "PIRQ_LINES = 4"
definition PIRQ_GSI_BASE :: u8 where "PIRQ_GSI_BASE = 16"
definition PIRQ_DEFAULT_IRQS :: "u8 list" where "PIRQ_DEFAULT_IRQS = [11, 10, 5, 6]"
definition ROUTE_DISABLED :: u8 where "ROUTE_DISABLED = 0x80"
definition ROUTE_IRQ_MASK :: u8 where "ROUTE_IRQ_MASK = 0x0F"

lemmas pirq_consts = PIRQ_LINES_def PIRQ_GSI_BASE_def PIRQ_DEFAULT_IRQS_def ROUTE_DISABLED_def
  ROUTE_IRQ_MASK_def

record PirqRouter =
  routes :: "u8 list"

definition pirq_new :: PirqRouter where
  "pirq_new = \<lparr>routes = replicate PIRQ_LINES ROUTE_DISABLED\<rparr>"

definition pirq_line :: "u8 \<Rightarrow> u8 \<Rightarrow> nat option" where
  "pirq_line slot pin =
     (if pin = 0 \<or> pin > 4 then None else Some ((unat slot + unat pin - 1) mod PIRQ_LINES))"

definition set_route :: "nat \<Rightarrow> u8 \<Rightarrow> PirqRouter \<Rightarrow> PirqRouter" where
  "set_route pirq value r = r\<lparr>routes := (routes r)[pirq mod PIRQ_LINES := value]\<rparr>"

definition route_register :: "nat \<Rightarrow> PirqRouter \<Rightarrow> u8" where
  "route_register pirq r = routes r ! (pirq mod PIRQ_LINES)"

definition sync_from_config :: "u8 list \<Rightarrow> PirqRouter \<Rightarrow> PirqRouter" where
  "sync_from_config regs r = r\<lparr>routes := regs\<rparr>"

definition is_pci_routable_irq :: "u8 \<Rightarrow> bool" where
  "is_pci_routable_irq irq \<longleftrightarrow> 3 \<le> irq \<and> irq \<le> 7 \<or> 9 \<le> irq \<and> irq \<le> 12 \<or> irq = 14 \<or> irq = 15"

definition isa_irq :: "nat \<Rightarrow> PirqRouter \<Rightarrow> u8 option" where
  "isa_irq pirq r =
     (let reg = routes r ! (pirq mod PIRQ_LINES) in
      if reg AND ROUTE_DISABLED \<noteq> 0 then None
      else let irq = reg AND ROUTE_IRQ_MASK in
           if is_pci_routable_irq irq then Some irq else None)"

definition device_isa_irq :: "u8 \<Rightarrow> u8 \<Rightarrow> PirqRouter \<Rightarrow> u8 option" where
  "device_isa_irq slot pin r =
     (case pirq_line slot pin of Some line \<Rightarrow> isa_irq line r | None \<Rightarrow> None)"

definition firmware_default :: PirqRouter where
  "firmware_default = \<lparr>routes = PIRQ_DEFAULT_IRQS\<rparr>"

definition default_device_isa_irq :: "u8 \<Rightarrow> u8 \<Rightarrow> u8 option" where
  "default_device_isa_irq slot pin =
     (case pirq_line slot pin of Some line \<Rightarrow> Some (PIRQ_DEFAULT_IRQS ! line) | None \<Rightarrow> None)"

definition device_gsi :: "u8 \<Rightarrow> u8 \<Rightarrow> u8 option" where
  "device_gsi slot pin =
     (case pirq_line slot pin of
        None \<Rightarrow> None
      | Some line \<Rightarrow>
          if line = 0 then Some PIRQ_GSI_BASE
          else if line = 1 then Some (PIRQ_GSI_BASE + 1)
          else if line = 2 then Some (PIRQ_GSI_BASE + 2)
          else Some (PIRQ_GSI_BASE + 3))"

section \<open>Routing\<close>

lemma pirq_line_lt: "pirq_line slot pin = Some line \<Longrightarrow> line \<in> {0, 1, 2, 3}"
proof -
  assume "pirq_line slot pin = Some line"
  then have "line < 4" by (auto simp: pirq_line_def pirq_consts split: if_splits)
  then show ?thesis by auto
qed

lemma pirq_line_None_iff: "pirq_line slot pin = None \<longleftrightarrow> pin = 0 \<or> pin > 4"
  by (simp add: pirq_line_def)

lemma route_register_set_route:
  "length (routes r) = PIRQ_LINES \<Longrightarrow>
   route_register i (set_route j v r) =
     (if i mod PIRQ_LINES = j mod PIRQ_LINES then v else route_register i r)"
  by (auto simp: route_register_def set_route_def PIRQ_LINES_def)

text \<open>The swizzle separates the pins of one slot, and the slots that share a pin.\<close>

lemma unat_pin: "pirq_line slot pin = Some l \<Longrightarrow> 1 \<le> unat pin \<and> unat pin \<le> 4"
proof -
  assume a: "pirq_line slot pin = Some l"
  then have "pin \<noteq> 0" "pin \<le> 4" by (auto simp: pirq_line_def not_less split: if_splits)
  then have "unat pin \<noteq> 0" "unat pin \<le> unat (4 :: u8)"
    by (simp_all add: unat_eq_0 word_le_nat_alt)
  then show ?thesis by simp
qed

lemma mod_4_cancel: "\<lbrakk>a < 4; b < 4; (s + a) mod 4 = (s + b) mod 4\<rbrakk> \<Longrightarrow> a = b" for a b s :: nat
proof -
  assume a: "a < 4" "b < 4" "(s + a) mod 4 = (s + b) mod 4"
  from a(3) have "int (s + a) mod 4 = int (s + b) mod 4" by (metis of_nat_mod of_nat_numeral)
  then have "4 dvd int a - int b" by (simp add: mod_eq_dvd_iff)
  with a(1,2) show "a = b" by presburger
qed

lemma pirq_line_pins_distinct:
  assumes "pirq_line slot p = Some l" "pirq_line slot q = Some l"
  shows "p = q"
proof -
  note b = unat_pin [OF assms(1)] unat_pin [OF assms(2)]
  have e: "unat slot + unat p - 1 = unat slot + (unat p - 1)"
    "unat slot + unat q - 1 = unat slot + (unat q - 1)"
    using b by linarith+
  have "(unat slot + unat p - 1) mod PIRQ_LINES = (unat slot + unat q - 1) mod PIRQ_LINES"
    using assms by (simp add: pirq_line_def split: if_splits)
  then have "(unat slot + (unat p - 1)) mod 4 = (unat slot + (unat q - 1)) mod 4"
    by (simp only: e PIRQ_LINES_def)
  moreover have "unat p - 1 < 4" "unat q - 1 < 4" using b by linarith+
  ultimately have "unat p - 1 = unat q - 1" using mod_4_cancel by blast
  with b have "unat p = unat q" by linarith
  then show ?thesis by (simp add: word_unat_eq_iff)
qed

lemma isa_irq_routable: "isa_irq l r = Some irq \<Longrightarrow> is_pci_routable_irq irq"
  by (auto simp: isa_irq_def Let_def split: if_splits)

lemma isa_irq_firmware: "l \<in> {0, 1, 2, 3} \<Longrightarrow> isa_irq l firmware_default = Some (PIRQ_DEFAULT_IRQS ! l)"
  by (auto simp: isa_irq_def firmware_default_def pirq_consts is_pci_routable_irq_def Let_def)

text \<open>C29 (equivalence).  The interrupt the firmware's \<open>_PRT\<close> table announces for a device in PIC
  mode is the one the router delivers under the firmware's register values, for every slot and
  pin; a device without a pin has none; every routed interrupt is one a PCI device may use; and
  the APIC-mode input of a device is its PIRQ line counted from 16.\<close>

theorem firmware_routing_agrees:
  "device_isa_irq slot pin firmware_default = default_device_isa_irq slot pin \<and>
   (device_isa_irq slot pin firmware_default = None \<longleftrightarrow> pin = 0 \<or> pin > 4) \<and>
   pred_option is_pci_routable_irq (device_isa_irq slot pin r) \<and>
   device_gsi slot pin = map_option (\<lambda>l. 16 + of_nat l) (pirq_line slot pin)"
proof (cases "pirq_line slot pin")
  case None
  then show ?thesis
    using pirq_line_None_iff [of slot pin]
    by (simp add: device_isa_irq_def default_device_isa_irq_def device_gsi_def)
next
  case (Some l)
  note l = pirq_line_lt [OF Some]
  from Some have "\<not> (pin = 0 \<or> pin > 4)" by (auto simp: pirq_line_def split: if_splits)
  moreover have "pred_option is_pci_routable_irq (isa_irq l r)"
    by (cases "isa_irq l r") (auto dest: isa_irq_routable)
  ultimately show ?thesis
    using l Some
    by (auto simp: device_isa_irq_def default_device_isa_irq_def device_gsi_def isa_irq_firmware
        PIRQ_GSI_BASE_def)
qed

end
