(* ===== verification/Batched_Clock.thy ===== *)
theory Batched_Clock
  imports Prelude
begin

text \<open>
  The contract of a device that the platform advances by elapsed ticks.  The caller hands over
  whatever has elapsed since the last call, so the batches have no fixed size; a device keeps the
  contract when the way a span of time is cut into batches makes no difference.  The interface is
  a locale; the timers of the platform that promise this are its providers.
\<close>

text \<open>Advance by a list of batches, joining what the calls report.\<close>

fun run_batches :: "'r \<Rightarrow> ('r \<Rightarrow> 'r \<Rightarrow> 'r) \<Rightarrow> (nat \<Rightarrow> 's \<Rightarrow> 'r \<times> 's) \<Rightarrow> nat list \<Rightarrow> 's \<Rightarrow> 'r \<times> 's" where
  "run_batches none join tick [] s = (none, s)"
| "run_batches none join tick (n # ns) s =
     (case tick n s of (r, t) \<Rightarrow>
      case run_batches none join tick ns t of (r', u) \<Rightarrow> (join r r', u))"

text \<open>\<open>room s\<close> is the number of ticks a state takes before a counter of the call saturates.\<close>

locale batched_clock =
  fixes ok :: "'s \<Rightarrow> bool"
    and room :: "'s \<Rightarrow> nat"
    and none :: 'r
    and join :: "'r \<Rightarrow> 'r \<Rightarrow> 'r"
    and tick :: "nat \<Rightarrow> 's \<Rightarrow> 'r \<times> 's"
  assumes tick_0: "ok s \<Longrightarrow> tick 0 s = (none, s)"
    and tick_ok: "ok s \<Longrightarrow> n \<le> room s \<Longrightarrow> ok (snd (tick n s))"
    and tick_room: "ok s \<Longrightarrow> n + m \<le> room s \<Longrightarrow> m \<le> room (snd (tick n s))"
    and tick_add: "ok s \<Longrightarrow> n + m \<le> room s \<Longrightarrow>
      tick (n + m) s =
        (join (fst (tick n s)) (fst (tick m (snd (tick n s)))), snd (tick m (snd (tick n s))))"
begin

lemma run_batches_sum:
  "ok s \<Longrightarrow> sum_list ns \<le> room s \<Longrightarrow> run_batches none join tick ns s = tick (sum_list ns) s"
proof (induction ns arbitrary: s)
  case Nil
  then show ?case by (simp add: tick_0)
next
  case (Cons n ns)
  then have "n \<le> room s" by simp
  with Cons show ?case
    by (simp add: tick_add tick_ok tick_room split_beta)
qed

text \<open>Two ways of cutting the same span into batches end in the same state and report the same.\<close>

lemma batching_irrelevant:
  assumes "ok s" "sum_list ns = sum_list ms" "sum_list ns \<le> room s"
  shows "run_batches none join tick ns s = run_batches none join tick ms s"
  using assms by (simp add: run_batches_sum)

end

end
