(* ===== verification/Lapic.thy ===== *)
theory Lapic
  imports Irq_Types Nesting Batched_Clock
begin

text \<open>
  The local APIC of one virtual CPU (\<open>enlil-devices/src/interrupt/lapic.rs\<close>): the register
  file, interrupt acceptance into the 256-bit IRR, priority arbitration against TPR and ISR,
  EOI, logical destination matching, the bus-clock timer with its divide configuration and the
  TSC-deadline timer.

  The three \<open>[u32; 8]\<close> bitmaps are lists of length 8; that and the range of TPR is \<open>lapic_wf\<close>, which every operation
  preserves; a vector indexes them by \<open>v / 32\<close> and \<open>v % 32\<close>.
\<close>

section \<open>Registers\<close>

definition LAPIC_ID :: u32 where "LAPIC_ID = 0x020"
definition LAPIC_VERSION :: u32 where "LAPIC_VERSION = 0x030"
definition LAPIC_TPR :: u32 where "LAPIC_TPR = 0x080"
definition LAPIC_APR :: u32 where "LAPIC_APR = 0x090"
definition LAPIC_PPR :: u32 where "LAPIC_PPR = 0x0A0"
definition LAPIC_EOI :: u32 where "LAPIC_EOI = 0x0B0"
definition LAPIC_LDR :: u32 where "LAPIC_LDR = 0x0D0"
definition LAPIC_DFR :: u32 where "LAPIC_DFR = 0x0E0"
definition LAPIC_SVR :: u32 where "LAPIC_SVR = 0x0F0"
definition LAPIC_ISR_BASE :: u32 where "LAPIC_ISR_BASE = 0x100"
definition LAPIC_TMR_BASE :: u32 where "LAPIC_TMR_BASE = 0x180"
definition LAPIC_IRR_BASE :: u32 where "LAPIC_IRR_BASE = 0x200"
definition LAPIC_ESR :: u32 where "LAPIC_ESR = 0x280"
definition LAPIC_LVT_CMCI :: u32 where "LAPIC_LVT_CMCI = 0x2F0"
definition LAPIC_ICR_LOW :: u32 where "LAPIC_ICR_LOW = 0x300"
definition LAPIC_ICR_HIGH :: u32 where "LAPIC_ICR_HIGH = 0x310"
definition LAPIC_LVT_TIMER :: u32 where "LAPIC_LVT_TIMER = 0x320"
definition LAPIC_LVT_THERMAL :: u32 where "LAPIC_LVT_THERMAL = 0x330"
definition LAPIC_LVT_PERF :: u32 where "LAPIC_LVT_PERF = 0x340"
definition LAPIC_LVT_LINT0 :: u32 where "LAPIC_LVT_LINT0 = 0x350"
definition LAPIC_LVT_LINT1 :: u32 where "LAPIC_LVT_LINT1 = 0x360"
definition LAPIC_LVT_ERROR :: u32 where "LAPIC_LVT_ERROR = 0x370"
definition LAPIC_TIMER_INIT :: u32 where "LAPIC_TIMER_INIT = 0x380"
definition LAPIC_TIMER_CURRENT :: u32 where "LAPIC_TIMER_CURRENT = 0x390"
definition LAPIC_TIMER_DIVIDE :: u32 where "LAPIC_TIMER_DIVIDE = 0x3E0"
definition LAPIC_SELF_IPI :: u32 where "LAPIC_SELF_IPI = 0x3F0"

definition LVT_TIMER_WRITE_MASK :: u32 where "LVT_TIMER_WRITE_MASK = 0x000700FF"
definition LVT_DELIVERY_WRITE_MASK :: u32 where "LVT_DELIVERY_WRITE_MASK = 0x000107FF"
definition LVT_LINT_WRITE_MASK :: u32 where "LVT_LINT_WRITE_MASK = 0x0001A7FF"
definition LVT_ERROR_WRITE_MASK :: u32 where "LVT_ERROR_WRITE_MASK = 0x000100FF"
definition SVR_WRITE_MASK :: u32 where "SVR_WRITE_MASK = 0x000003FF"
definition ICR_LOW_WRITE_MASK :: u32 where "ICR_LOW_WRITE_MASK = 0x000CCFFF"
definition ICR_HIGH_WRITE_MASK :: u32 where "ICR_HIGH_WRITE_MASK = 0xFF000000"
definition TIMER_DCR_WRITE_MASK :: u32 where "TIMER_DCR_WRITE_MASK = 0x0000000B"

lemmas lapic_offsets =
  LAPIC_ID_def LAPIC_VERSION_def LAPIC_TPR_def LAPIC_APR_def LAPIC_PPR_def LAPIC_EOI_def
  LAPIC_LDR_def LAPIC_DFR_def LAPIC_SVR_def LAPIC_ISR_BASE_def LAPIC_TMR_BASE_def
  LAPIC_IRR_BASE_def LAPIC_ESR_def LAPIC_LVT_CMCI_def LAPIC_ICR_LOW_def LAPIC_ICR_HIGH_def
  LAPIC_LVT_TIMER_def LAPIC_LVT_THERMAL_def LAPIC_LVT_PERF_def LAPIC_LVT_LINT0_def
  LAPIC_LVT_LINT1_def LAPIC_LVT_ERROR_def LAPIC_TIMER_INIT_def LAPIC_TIMER_CURRENT_def
  LAPIC_TIMER_DIVIDE_def LAPIC_SELF_IPI_def

lemmas lapic_masks =
  LVT_TIMER_WRITE_MASK_def LVT_DELIVERY_WRITE_MASK_def LVT_LINT_WRITE_MASK_def
  LVT_ERROR_WRITE_MASK_def SVR_WRITE_MASK_def ICR_LOW_WRITE_MASK_def ICR_HIGH_WRITE_MASK_def
  TIMER_DCR_WRITE_MASK_def

datatype TimerMode = OneShot | Periodic | TscDeadline

record LocalApic =
  la_id :: u8
  enabled :: bool
  tpr :: u32
  ldr :: u32
  dfr :: u32
  svr :: u32
  la_isr :: "u32 list"
  la_tmr :: "u32 list"
  la_irr :: "u32 list"
  esr :: u32
  icr :: u64
  lvt_timer :: u32
  lvt_thermal :: u32
  lvt_perf :: u32
  lvt_lint0 :: u32
  lvt_lint1 :: u32
  lvt_error :: u32
  lvt_cmci :: u32
  timer_initial :: u32
  timer_current :: u32
  timer_divide :: u32
  timer_divide_residual :: u32
  timer_mode :: TimerMode
  tsc_deadline :: u64
  pending_injection :: "u8 option"

definition lapic_new :: "u8 \<Rightarrow> LocalApic" where
  "lapic_new i = \<lparr>la_id = i, enabled = False, tpr = 0, ldr = 0, dfr = 0xFFFFFFFF, svr = 0xFF,
     la_isr = replicate 8 0, la_tmr = replicate 8 0, la_irr = replicate 8 0, esr = 0, icr = 0,
     lvt_timer = 0x00010000, lvt_thermal = 0x00010000, lvt_perf = 0x00010000,
     lvt_lint0 = 0x00010000, lvt_lint1 = 0x00010000, lvt_error = 0x00010000,
     lvt_cmci = 0x00010000, timer_initial = 0, timer_current = 0, timer_divide = 0,
     timer_divide_residual = 0, timer_mode = OneShot, tsc_deadline = 0, pending_injection = None\<rparr>"

section \<open>Bitmaps\<close>

definition highest_bit_in_register :: "u32 list \<Rightarrow> u8 option" where
  "highest_bit_in_register regs =
     (case List.find (\<lambda>i. regs ! i \<noteq> 0) (rev [0..<8]) of
        None \<Rightarrow> None
      | Some i \<Rightarrow> (case ilog2 (regs ! i) of
                    None \<Rightarrow> None
                  | Some b \<Rightarrow> Some (of_nat i * 32 + of_nat b)))"

text \<open>A vector's position in a bitmap, and the statements \<open>regs[v / 32] |= 1 << (v % 32)\<close> and
  \<open>regs[v / 32] &= !(1 << (v % 32))\<close>.\<close>

definition reg_idx :: "u8 \<Rightarrow> nat" where
  "reg_idx v = unat (v div 32)"

definition reg_bit :: "u8 \<Rightarrow> nat" where
  "reg_bit v = unat (v mod 32)"

definition reg_set :: "u8 \<Rightarrow> u32 list \<Rightarrow> u32 list" where
  "reg_set v regs = regs[reg_idx v := regs ! reg_idx v OR bitmask (reg_bit v)]"

definition reg_clear :: "u8 \<Rightarrow> u32 list \<Rightarrow> u32 list" where
  "reg_clear v regs = regs[reg_idx v := regs ! reg_idx v AND NOT (bitmask (reg_bit v))]"

section \<open>Priority\<close>

definition in_service_vector :: "LocalApic \<Rightarrow> u8 option" where
  "in_service_vector a = highest_bit_in_register (la_isr a)"

definition matches_logical :: "u8 \<Rightarrow> LocalApic \<Rightarrow> bool" where
  "matches_logical dest a =
     (let logical_id = ucast (drop_bit 24 (ldr a)) in
      if drop_bit 28 (dfr a) = 0xF then logical_id AND dest \<noteq> 0
      else logical_id AND 0xF0 = dest AND 0xF0 \<and> logical_id AND dest AND 0x0F \<noteq> 0)"

definition get_tpr :: "LocalApic \<Rightarrow> u8" where
  "get_tpr a = ucast (tpr a AND 0xFF)"

definition set_tpr :: "u8 \<Rightarrow> LocalApic \<Rightarrow> LocalApic" where
  "set_tpr value a = a\<lparr>tpr := ucast value\<rparr>"

definition compute_apr :: "LocalApic \<Rightarrow> u32" where
  "compute_apr a =
     (let isr_prio = (case highest_bit_in_register (la_isr a) of
                        None \<Rightarrow> 0 | Some v \<Rightarrow> ucast (drop_bit 4 v));
          tpr_prio = drop_bit 4 (tpr a)
      in if tpr_prio \<ge> isr_prio then tpr a else push_bit 4 isr_prio OR (isr_prio AND 0xF))"

definition compute_ppr :: "LocalApic \<Rightarrow> u32" where
  "compute_ppr a =
     (let isrv = ucast (case highest_bit_in_register (la_isr a) of None \<Rightarrow> 0 | Some v \<Rightarrow> v) in
      if drop_bit 4 (tpr a) \<ge> drop_bit 4 isrv then tpr a else isrv AND 0xF0)"

definition pending_interrupt :: "LocalApic \<Rightarrow> u8 option" where
  "pending_interrupt a =
     (if \<not> enabled a then None
      else case highest_bit_in_register (la_irr a) of
        None \<Rightarrow> None
      | Some pending_vec \<Rightarrow>
          let servicing_vec = (case highest_bit_in_register (la_isr a) of None \<Rightarrow> 0 | Some v \<Rightarrow> v);
              ppr = ucast (compute_ppr a) :: u8
          in if drop_bit 4 pending_vec > drop_bit 4 ppr \<and>
                drop_bit 4 pending_vec > drop_bit 4 servicing_vec
             then Some pending_vec else None)"

definition start_servicing :: "u8 \<Rightarrow> LocalApic \<Rightarrow> LocalApic" where
  "start_servicing v a = a\<lparr>la_irr := reg_clear v (la_irr a), la_isr := reg_set v (la_isr a)\<rparr>"

definition accept_highest_interrupt :: "LocalApic \<Rightarrow> u8 option \<times> LocalApic" where
  "accept_highest_interrupt a =
     (case pending_interrupt a of
        None \<Rightarrow> (None, a)
      | Some v \<Rightarrow> (Some v, start_servicing v a))"

definition take_pending_injection :: "LocalApic \<Rightarrow> u8 option \<times> LocalApic" where
  "take_pending_injection a = (pending_injection a, a\<lparr>pending_injection := None\<rparr>)"

definition handle_eoi :: "LocalApic \<Rightarrow> LocalApic" where
  "handle_eoi a =
     (case highest_bit_in_register (la_isr a) of
        None \<Rightarrow> a
      | Some v \<Rightarrow> a\<lparr>la_isr := reg_clear v (la_isr a)\<rparr>)"

definition accept_interrupt :: "InterruptEntry \<Rightarrow> LocalApic \<Rightarrow> bool \<times> LocalApic" where
  "accept_interrupt entry a =
     (if \<not> enabled a then (False, a)
      else let v = ie_vector entry in
        if v < 16 then (False, a)
        else (True,
              a\<lparr>la_irr := reg_set v (la_irr a),
                la_tmr := (if ie_trigger_mode entry = Level then reg_set v (la_tmr a)
                           else reg_clear v (la_tmr a))\<rparr>))"

definition edge_entry :: "u8 \<Rightarrow> InterruptEntry" where
  "edge_entry v = \<lparr>ie_vector = v, ie_delivery_mode = Fixed, ie_trigger_mode = Edge, ie_level = True\<rparr>"

definition accept_interrupt_vector :: "u8 \<Rightarrow> LocalApic \<Rightarrow> bool \<times> LocalApic" where
  "accept_interrupt_vector v a = accept_interrupt (edge_entry v) a"

section \<open>Register access\<close>

text \<open>The index \<open>(off - base) / 0x10\<close> into a bitmap, with the bounds test of the source.\<close>

definition bitmap_read :: "u32 \<Rightarrow> u32 \<Rightarrow> u32 list \<Rightarrow> u32" where
  "bitmap_read base off regs =
     (let idx = unat ((off - base) div 0x10) in if idx < 8 then regs ! idx else 0)"

definition lapic_read_register :: "u32 \<Rightarrow> LocalApic \<Rightarrow> u32" where
  "lapic_read_register off a =
     (if off = LAPIC_ID then push_bit 24 (ucast (la_id a))
      else if off = LAPIC_VERSION then 0x14 OR push_bit 16 6
      else if off = LAPIC_TPR then tpr a
      else if off = LAPIC_APR then compute_apr a
      else if off = LAPIC_PPR then compute_ppr a
      else if off = LAPIC_LDR then ldr a
      else if off = LAPIC_DFR then dfr a
      else if off = LAPIC_SVR then svr a
      else if LAPIC_ISR_BASE \<le> off \<and> off < LAPIC_ISR_BASE + 0x80
      then bitmap_read LAPIC_ISR_BASE off (la_isr a)
      else if LAPIC_TMR_BASE \<le> off \<and> off < LAPIC_TMR_BASE + 0x80
      then bitmap_read LAPIC_TMR_BASE off (la_tmr a)
      else if LAPIC_IRR_BASE \<le> off \<and> off < LAPIC_IRR_BASE + 0x80
      then bitmap_read LAPIC_IRR_BASE off (la_irr a)
      else if off = LAPIC_ESR then esr a
      else if off = LAPIC_ICR_LOW then ucast (icr a)
      else if off = LAPIC_ICR_HIGH then ucast (drop_bit 32 (icr a))
      else if off = LAPIC_LVT_TIMER then lvt_timer a
      else if off = LAPIC_LVT_THERMAL then lvt_thermal a
      else if off = LAPIC_LVT_PERF then lvt_perf a
      else if off = LAPIC_LVT_LINT0 then lvt_lint0 a
      else if off = LAPIC_LVT_LINT1 then lvt_lint1 a
      else if off = LAPIC_LVT_ERROR then lvt_error a
      else if off = LAPIC_LVT_CMCI then lvt_cmci a
      else if off = LAPIC_TIMER_INIT then timer_initial a
      else if off = LAPIC_TIMER_CURRENT
      then (if timer_mode a = TscDeadline then 0 else timer_current a)
      else if off = LAPIC_TIMER_DIVIDE then timer_divide a
      else 0)"

definition write_lvt_timer :: "u32 \<Rightarrow> LocalApic \<Rightarrow> LocalApic" where
  "write_lvt_timer value a =
     (let field = drop_bit 17 value AND 0x3;
          new_mode = (if field = 1 then Periodic else if field = 2 then TscDeadline else OneShot);
          a1 = a\<lparr>lvt_timer := value AND LVT_TIMER_WRITE_MASK\<rparr>;
          a2 = (if new_mode \<noteq> timer_mode a1 then a1\<lparr>tsc_deadline := 0\<rparr> else a1)
      in a2\<lparr>timer_mode := new_mode\<rparr>)"

definition lapic_write_register :: "u32 \<Rightarrow> u32 \<Rightarrow> LocalApic \<Rightarrow> LocalApic" where
  "lapic_write_register off value a =
     (if off = LAPIC_ID then a\<lparr>la_id := ucast (drop_bit 24 value)\<rparr>
      else if off = LAPIC_TPR then a\<lparr>tpr := value AND 0xFF\<rparr>
      else if off = LAPIC_LDR then a\<lparr>ldr := value AND 0xFF000000\<rparr>
      else if off = LAPIC_DFR then a\<lparr>dfr := value OR 0x0FFFFFFF\<rparr>
      else if off = LAPIC_SVR
      then a\<lparr>svr := value AND SVR_WRITE_MASK, enabled := (value AND 0x100 \<noteq> 0)\<rparr>
      else if off = LAPIC_EOI then handle_eoi a
      else if off = LAPIC_ESR then a\<lparr>esr := 0\<rparr>
      else if off = LAPIC_ICR_LOW
      then a\<lparr>icr := (icr a AND 0xFFFFFFFF00000000) OR ucast (value AND ICR_LOW_WRITE_MASK)\<rparr>
      else if off = LAPIC_ICR_HIGH
      then a\<lparr>icr := (icr a AND 0x00000000FFFFFFFF) OR push_bit 32 (ucast (value AND ICR_HIGH_WRITE_MASK))\<rparr>
      else if off = LAPIC_LVT_TIMER then write_lvt_timer value a
      else if off = LAPIC_LVT_THERMAL then a\<lparr>lvt_thermal := value AND LVT_DELIVERY_WRITE_MASK\<rparr>
      else if off = LAPIC_LVT_PERF then a\<lparr>lvt_perf := value AND LVT_DELIVERY_WRITE_MASK\<rparr>
      else if off = LAPIC_LVT_LINT0 then a\<lparr>lvt_lint0 := value AND LVT_LINT_WRITE_MASK\<rparr>
      else if off = LAPIC_LVT_LINT1 then a\<lparr>lvt_lint1 := value AND LVT_LINT_WRITE_MASK\<rparr>
      else if off = LAPIC_LVT_ERROR then a\<lparr>lvt_error := value AND LVT_ERROR_WRITE_MASK\<rparr>
      else if off = LAPIC_LVT_CMCI then a\<lparr>lvt_cmci := value AND LVT_DELIVERY_WRITE_MASK\<rparr>
      else if off = LAPIC_TIMER_INIT
      then (if timer_mode a \<noteq> TscDeadline
            then a\<lparr>timer_initial := value, timer_current := value, timer_divide_residual := 0\<rparr>
            else a)
      else if off = LAPIC_TIMER_DIVIDE
      then a\<lparr>timer_divide := value AND TIMER_DCR_WRITE_MASK, timer_divide_residual := 0\<rparr>
      else if off = LAPIC_SELF_IPI then snd (accept_interrupt (edge_entry (ucast (value AND 0xFF))) a)
      else a)"

section \<open>Timers\<close>

definition timer_divisor :: "LocalApic \<Rightarrow> u32" where
  "timer_divisor a =
     (let b3 = drop_bit 3 (timer_divide a) AND 1;
          b1 = drop_bit 1 (timer_divide a) AND 1;
          b0 = timer_divide a AND 1;
          combined = push_bit 2 b3 OR push_bit 1 b1 OR b0
      in if combined = 7 then 1 else push_bit (unat (combined + 1)) 1)"

text \<open>The injection both timers perform on expiry: the LVT vector, unless masked.\<close>

definition fire_lvt_timer :: "LocalApic \<Rightarrow> LocalApic" where
  "fire_lvt_timer a =
     (if lvt_timer a AND 0x00010000 \<noteq> 0 then a
      else snd (accept_interrupt (edge_entry (ucast (lvt_timer a AND 0xFF))) a))"

definition timer_tick :: "u32 \<Rightarrow> LocalApic \<Rightarrow> bool \<times> LocalApic" where
  "timer_tick input a =
     (if timer_initial a = 0 \<or> timer_mode a = TscDeadline then (False, a)
      else
        let divisor = timer_divisor a;
            total = saturating_add (timer_divide_residual a) input;
            ticks = total div divisor;
            a1 = a\<lparr>timer_divide_residual := total mod divisor\<rparr>
        in if ticks = 0 then (False, a1)
           else if timer_current a1 \<le> ticks then
             let a2 = fire_lvt_timer a1 in
             if timer_mode a2 = Periodic then
               let beyond = ticks - timer_current a2;
                   into_period = beyond mod timer_initial a2
               in (True, a2\<lparr>timer_current := timer_initial a2 - into_period\<rparr>)
             else (True, a2\<lparr>timer_current := 0\<rparr>)
           else (False, a1\<lparr>timer_current := timer_current a1 - ticks\<rparr>))"

definition timer_interrupt_pending :: "LocalApic \<Rightarrow> bool" where
  "timer_interrupt_pending a \<longleftrightarrow> lvt_timer a AND 0x00010000 = 0"

definition set_tsc_deadline :: "u64 \<Rightarrow> LocalApic \<Rightarrow> LocalApic" where
  "set_tsc_deadline v a = a\<lparr>tsc_deadline := v\<rparr>"

definition read_tsc_deadline_msr :: "LocalApic \<Rightarrow> u64" where
  "read_tsc_deadline_msr a = (if timer_mode a = TscDeadline then tsc_deadline a else 0)"

definition write_tsc_deadline_msr :: "u64 \<Rightarrow> LocalApic \<Rightarrow> LocalApic" where
  "write_tsc_deadline_msr v a = (if timer_mode a = TscDeadline then a\<lparr>tsc_deadline := v\<rparr> else a)"

definition check_tsc_deadline :: "u64 \<Rightarrow> LocalApic \<Rightarrow> bool \<times> LocalApic" where
  "check_tsc_deadline now a =
     (if timer_mode a \<noteq> TscDeadline \<or> tsc_deadline a = 0 then (False, a)
      else if now < tsc_deadline a then (False, a)
      else (True, fire_lvt_timer (a\<lparr>tsc_deadline := 0\<rparr>)))"

definition lapic_wf :: "LocalApic \<Rightarrow> bool" where
  "lapic_wf a \<longleftrightarrow> length (la_isr a) = 8 \<and> length (la_tmr a) = 8 \<and> length (la_irr a) = 8 \<and>
     tpr a < 256"

section \<open>The bitmaps as sets of vectors\<close>

definition vec_in :: "u32 list \<Rightarrow> u8 \<Rightarrow> bool" where
  "vec_in regs v \<longleftrightarrow> bit (regs ! reg_idx v) (reg_bit v)"

lemma unat_vec: "unat v = 32 * reg_idx v + reg_bit v"
  by (simp add: reg_idx_def reg_bit_def unat_div unat_mod)

lemma reg_bounds [simp]: "reg_idx v < 8" "reg_bit v < 32"
  using unsigned_less [of v, where 'a = nat] by (simp_all add: reg_idx_def reg_bit_def unat_div unat_mod)

lemma vec_eqI: "reg_idx v = reg_idx w \<Longrightarrow> reg_bit v = reg_bit w \<Longrightarrow> v = w"
  by (simp add: word_unat_eq_iff unat_vec)

text \<open>The vector at a given position.\<close>

lemma reg_of_pos:
  assumes "i < 8" "b < 32"
  shows "reg_idx (of_nat i * 32 + of_nat b) = i" "reg_bit (of_nat i * 32 + of_nat b) = b"
proof -
  have "unat (of_nat (32 * i + b) :: u8) = 32 * i + b"
    unfolding unat_of_nat using assms by simp
  then have "unat (of_nat i * 32 + of_nat b :: u8) = 32 * i + b"
    by (simp add: mult.commute)
  then show "reg_idx (of_nat i * 32 + of_nat b) = i" "reg_bit (of_nat i * 32 + of_nat b) = b"
    using assms by (simp_all add: reg_idx_def reg_bit_def unat_div unat_mod)
qed

lemma vec_le_iff:
  "v \<le> w \<longleftrightarrow> reg_idx v < reg_idx w \<or> reg_idx v = reg_idx w \<and> reg_bit v \<le> reg_bit w"
  using reg_bounds(2) [of v] reg_bounds(2) [of w]
  unfolding word_le_nat_alt unat_vec [of v] unat_vec [of w] by linarith

lemma length_reg [simp]: "length (reg_set v regs) = length regs" "length (reg_clear v regs) = length regs"
  by (simp_all add: reg_set_def reg_clear_def)

lemma vec_in_reg_set [simp]:
  "length regs = 8 \<Longrightarrow> vec_in (reg_set v regs) w \<longleftrightarrow> w = v \<or> vec_in regs w"
  by (cases "reg_idx v = reg_idx w"; cases "reg_bit v = reg_bit w")
     (auto simp: vec_in_def reg_set_def dest: vec_eqI)

lemma vec_in_reg_clear [simp]:
  "length regs = 8 \<Longrightarrow> vec_in (reg_clear v regs) w \<longleftrightarrow> w \<noteq> v \<and> vec_in regs w"
  by (cases "reg_idx v = reg_idx w"; cases "reg_bit v = reg_bit w")
     (auto simp: vec_in_def reg_clear_def dest: vec_eqI)

lemma regs_eqI:
  assumes "length r = 8" "length s = 8" "\<And>v. vec_in r v = vec_in s v"
  shows "r = s"
proof (rule nth_equalityI)
  fix i assume i: "i < length r"
  show "r ! i = s ! i"
  proof (rule bit_word_eqI)
    fix n assume n: "n < LENGTH(32)"
    then show "bit (r ! i) n = bit (s ! i) n"
      using assms(3) [of "of_nat i * 32 + of_nat n"] i assms(1)
      by (simp only: vec_in_def reg_of_pos) (simp add: reg_of_pos)
  qed
qed (simp add: assms)

lemma highest_bit_Some:
  assumes "highest_bit_in_register regs = Some v"
  shows "vec_in regs v" and "vec_in regs w \<Longrightarrow> w \<le> v"
proof -
  obtain i b where i: "i < 8" "\<And>j. i < j \<Longrightarrow> j < 8 \<Longrightarrow> regs ! j = 0"
    and b: "ilog2 (regs ! i) = Some b" and v: "v = of_nat i * 32 + of_nat b"
    using assms
    by (auto simp: highest_bit_in_register_def find_rev_upt_Some_iff split: option.splits)
  from b have b32: "b < 32" using bit_imp_le_length [of "regs ! i" b] by (simp add: ilog2_Some_iff)
  note pos = reg_of_pos [OF i(1) b32, folded v]
  show "vec_in regs v" using b by (simp add: vec_in_def ilog2_Some_iff pos)
  assume w: "vec_in regs w"
  then have "regs ! reg_idx w \<noteq> 0" by (auto simp: vec_in_def)
  then have "\<not> i < reg_idx w" using i(2) by force
  then show "w \<le> v"
    using w b by (auto simp: vec_le_iff pos vec_in_def ilog2_Some_iff not_less [symmetric] nat_neq_iff)
qed

lemma highest_bit_None: "highest_bit_in_register regs = None \<longleftrightarrow> (\<forall>v. \<not> vec_in regs v)"
proof
  assume "highest_bit_in_register regs = None"
  then have "\<forall>i < 8. regs ! i = 0"
    by (auto simp: highest_bit_in_register_def find_None_iff ilog2_None_iff find_rev_upt_Some_iff
        split: option.splits)
  then show "\<forall>v. \<not> vec_in regs v" by (simp add: vec_in_def)
next
  assume "\<forall>v. \<not> vec_in regs v"
  then show "highest_bit_in_register regs = None"
    using highest_bit_Some(1) by (cases "highest_bit_in_register regs") auto
qed

lemma highest_bit_Some_iff:
  "highest_bit_in_register regs = Some v \<longleftrightarrow> vec_in regs v \<and> (\<forall>w. vec_in regs w \<longrightarrow> w \<le> v)"
proof
  assume r: "vec_in regs v \<and> (\<forall>w. vec_in regs w \<longrightarrow> w \<le> v)"
  then obtain u where u: "highest_bit_in_register regs = Some u"
    using highest_bit_None [of regs] by (cases "highest_bit_in_register regs") auto
  with r highest_bit_Some [OF u] show "highest_bit_in_register regs = Some v" by force
qed (auto dest: highest_bit_Some)

section \<open>Arbitration\<close>

lemma unat_class: "5 \<le> LENGTH('a) \<Longrightarrow> unat (drop_bit 4 v) = unat v div 16" for v :: "'a::len word"
proof -
  assume "5 \<le> LENGTH('a)"
  then have "unat (16 :: 'a word) = 16"
    using unat_of_nat [of 16, where 'a = 'a] self_le_power [of 2 "LENGTH('a)"]
      power_increasing [of 5 "LENGTH('a)" "2 :: nat"] by simp
  then show ?thesis by (simp add: drop_bit_eq_div unat_div)
qed

lemma class_mono: "v \<le> w \<Longrightarrow> drop_bit 4 v \<le> drop_bit 4 w" for v w :: u8
  by (simp add: word_le_nat_alt unat_class div_le_mono)

lemma class_less: "drop_bit 4 v < drop_bit 4 w \<Longrightarrow> v < w" for v w :: u8
  using class_mono [of w v] by (meson not_le)

lemma tpr_ucast: "tpr a < 256 \<Longrightarrow> tpr a = ucast (get_tpr a)"
proof -
  assume "tpr a < 256"
  then have "unat (tpr a) < 2 ^ 8" by (simp add: word_less_nat_alt)
  then have "bit (tpr a) n \<Longrightarrow> n < 8" for n using bit_index_less by blast
  then show ?thesis
    by (intro bit_word_eqI) (auto simp: get_tpr_def and_low_ones bit_ucast_iff bit_take_bit_iff)
qed

lemma class_widen: "drop_bit 4 (ucast v :: u32) \<le> drop_bit 4 (ucast w) \<longleftrightarrow> drop_bit 4 v \<le> drop_bit 4 w"
  for v w :: u8
  by (simp add: word_le_nat_alt unat_class unat_ucast_up)

lemma class_ppr_low: "drop_bit 4 (ucast (ucast v AND 0xF0 :: u32) :: u8) = drop_bit 4 v" for v :: u8
  by (rule word_eq_by_bits)
     (simp add: bit_drop_bit_eq bit_ucast_iff bit_and_iff bit_beyond upt_widths)

text \<open>The processor priority class is the larger of the task class and the in-service class.\<close>

lemma class_ppr:
  assumes "tpr a < 256" "i = (case highest_bit_in_register (la_isr a) of None \<Rightarrow> 0 | Some v \<Rightarrow> v)"
  shows "drop_bit 4 (ucast (compute_ppr a) :: u8) = max (drop_bit 4 (get_tpr a)) (drop_bit 4 i)"
proof -
  have "drop_bit 4 (ucast i :: u32) \<le> drop_bit 4 (tpr a) \<longleftrightarrow> drop_bit 4 i \<le> drop_bit 4 (get_tpr a)"
    using tpr_ucast [OF assms(1)] class_widen by metis
  moreover have "(ucast (tpr a) :: u8) = get_tpr a"
    by (subst tpr_ucast [OF assms(1)]) (simp add: ucast_ucast_up)
  ultimately show ?thesis
    by (simp add: compute_ppr_def Let_def assms(2) [symmetric] class_ppr_low max_def)
qed

lemma class_isr:
  assumes "i = (case highest_bit_in_register (la_isr a) of None \<Rightarrow> 0 | Some v \<Rightarrow> v)" "c > 0"
  shows "drop_bit 4 i < c \<longleftrightarrow> (\<forall>w. vec_in (la_isr a) w \<longrightarrow> drop_bit 4 w < c)"
proof (cases "highest_bit_in_register (la_isr a)")
  case None
  with assms show ?thesis by (simp add: highest_bit_None)
next
  case (Some v)
  with assms(1) highest_bit_Some [OF Some] show ?thesis
    by (auto intro: le_less_trans [OF class_mono])
qed

lemma pending_interrupt_iff:
  assumes "tpr a < 256"
  shows "pending_interrupt a = Some v \<longleftrightarrow>
    enabled a \<and> vec_in (la_irr a) v \<and> (\<forall>w. vec_in (la_irr a) w \<longrightarrow> w \<le> v) \<and>
    drop_bit 4 (get_tpr a) < drop_bit 4 v \<and>
    (\<forall>w. vec_in (la_isr a) w \<longrightarrow> drop_bit 4 w < drop_bit 4 v)"
proof -
  define i where "i = (case highest_bit_in_register (la_isr a) of None \<Rightarrow> 0 | Some v \<Rightarrow> v)"
  have "pending_interrupt a = Some v \<longleftrightarrow> enabled a \<and> highest_bit_in_register (la_irr a) = Some v \<and>
      max (drop_bit 4 (get_tpr a)) (drop_bit 4 i) < drop_bit 4 v \<and> drop_bit 4 i < drop_bit 4 v"
    using class_ppr [OF assms i_def]
    by (auto simp: pending_interrupt_def Let_def i_def [symmetric] split: option.splits)
  also have "\<dots> \<longleftrightarrow> enabled a \<and> highest_bit_in_register (la_irr a) = Some v \<and>
      drop_bit 4 (get_tpr a) < drop_bit 4 v \<and> (\<forall>w. vec_in (la_isr a) w \<longrightarrow> drop_bit 4 w < drop_bit 4 v)"
    using class_isr [OF i_def, of "drop_bit 4 v"] by (cases "drop_bit 4 v = 0") (auto simp: word_greater_zero_iff)
  finally show ?thesis by (simp add: highest_bit_Some_iff)
qed

section \<open>Service\<close>

lemma pending_above:
  "tpr a < 256 \<Longrightarrow> pending_interrupt a = Some v \<Longrightarrow> vec_in (la_isr a) w \<Longrightarrow> w < v"
  using class_less by (simp add: pending_interrupt_iff)

lemma accept_then_eoi:
  assumes wf: "lapic_wf a" and ack: "accept_highest_interrupt a = (Some v, b)"
  shows "lapic_wf b" "la_isr (handle_eoi b) = la_isr a"
proof -
  have t: "tpr a < 256" and len: "length (la_isr a) = 8" using wf by (simp_all add: lapic_wf_def)
  from ack have pend: "pending_interrupt a = Some v" and b: "b = start_servicing v a"
    by (auto simp: accept_highest_interrupt_def split: option.splits)
  show "lapic_wf b" using wf by (simp add: b start_servicing_def lapic_wf_def)
  note above = pending_above [OF t pend]
  have "highest_bit_in_register (la_isr b) = Some v"
    using above by (auto simp: highest_bit_Some_iff b start_servicing_def len less_imp_le)
  then have "la_isr (handle_eoi b) = reg_clear v (reg_set v (la_isr a))"
    by (simp add: handle_eoi_def b start_servicing_def)
  also have "\<dots> = la_isr a"
    using above [of v] by (intro regs_eqI) (auto simp: len)
  finally show "la_isr (handle_eoi b) = la_isr a" .
qed

text \<open>What can happen to a local APIC other than an acknowledge cycle.\<close>

datatype LapicEvent =
    Arrive InterruptEntry
  | RegWrite u32 u32
  | TaskPriority u8
  | BusTicks u32
  | TscReaches u64
  | DeadlineMsr u64

fun lapic_event :: "LapicEvent \<Rightarrow> LocalApic \<Rightarrow> LocalApic" where
  "lapic_event (Arrive e) a = snd (accept_interrupt e a)"
| "lapic_event (RegWrite off v) a = lapic_write_register off v a"
| "lapic_event (TaskPriority v) a = set_tpr v a"
| "lapic_event (BusTicks n) a = snd (timer_tick n a)"
| "lapic_event (TscReaches t) a = snd (check_tsc_deadline t a)"
| "lapic_event (DeadlineMsr v) a = write_tsc_deadline_msr v a"

fun is_eoi :: "LapicEvent \<Rightarrow> bool" where
  "is_eoi (RegWrite off v) = (off = LAPIC_EOI)"
| "is_eoi _ = False"

text \<open>A burst of events in which the guest does not signal EOI.\<close>

definition activity :: "LapicEvent list \<Rightarrow> LocalApic \<Rightarrow> LocalApic" where
  "activity es a = fold lapic_event (filter (\<lambda>e. \<not> is_eoi e) es) a"

lemma accept_interrupt_frame [simp]:
  "la_isr (snd (accept_interrupt e a)) = la_isr a" "tpr (snd (accept_interrupt e a)) = tpr a"
  "la_id (snd (accept_interrupt e a)) = la_id a" "enabled (snd (accept_interrupt e a)) = enabled a"
  "length (la_irr (snd (accept_interrupt e a))) = length (la_irr a)"
  "length (la_tmr (snd (accept_interrupt e a))) = length (la_tmr a)"
  "timer_mode (snd (accept_interrupt e a)) = timer_mode a"
  "timer_initial (snd (accept_interrupt e a)) = timer_initial a"
  "timer_current (snd (accept_interrupt e a)) = timer_current a"
  by (simp_all add: accept_interrupt_def Let_def)

lemma fire_lvt_timer_frame [simp]:
  "la_isr (fire_lvt_timer a) = la_isr a" "tpr (fire_lvt_timer a) = tpr a"
  "length (la_irr (fire_lvt_timer a)) = length (la_irr a)"
  "length (la_tmr (fire_lvt_timer a)) = length (la_tmr a)"
  "timer_mode (fire_lvt_timer a) = timer_mode a"
  "timer_initial (fire_lvt_timer a) = timer_initial a"
  "timer_current (fire_lvt_timer a) = timer_current a"
  by (simp_all add: fire_lvt_timer_def)

lemma timer_tick_frame [simp]:
  "la_isr (snd (timer_tick n a)) = la_isr a" "tpr (snd (timer_tick n a)) = tpr a"
  "length (la_irr (snd (timer_tick n a))) = length (la_irr a)"
  "length (la_tmr (snd (timer_tick n a))) = length (la_tmr a)"
  by (simp_all add: timer_tick_def Let_def)

lemma check_tsc_deadline_frame [simp]:
  "la_isr (snd (check_tsc_deadline n a)) = la_isr a" "tpr (snd (check_tsc_deadline n a)) = tpr a"
  "length (la_irr (snd (check_tsc_deadline n a))) = length (la_irr a)"
  "length (la_tmr (snd (check_tsc_deadline n a))) = length (la_tmr a)"
  by (simp_all add: check_tsc_deadline_def)

lemma write_lvt_timer_frame [simp]:
  "la_isr (write_lvt_timer v a) = la_isr a" "tpr (write_lvt_timer v a) = tpr a"
  "la_irr (write_lvt_timer v a) = la_irr a" "la_tmr (write_lvt_timer v a) = la_tmr a"
  by (simp_all add: write_lvt_timer_def Let_def)

lemma write_register_isr:
  "off \<noteq> LAPIC_EOI \<Longrightarrow> la_isr (lapic_write_register off v a) = la_isr a"
  by (simp add: lapic_write_register_def)

lemma handle_eoi_wf: "lapic_wf a \<Longrightarrow> lapic_wf (handle_eoi a)"
  by (simp add: handle_eoi_def lapic_wf_def split: option.split)

lemma and_FF_less: "v AND 0xFF < 256" for v :: u32
  by (rule le_less_trans [OF word_and_le1]) simp

lemma write_register_wf: "lapic_wf a \<Longrightarrow> lapic_wf (lapic_write_register off v a)"
  using handle_eoi_wf [of a] and_FF_less [of v]
  by (simp add: lapic_write_register_def lapic_wf_def)

lemma ucast_byte_less: "(ucast v :: u32) < 256" for v :: u8
  using unsigned_less [of v, where 'a = nat] by (simp add: word_less_nat_alt unat_ucast_up)

lemma lapic_event_wf: "lapic_wf a \<Longrightarrow> lapic_wf (lapic_event e a)"
  using write_register_wf [of a] ucast_byte_less
  by (cases e) (simp_all add: lapic_wf_def set_tpr_def write_tsc_deadline_msr_def)

lemma lapic_event_isr: "\<not> is_eoi e \<Longrightarrow> la_isr (lapic_event e a) = la_isr a"
  by (cases e) (simp_all add: write_register_isr set_tpr_def write_tsc_deadline_msr_def)

lemma activity_frame: "la_isr (activity es a) = la_isr a" "lapic_wf a \<Longrightarrow> lapic_wf (activity es a)"
  by (induction es arbitrary: a) (simp_all add: activity_def lapic_event_isr lapic_event_wf)

lemma lapic_new_wf: "lapic_wf (lapic_new i)"
  by (simp add: lapic_wf_def lapic_new_def)

interpretation lapicn: interrupt_nesting lapic_wf la_isr accept_highest_interrupt handle_eoi activity
proof
  fix a b :: LocalApic and v
  assume "lapic_wf a" "accept_highest_interrupt a = (Some v, b)"
  from accept_then_eoi [OF this] show "lapic_wf b" "la_isr (handle_eoi b) = la_isr a"
    by simp_all
next
  fix a b :: LocalApic
  assume "la_isr a = la_isr b"
  then show "la_isr (handle_eoi a) = la_isr (handle_eoi b)"
    by (simp add: handle_eoi_def split: option.split)
qed (auto simp: activity_frame accept_highest_interrupt_def split: option.splits)

section \<open>Correctness of interrupt service\<close>

text \<open>C27 (functional).  The arbitration of the local APIC: it announces vector \<open>v\<close> exactly when
  it is enabled, \<open>v\<close> is the highest requested vector, and the priority class of \<open>v\<close> is above
  the task priority class and above the class of every vector in service.\<close>

theorem lapic_pending_spec:
  assumes "lapic_wf a"
  shows "pending_interrupt a = Some v \<longleftrightarrow>
    enabled a \<and> vec_in (la_irr a) v \<and> (\<forall>w. vec_in (la_irr a) w \<longrightarrow> w \<le> v) \<and>
    drop_bit 4 (get_tpr a) < drop_bit 4 v \<and>
    (\<forall>w. vec_in (la_isr a) w \<longrightarrow> drop_bit 4 w < drop_bit 4 v)"
  using assms by (intro pending_interrupt_iff) (simp add: lapic_wf_def)

theorem lapic_pending_spec_witness:
  "let a = activity [RegWrite LAPIC_SVR 0x1FF, TaskPriority 0x20, Arrive (edge_entry 0x31),
                     Arrive (edge_entry 0x45)] (lapic_new 0)
   in lapic_wf a \<and> pending_interrupt a = Some 0x45 \<and> vec_in (la_irr a) 0x45 \<and>
      drop_bit 4 (get_tpr a) < drop_bit 4 0x45"
proof -
  let ?a = "activity [RegWrite LAPIC_SVR 0x1FF, TaskPriority 0x20, Arrive (edge_entry 0x31),
                     Arrive (edge_entry 0x45)] (lapic_new 0)"
  have wf: "lapic_wf ?a" by (intro activity_frame lapic_new_wf)
  have p: "pending_interrupt ?a = Some 0x45" by code_simp
  from lapic_pending_spec [OF wf, of "0x45"] p wf show ?thesis by (simp only: Let_def simp_thms)
qed

text \<open>C13 (invariant).  Interrupt service nests like a stack: whatever arrives, ticks or is
  written to the registers between acknowledge cycles (EOI apart), as many EOIs as there were
  acknowledged interrupts restore the in-service register.\<close>

theorem lapic_nesting_restores_isr:
  assumes "lapic_wf a" "nested accept_highest_interrupt activity es a = (vs, b)"
  shows "la_isr ((handle_eoi ^^ length vs) b) = la_isr a"
  using assms by (rule lapicn.nested_restores)

theorem lapic_nesting_restores_isr_witness:
  "let a = lapic_write_register LAPIC_SVR 0x1FF (lapic_new 0);
       r = nested accept_highest_interrupt activity
             [[Arrive (edge_entry 0x31)], [Arrive (edge_entry 0x30)], [Arrive (edge_entry 0x52)]] a
   in fst r = [0x31, 0x52] \<and> la_isr ((handle_eoi ^^ 2) (snd r)) = replicate 8 0"
proof -
  let ?a = "lapic_write_register LAPIC_SVR 0x1FF (lapic_new 0)"
  let ?r = "nested accept_highest_interrupt activity
     [[Arrive (edge_entry 0x31)], [Arrive (edge_entry 0x30)], [Arrive (edge_entry 0x52)]] ?a"
  have vs: "fst ?r = [0x31, 0x52]" by code_simp
  have "la_isr ((handle_eoi ^^ length (fst ?r)) (snd ?r)) = la_isr ?a"
    by (rule lapic_nesting_restores_isr [OF write_register_wf [OF lapic_new_wf] prod.collapse [symmetric]])
  moreover have "la_isr ?a = replicate 8 0" by code_simp
  moreover have "length (fst ?r) = 2" by (subst vs) simp
  ultimately show ?thesis using vs by (simp only: Let_def simp_thms)
qed

section \<open>The bus-clock timer\<close>

lemma and_1_cases: "w AND 1 = 0 \<or> w AND 1 = 1" for w :: "'a::len word"
  by (simp add: and_one_eq mod2_eq_if)

lemma timer_divisor_cases: "timer_divisor a \<in> {1, 2, 4, 8, 16, 32, 64, 128}"
  using and_1_cases [of "drop_bit 3 (timer_divide a)"] and_1_cases [of "drop_bit 1 (timer_divide a)"]
    and_1_cases [of "timer_divide a"]
  by (elim disjE) (simp_all add: timer_divisor_def Let_def)

lemma unat_timer_divisor_pos: "0 < unat (timer_divisor a)"
  using timer_divisor_cases [of a] by auto

text \<open>The counter after \<open>t\<close> divided ticks: periodic reload modulo the initial count, or a count down
  to zero.\<close>

definition next_count :: "TimerMode \<Rightarrow> nat \<Rightarrow> nat \<Rightarrow> nat \<Rightarrow> nat" where
  "next_count m n c t = (if m = Periodic then n - (n - c + t) mod n else c - t)"

text \<open>The invariant of a running timer: the residue is below the divisor and a periodic counter
  is between 1 and the initial count.\<close>

definition timer_ok :: "LocalApic \<Rightarrow> bool" where
  "timer_ok a \<longleftrightarrow> timer_initial a \<noteq> 0 \<and> timer_mode a \<noteq> TscDeadline \<and>
     timer_divide_residual a < timer_divisor a \<and>
     (timer_mode a = Periodic \<longrightarrow> timer_current a \<noteq> 0 \<and> timer_current a \<le> timer_initial a)"

definition divided_ticks :: "LocalApic \<Rightarrow> nat \<Rightarrow> nat" where
  "divided_ticks a n = (unat (timer_divide_residual a) + n) div unat (timer_divisor a)"

definition expires :: "LocalApic \<Rightarrow> nat \<Rightarrow> bool" where
  "expires a n \<longleftrightarrow> 0 < divided_ticks a n \<and> unat (timer_current a) \<le> divided_ticks a n"

definition count_down :: "nat \<Rightarrow> LocalApic \<Rightarrow> LocalApic" where
  "count_down n a =
     a\<lparr>timer_divide_residual := of_nat ((unat (timer_divide_residual a) + n) mod unat (timer_divisor a)),
       timer_current := of_nat (next_count (timer_mode a) (unat (timer_initial a))
                                  (unat (timer_current a)) (divided_ticks a n))\<rparr>"

lemma next_count_before:
  "t < c \<Longrightarrow> m = Periodic \<longrightarrow> c \<le> n \<Longrightarrow> next_count m n c t = c - t"
  by (auto simp: next_count_def)

lemma next_count_after:
  "c \<le> t \<Longrightarrow> m = Periodic \<longrightarrow> c \<le> n \<Longrightarrow>
   next_count m n c t = (if m = Periodic then n - (t - c) mod n else 0)"
proof -
  assume c: "c \<le> t" "m = Periodic \<longrightarrow> c \<le> n"
  then have "m = Periodic \<Longrightarrow> n - c + t = n + (t - c)" by simp
  then have "m = Periodic \<Longrightarrow> (n - c + t) mod n = (t - c) mod n" by (simp only: mod_add_self1)
  then show ?thesis using c by (simp add: next_count_def)
qed

lemma next_count_0: "m = Periodic \<longrightarrow> 0 < c \<and> c \<le> n \<Longrightarrow> next_count m n c 0 = c"
  by (auto simp: next_count_def)

lemma fire_commute:
  "(fire_lvt_timer a)\<lparr>timer_current := c\<rparr> = fire_lvt_timer (a\<lparr>timer_current := c\<rparr>)"
  by (simp add: fire_lvt_timer_def accept_interrupt_def Let_def)

text \<open>One call in closed form: whether it expires, and the counter it leaves.\<close>

lemma timer_tick_eq:
  assumes ok: "timer_ok a" and nosat: "unat (timer_divide_residual a) + unat n < 2 ^ 32"
  shows "timer_tick n a =
    (expires a (unat n),
     (if expires a (unat n) then fire_lvt_timer else id) (count_down (unat n) a))"
proof -
  define total where "total = saturating_add (timer_divide_residual a) n"
  define ticks where "ticks = total div timer_divisor a"
  have u: "unat total = unat (timer_divide_residual a) + unat n"
    using nosat by (simp add: total_def unat_saturating_add)
  have t: "unat ticks = divided_ticks a (unat n)"
    by (simp add: ticks_def unat_div u divided_ticks_def)
  have r: "of_nat ((unat (timer_divide_residual a) + unat n) mod unat (timer_divisor a)) = total mod timer_divisor a"
    by (simp only: u [symmetric] of_nat_unat_mod)
  have c: "timer_mode a = Periodic \<longrightarrow> 0 < unat (timer_current a) \<and> unat (timer_current a) \<le> unat (timer_initial a)"
    and m: "timer_mode a \<noteq> TscDeadline" and i: "timer_initial a \<noteq> 0"
    using ok by (auto simp: timer_ok_def word_le_nat_alt unat_gt_0)
  let ?a1 = "a\<lparr>timer_divide_residual := total mod timer_divisor a\<rparr>"
  have tick: "timer_tick n a =
    (if ticks = 0 then (False, ?a1)
     else if timer_current a \<le> ticks then
       (True, fire_lvt_timer (?a1\<lparr>timer_current :=
          (if timer_mode a = Periodic then timer_initial a - (ticks - timer_current a) mod timer_initial a else 0)\<rparr>))
     else (False, ?a1\<lparr>timer_current := timer_current a - ticks\<rparr>))"
    using m i by (simp add: timer_tick_def Let_def total_def [symmetric] ticks_def [symmetric] fire_commute)
  consider "ticks = 0" | "ticks \<noteq> 0" "timer_current a \<le> ticks" | "ticks \<noteq> 0" "ticks < timer_current a"
    by fastforce
  then show ?thesis
  proof cases
    case 1
    with t have "divided_ticks a (unat n) = 0" by simp
    with 1 c show ?thesis
      by (simp add: tick expires_def count_down_def r next_count_0)
  next
    case 2
    have le: "unat (timer_current a) \<le> divided_ticks a (unat n)" "0 < divided_ticks a (unat n)"
      using 2 by (simp_all add: word_le_nat_alt unat_gt_0 flip: t)
    let ?q = "(ticks - timer_current a) mod timer_initial a"
    have "?q \<le> timer_initial a"
      using i by (simp add: word_le_nat_alt unat_mod unat_gt_0 mod_le_divisor)
    moreover have "unat ?q = (divided_ticks a (unat n) - unat (timer_current a)) mod unat (timer_initial a)"
      using 2 by (simp add: unat_mod unat_diff t)
    ultimately have "of_nat (unat (timer_initial a) -
        (divided_ticks a (unat n) - unat (timer_current a)) mod unat (timer_initial a)) = timer_initial a - ?q"
      by (metis of_nat_unat_diff)
    with 2 le c show ?thesis
      by (simp add: tick expires_def count_down_def r next_count_after)
  next
    case 3
    have lt: "divided_ticks a (unat n) < unat (timer_current a)"
      using 3 t by (simp add: word_less_nat_alt)
    moreover have "of_nat (unat (timer_current a) - divided_ticks a (unat n)) = timer_current a - ticks"
      using 3 t by (metis less_imp_le of_nat_unat_diff)
    ultimately show ?thesis using 3 c
      by (simp add: tick expires_def count_down_def r next_count_before not_le)
  qed
qed

lemma divided_ticks_add:
  "unat (timer_divide_residual b) = (unat (timer_divide_residual a) + n) mod unat (timer_divisor a) \<Longrightarrow>
   timer_divisor b = timer_divisor a \<Longrightarrow>
   divided_ticks a (n + m) = divided_ticks a n + divided_ticks b m"
  using unat_timer_divisor_pos [of a]
    div_mult_self4 [of "unat (timer_divisor a)" "(unat (timer_divide_residual a) + n) div unat (timer_divisor a)"
      "(unat (timer_divide_residual a) + n) mod unat (timer_divisor a) + m"]
  by (simp add: divided_ticks_def add.assoc [symmetric] add.commute add.left_commute)

lemma next_count_le: "m = Periodic \<longrightarrow> c \<le> n \<Longrightarrow> next_count m n c t \<le> max n c"
  by (auto simp: next_count_def le_max_iff_disj)

lemma next_count_pos: "0 < n \<Longrightarrow> 0 < next_count Periodic n c t"
  by (simp add: next_count_def)

lemma next_count_add:
  assumes "m = Periodic \<longrightarrow> 0 < c \<and> c \<le> n"
  shows "next_count m n (next_count m n c s) t = next_count m n c (s + t)"
proof (cases "m = Periodic")
  case True
  then have n: "0 < n" using assms by linarith
  have "(n - (n - (n - c + s) mod n) + t) mod n = ((n - c + s) mod n + t) mod n"
    using mod_le_divisor [OF n, of "n - c + s"] by simp
  also have "\<dots> = (n - c + (s + t)) mod n" by (simp add: mod_add_left_eq add.assoc)
  finally show ?thesis using True by (simp add: next_count_def)
qed (simp add: next_count_def)

lemma count_down_fields:
  assumes "timer_ok a"
  shows "unat (timer_divide_residual (count_down n a)) =
      (unat (timer_divide_residual a) + n) mod unat (timer_divisor a)"
    and "unat (timer_current (count_down n a)) =
      next_count (timer_mode a) (unat (timer_initial a)) (unat (timer_current a)) (divided_ticks a n)"
    and "timer_divisor (count_down n a) = timer_divisor a"
proof -
  have "(unat (timer_divide_residual a) + n) mod unat (timer_divisor a) < unat (timer_divisor a)"
    by (simp add: unat_timer_divisor_pos)
  also have "\<dots> < 2 ^ 32" using unsigned_less [of "timer_divisor a", where 'a = nat] by simp
  finally show "unat (timer_divide_residual (count_down n a)) =
      (unat (timer_divide_residual a) + n) mod unat (timer_divisor a)"
    by (simp add: count_down_def unat_of_nat)
  have "next_count (timer_mode a) (unat (timer_initial a)) (unat (timer_current a)) (divided_ticks a n)
      \<le> max (unat (timer_initial a)) (unat (timer_current a))"
    using assms by (intro next_count_le) (auto simp: timer_ok_def word_le_nat_alt)
  also have "\<dots> < 2 ^ 32"
    using unsigned_less [of "timer_initial a", where 'a = nat]
      unsigned_less [of "timer_current a", where 'a = nat] by simp
  finally show "unat (timer_current (count_down n a)) =
      next_count (timer_mode a) (unat (timer_initial a)) (unat (timer_current a)) (divided_ticks a n)"
    by (simp add: count_down_def unat_of_nat)
  show "timer_divisor (count_down n a) = timer_divisor a"
    by (simp add: timer_divisor_def count_down_def)
qed

lemma count_down_frame [simp]:
  "timer_mode (count_down n a) = timer_mode a" "timer_initial (count_down n a) = timer_initial a"
  by (simp_all add: count_down_def)

lemma timer_ok_nat: "timer_ok a \<longleftrightarrow> timer_initial a \<noteq> 0 \<and> timer_mode a \<noteq> TscDeadline \<and>
   unat (timer_divide_residual a) < unat (timer_divisor a) \<and>
   (timer_mode a = Periodic \<longrightarrow> 0 < unat (timer_current a) \<and> unat (timer_current a) \<le> unat (timer_initial a))"
  by (simp add: timer_ok_def word_less_nat_alt word_le_nat_alt unat_gt_0)

lemma count_down_ok: "timer_ok a \<Longrightarrow> timer_ok (count_down n a)"
proof -
  assume a: "timer_ok a"
  then have "0 < unat (timer_initial a)" by (simp add: timer_ok_def unat_gt_0)
  moreover have "timer_mode a = Periodic \<Longrightarrow>
      next_count Periodic (unat (timer_initial a)) c t \<le> unat (timer_initial a)" for c t
    by (simp add: next_count_def)
  ultimately show ?thesis
    using a by (simp add: timer_ok_nat count_down_fields unat_timer_divisor_pos next_count_pos)
qed

lemma count_down_add: "timer_ok a \<Longrightarrow> count_down m (count_down n a) = count_down (n + m) a"
proof -
  assume a: "timer_ok a"
  note f = count_down_fields [OF a]
  have p: "timer_mode a = Periodic \<longrightarrow> 0 < unat (timer_current a) \<and> unat (timer_current a) \<le> unat (timer_initial a)"
    using a by (simp add: timer_ok_nat)
  have dt: "divided_ticks a (n + m) = divided_ticks a n + divided_ticks (count_down n a) m"
    by (rule divided_ticks_add) (simp_all add: f)
  show ?thesis
    unfolding count_down_def [of m] count_down_def [of "n + m"] f count_down_frame dt
      next_count_add [OF p, symmetric]
    by (simp add: count_down_def mod_add_left_eq add.assoc)
qed

lemma expires_add:
  assumes a: "timer_ok a"
  shows "expires a (n + m) \<longleftrightarrow> expires a n \<or> expires (count_down n a) m"
proof -
  note f = count_down_fields [OF a]
  have p: "timer_mode a = Periodic \<longrightarrow> 0 < unat (timer_current a) \<and> unat (timer_current a) \<le> unat (timer_initial a)"
    using a by (simp add: timer_ok_nat)
  define s t where "s = divided_ticks a n" and "t = divided_ticks (count_down n a) m"
  have dt: "divided_ticks a (n + m) = s + t"
    unfolding s_def t_def by (rule divided_ticks_add) (simp_all add: f)
  show ?thesis
  proof (cases "s < unat (timer_current a)")
    case True
    then have "unat (timer_current (count_down n a)) = unat (timer_current a) - s"
      using p by (simp add: f s_def next_count_before)
    with True show ?thesis by (auto simp: expires_def dt s_def [symmetric] t_def [symmetric])
  next
    case False
    show ?thesis
    proof (cases "s = 0")
      case True
      then have "unat (timer_current (count_down n a)) = unat (timer_current a)"
        using p by (simp add: f s_def next_count_0)
      with True show ?thesis by (simp add: expires_def dt s_def [symmetric] t_def [symmetric])
    next
      case s: False
      with False show ?thesis by (simp add: expires_def dt s_def [symmetric])
    qed
  qed
qed

lemma list_update_idem: "(xs[i := f (xs ! i)])[i := f (xs[i := f (xs ! i)] ! i)] = xs[i := f (f (xs ! i))]"
  by (cases "i < length xs") (simp_all add: list_update_beyond)

lemma reg_idem [simp]:
  "reg_set v (reg_set v r) = reg_set v r" "reg_clear v (reg_clear v r) = reg_clear v r"
  using list_update_idem [of r "reg_idx v" "\<lambda>w. w OR bitmask (reg_bit v)"]
    list_update_idem [of r "reg_idx v" "\<lambda>w. w AND NOT (bitmask (reg_bit v))"]
  by (simp_all add: reg_set_def reg_clear_def ac_simps)

text \<open>Firing only ever requests the LVT vector, edge triggered.\<close>

lemma fire_eq:
  "fire_lvt_timer a =
     (if lvt_timer a AND 0x00010000 \<noteq> 0 \<or> \<not> enabled a \<or> (ucast (lvt_timer a AND 0xFF) :: u8) < 16 then a
      else a\<lparr>la_irr := reg_set (ucast (lvt_timer a AND 0xFF)) (la_irr a),
             la_tmr := reg_clear (ucast (lvt_timer a AND 0xFF)) (la_tmr a)\<rparr>)"
  by (simp add: fire_lvt_timer_def accept_interrupt_def edge_entry_def Let_def)

lemma fire_idem [simp]: "fire_lvt_timer (fire_lvt_timer a) = fire_lvt_timer a"
  by (simp add: fire_eq)

lemma timer_bitmap_update:
  "timer_divisor (a\<lparr>la_irr := x, la_tmr := y\<rparr>) = timer_divisor a"
  "divided_ticks (a\<lparr>la_irr := x, la_tmr := y\<rparr>) n = divided_ticks a n"
  by (simp_all add: divided_ticks_def timer_divisor_def)

lemma count_down_bitmap_update:
  "count_down n (a\<lparr>la_irr := x, la_tmr := y\<rparr>) = (count_down n a)\<lparr>la_irr := x, la_tmr := y\<rparr>"
  by (simp add: count_down_def timer_bitmap_update)

lemma count_down_keeps [simp]:
  "lvt_timer (count_down n a) = lvt_timer a" "enabled (count_down n a) = enabled a"
  "la_irr (count_down n a) = la_irr a" "la_tmr (count_down n a) = la_tmr a"
  by (simp_all add: count_down_def)

lemma fire_count_down: "count_down n (fire_lvt_timer a) = fire_lvt_timer (count_down n a)"
  by (simp add: fire_eq count_down_bitmap_update)

lemma fire_timer_fields [simp]:
  "timer_ok (fire_lvt_timer a) = timer_ok a" "expires (fire_lvt_timer a) n = expires a n"
  "timer_divide_residual (fire_lvt_timer a) = timer_divide_residual a"
  by (simp_all add: fire_eq timer_ok_def expires_def timer_bitmap_update)

text \<open>The timer advanced by a natural number of input clocks, as the batching interface sees it.\<close>

definition bus_ticks :: "nat \<Rightarrow> LocalApic \<Rightarrow> bool \<times> LocalApic" where
  "bus_ticks n a = timer_tick (of_nat n) a"

definition timer_room :: "LocalApic \<Rightarrow> nat" where
  "timer_room a = 2 ^ 32 - 1 - unat (timer_divide_residual a)"

lemma bus_ticks_eq:
  assumes "timer_ok a" "n \<le> timer_room a"
  shows "bus_ticks n a = (expires a n, (if expires a n then fire_lvt_timer else id) (count_down n a))"
proof -
  have r: "unat (timer_divide_residual a) < 2 ^ 32"
    using unsigned_less [of "timer_divide_residual a", where 'a = nat] by simp
  with assms(2) have n: "unat (timer_divide_residual a) + n < 2 ^ 32" by (simp add: timer_room_def)
  then have "unat (of_nat n :: u32) = n" by (simp add: unat_of_nat)
  with n timer_tick_eq [OF assms(1), of "of_nat n"] show ?thesis by (simp add: bus_ticks_def)
qed

lemma timer_room_step:
  assumes "timer_ok a" "n + m \<le> timer_room a"
  shows "m \<le> timer_room (count_down n a)"
proof -
  have "unat (timer_divide_residual (count_down n a)) \<le> unat (timer_divide_residual a) + n"
    by (simp add: count_down_fields [OF assms(1)] mod_less_eq_dividend)
  moreover have "unat (timer_divide_residual a) < 2 ^ 32"
    using unsigned_less [of "timer_divide_residual a", where 'a = nat] by simp
  ultimately show ?thesis using assms(2) by (simp add: timer_room_def)
qed

lemma timer_room_fire [simp]: "timer_room (fire_lvt_timer a) = timer_room a"
  by (simp add: timer_room_def)

lemma count_down_0: "timer_ok a \<Longrightarrow> count_down 0 a = a" "timer_ok a \<Longrightarrow> \<not> expires a 0"
  by (simp_all add: count_down_def timer_ok_nat divided_ticks_def next_count_0 expires_def)

interpretation lapic_clock: batched_clock timer_ok timer_room False "(\<or>)" bus_ticks
proof
  fix a :: LocalApic and n m
  assume ok: "timer_ok a"
  show "bus_ticks 0 a = (False, a)"
    using ok by (simp add: bus_ticks_eq count_down_0)
  show "timer_ok (snd (bus_ticks n a))" if "n \<le> timer_room a"
    using ok that by (simp add: bus_ticks_eq count_down_ok)
  assume r: "n + m \<le> timer_room a"
  then have n: "n \<le> timer_room a" by simp
  note m = timer_room_step [OF ok r]
  show "m \<le> timer_room (snd (bus_ticks n a))"
    using ok n m by (simp add: bus_ticks_eq)
  let ?b = "snd (bus_ticks n a)"
  have "bus_ticks m ?b = (expires (count_down n a) m,
      (if expires a n \<or> expires (count_down n a) m then fire_lvt_timer else id) (count_down (n + m) a))"
    using ok n m count_down_ok [OF ok, of n]
    by (simp add: bus_ticks_eq fire_count_down count_down_add)
  then show "bus_ticks (n + m) a = (fst (bus_ticks n a) \<or> fst (bus_ticks m ?b), snd (bus_ticks m ?b))"
    using ok r n by (simp add: bus_ticks_eq expires_add)
qed

section \<open>Correctness of the timers and the register file\<close>

text \<open>C22 (equivalence).  The phase of the bus-clock timer does not depend on how elapsed time is
  handed over: any sequence of batches leaves the same LAPIC, counter, divider residue and request
  registers included, as one call with the total, and reports an expiry iff that call does.\<close>

theorem lapic_timer_batching:
  assumes "timer_ok a" "sum_list ns \<le> timer_room a"
  shows "run_batches False (\<or>) bus_ticks ns a = timer_tick (of_nat (sum_list ns)) a"
  using lapic_clock.run_batches_sum [OF assms] by (simp add: bus_ticks_def)

definition periodic_100 :: LocalApic where
  "periodic_100 = lapic_write_register LAPIC_TIMER_INIT 100
     (lapic_write_register LAPIC_LVT_TIMER 0x20040 (lapic_write_register LAPIC_SVR 0x1FF (lapic_new 0)))"

theorem lapic_timer_batching_witness:
  "timer_ok periodic_100 \<and> sum_list [150, 30, 1, 500] \<le> timer_room periodic_100 \<and>
   run_batches False (\<or>) bus_ticks [150, 30, 1, 500] periodic_100 = timer_tick 681 periodic_100 \<and>
   fst (timer_tick 681 periodic_100) \<and> timer_current (snd (timer_tick 681 periodic_100)) = 60"
proof -
  have h: "timer_ok periodic_100" "timer_divide_residual periodic_100 = 0"
    "fst (timer_tick 681 periodic_100)" "timer_current (snd (timer_tick 681 periodic_100)) = 60"
    by code_simp+
  then have r: "sum_list [150, 30, 1, 500] \<le> timer_room periodic_100" by (simp add: timer_room_def)
  from lapic_timer_batching [OF h(1) r] h r show ?thesis by simp
qed

text \<open>A periodic timer started with count \<open>N\<close> under divisor \<open>d\<close>: after \<open>n\<close> input
  clocks it has expired iff \<open>n \<ge> N * d\<close>, and the counter is \<open>N - (n / d) mod N\<close>; there is no
  drift however long it runs.\<close>

theorem lapic_periodic_phase:
  assumes "timer_mode a = Periodic" "count \<noteq> 0"
  shows "let r = timer_tick n (lapic_write_register LAPIC_TIMER_INIT count a) in
         (fst r \<longleftrightarrow> unat count * unat (timer_divisor a) \<le> unat n) \<and>
         unat (timer_current (snd r)) =
           unat count - (unat n div unat (timer_divisor a)) mod unat count"
proof -
  let ?b = "lapic_write_register LAPIC_TIMER_INIT count a"
  let ?d = "unat (timer_divisor a)"
  have b: "?b = a\<lparr>timer_initial := count, timer_current := count, timer_divide_residual := 0\<rparr>"
    using assms(1) by (simp add: lapic_write_register_def lapic_offsets)
  have d: "timer_divisor ?b = timer_divisor a" unfolding b by (simp add: timer_divisor_def)
  have ok: "timer_ok ?b"
    using assms timer_divisor_cases [of a] by (auto simp: timer_ok_nat d unat_gt_0) (auto simp: b unat_gt_0)
  have t: "divided_ticks ?b (unat n) = unat n div ?d"
    unfolding divided_ticks_def d by (simp add: b)
  have c0: "0 < unat count" using assms(2) by (simp add: unat_gt_0)
  have "expires ?b (unat n) \<longleftrightarrow> unat count \<le> unat n div ?d"
    unfolding expires_def t using c0 by (auto simp: b)
  also have "\<dots> \<longleftrightarrow> unat count * ?d \<le> unat n"
    by (rule less_eq_div_iff_mult_less_eq [OF unat_timer_divisor_pos])
  finally have e: "expires ?b (unat n) \<longleftrightarrow> unat count * ?d \<le> unat n" .
  have "unat (timer_current (count_down (unat n) ?b)) = unat count - (unat n div ?d) mod unat count"
    using assms(1) by (simp add: count_down_fields [OF ok] t) (simp add: b next_count_def)
  then show ?thesis
    using timer_tick_eq [OF ok, of n] e unsigned_less [of n, where 'a = nat]
    by (simp add: b)
qed

theorem lapic_periodic_phase_witness:
  "timer_mode periodic_100 = Periodic \<and>
   \<not> fst (timer_tick 199 (lapic_write_register LAPIC_TIMER_INIT 100 periodic_100)) \<and>
   fst (timer_tick 200 (lapic_write_register LAPIC_TIMER_INIT 100 periodic_100))"
proof -
  have m: "timer_mode periodic_100 = Periodic" "unat (timer_divisor periodic_100) = 2" by code_simp+
  show ?thesis
    using lapic_periodic_phase [OF m(1), of 100 199] lapic_periodic_phase [OF m(1), of 100 200] m
    by (simp add: Let_def)
qed

text \<open>C28 (functional).  The TSC-deadline timer: a check fires iff the timer is in that mode, armed,
  and the deadline has been reached.  Firing disarms it, so no later check fires until it is armed
  again and the deadline MSR reads 0; the LVT vector is requested unless the entry is masked, the
  APIC disabled or the vector reserved.  A check that does not fire changes nothing.\<close>

theorem lapic_tsc_deadline:
  assumes "lapic_wf a"
  shows "let (fired, b) = check_tsc_deadline now a; v = ucast (lvt_timer a AND 0xFF) in
         (fired \<longleftrightarrow> timer_mode a = TscDeadline \<and> tsc_deadline a \<noteq> 0 \<and> tsc_deadline a \<le> now) \<and>
         (\<not> fired \<longrightarrow> b = a) \<and>
         (fired \<longrightarrow> read_tsc_deadline_msr b = 0 \<and> (\<forall>later. check_tsc_deadline later b = (False, b)) \<and>
           (vec_in (la_irr b) v \<longleftrightarrow>
              vec_in (la_irr a) v \<or> enabled a \<and> lvt_timer a AND 0x00010000 = 0 \<and> \<not> v < 16))"
proof -
  have len: "length (la_irr a) = 8" using assms by (simp add: lapic_wf_def)
  let ?b = "a\<lparr>tsc_deadline := 0\<rparr>"
  have b: "tsc_deadline (fire_lvt_timer ?b) = 0" by (simp add: fire_eq)
  have i: "vec_in (la_irr (fire_lvt_timer ?b)) (ucast (lvt_timer a AND 0xFF)) \<longleftrightarrow>
      vec_in (la_irr a) (ucast (lvt_timer a AND 0xFF)) \<or>
      enabled a \<and> lvt_timer a AND 0x00010000 = 0 \<and> \<not> (ucast (lvt_timer a AND 0xFF) :: u8) < 16"
    by (auto simp: fire_eq len)
  show ?thesis
    unfolding check_tsc_deadline_def [of now]
    using b i by (auto simp: Let_def check_tsc_deadline_def read_tsc_deadline_msr_def not_less)
qed

theorem lapic_tsc_deadline_witness:
  "let a = write_tsc_deadline_msr 5000 (lapic_write_register LAPIC_LVT_TIMER 0x40040
             (lapic_write_register LAPIC_SVR 0x1FF (lapic_new 0)))
   in lapic_wf a \<and> \<not> fst (check_tsc_deadline 4999 a) \<and> fst (check_tsc_deadline 5000 a) \<and>
      pending_interrupt (snd (check_tsc_deadline 5000 a)) = Some 0x40"
proof -
  let ?a = "write_tsc_deadline_msr 5000 (lapic_write_register LAPIC_LVT_TIMER 0x40040
             (lapic_write_register LAPIC_SVR 0x1FF (lapic_new 0)))"
  have wf: "lapic_wf ?a" and m: "timer_mode ?a = TscDeadline" "tsc_deadline ?a = 5000"
    and p: "pending_interrupt (snd (check_tsc_deadline 5000 ?a)) = Some 0x40"
    by code_simp+
  have "fst (check_tsc_deadline t ?a) \<longleftrightarrow> 5000 \<le> t" for t
    using lapic_tsc_deadline [OF wf, of t] by (simp add: split_beta Let_def m)
  then show ?thesis using wf p by (simp only: Let_def) simp
qed

text \<open>The writable bits of the plain registers.\<close>

definition rw_registers :: "(u32 \<times> u32) list" where
  "rw_registers =
     [(LAPIC_TPR, 0xFF), (LAPIC_LDR, 0xFF000000), (LAPIC_SVR, SVR_WRITE_MASK),
      (LAPIC_ICR_LOW, ICR_LOW_WRITE_MASK), (LAPIC_ICR_HIGH, ICR_HIGH_WRITE_MASK),
      (LAPIC_LVT_TIMER, LVT_TIMER_WRITE_MASK), (LAPIC_LVT_THERMAL, LVT_DELIVERY_WRITE_MASK),
      (LAPIC_LVT_PERF, LVT_DELIVERY_WRITE_MASK), (LAPIC_LVT_LINT0, LVT_LINT_WRITE_MASK),
      (LAPIC_LVT_LINT1, LVT_LINT_WRITE_MASK), (LAPIC_LVT_ERROR, LVT_ERROR_WRITE_MASK),
      (LAPIC_LVT_CMCI, LVT_DELIVERY_WRITE_MASK), (LAPIC_TIMER_DIVIDE, TIMER_DCR_WRITE_MASK)]"

lemma icr_low_half: "ucast ((x AND 0xFFFFFFFF00000000) OR ucast (w :: u32) :: u64) = w"
  by (rule word_eq_by_bits) (simp add: bit_ucast_iff bit_or_iff bit_and_iff upt_widths)

lemma icr_high_half: "ucast (drop_bit 32 (push_bit 32 (ucast (w :: u32)) :: u64)) = w"
  by (rule bit_word_eqI) (simp add: bit_ucast_iff bit_drop_bit_eq bit_push_bit_iff)

lemma write_lvt_timer_reads: "lvt_timer (write_lvt_timer v a) = v AND LVT_TIMER_WRITE_MASK"
  by (simp add: write_lvt_timer_def Let_def)

text \<open>Every plain register of the LAPIC reads back what was written, restricted to
  its writable bits: reserved and read-only bits (delivery status, Remote IRR) cannot be forged by
  a guest write.\<close>

theorem lapic_register_readback:
  assumes "(off, wm) \<in> set rw_registers"
  shows "lapic_read_register off (lapic_write_register off v a) = v AND wm"
  using assms unfolding rw_registers_def
  by (simp only: list.set insert_iff empty_iff prod.inject simp_thms)
     (elim disjE conjE; simp add: lapic_read_register_def lapic_write_register_def lapic_offsets
        write_lvt_timer_reads icr_low_half icr_high_half)

theorem lapic_register_readback_witness:
  "(LAPIC_LVT_LINT0, LVT_LINT_WRITE_MASK) \<in> set rw_registers \<and>
   lapic_read_register LAPIC_LVT_LINT0 (lapic_write_register LAPIC_LVT_LINT0 0xFFFFFFFF (lapic_new 0)) =
     0x1A7FF"
proof -
  have m: "(LAPIC_LVT_LINT0, LVT_LINT_WRITE_MASK) \<in> set rw_registers" by (simp add: rw_registers_def)
  from lapic_register_readback [OF m, of "0xFFFFFFFF" "lapic_new 0"] m show ?thesis
    by (simp add: LVT_LINT_WRITE_MASK_def)
qed

section \<open>Observations\<close>

text \<open>
  A one-shot timer that has expired keeps firing: its counter stays at 0, which every later batch
  of at least one divided tick passes again.  The documentation of the mode (and the hardware)
  has the timer stop until the initial count is written again.
\<close>

lemma one_shot_fires_again:
  assumes "timer_ok a" "timer_mode a = OneShot" "timer_current a = 0" "timer_divisor a \<le> n"
    "timer_divide_residual a = 0"
  shows "fst (timer_tick n a)" "timer_current (snd (timer_tick n a)) = 0"
proof -
  have "1 \<le> unat n div unat (timer_divisor a)"
    using assms(4) unat_timer_divisor_pos [of a]
    by (simp add: word_le_nat_alt Suc_le_eq div_greater_zero_iff)
  then have e: "expires a (unat n)"
    using assms(3,5) by (simp add: expires_def divided_ticks_def)
  have t: "timer_tick n a = (True, fire_lvt_timer (count_down (unat n) a))"
    using timer_tick_eq [OF assms(1), of n] e assms(5) unsigned_less [of n, where 'a = nat] by simp
  then show "fst (timer_tick n a)" by simp
  show "timer_current (snd (timer_tick n a)) = 0"
    using assms(2,3) by (simp add: t count_down_def next_count_def)
qed

text \<open>The arbitration priority of a vector in service repeats its class in the low nibble, where
  the comment on \<open>compute_apr\<close> announces the maximum of TPR and the in-service priority.\<close>

lemma apr_repeats_class:
  "compute_apr (snd (accept_highest_interrupt
     (activity [RegWrite LAPIC_SVR 0x1FF, Arrive (edge_entry 0x50)] (lapic_new 0)))) = 0x55"
  by code_simp

end
