(* ===== verification/Ioapic.thy ===== *)
theory Ioapic
  imports Irq_Types
begin

text \<open>
  The 82093AA I/O APIC (\<open>enlil-devices/src/interrupt/ioapic.rs\<close>): 24 redirection table
  entries behind the \<open>IOREGSEL\<close>/\<open>IOWIN\<close> register pair, the assertion of an input line, and the
  EOI broadcast that clears Remote IRR and re-delivers a line that is still asserted.  The two
  fixed arrays are lists of length 24; the accessors that would panic out of range return
  \<open>None\<close>.
\<close>

section \<open>Redirection table entries\<close>

record RteFlags =
  dest_logical :: bool
  delivery_pending :: bool
  active_low :: bool

record RedirectionEntry =
  rte_vector :: u8
  rte_delivery_mode :: DeliveryMode
  flags :: RteFlags
  remote_irr :: bool
  level_triggered :: bool
  masked :: bool
  destination :: u8

definition rte_default :: RedirectionEntry where
  "rte_default = \<lparr>rte_vector = 0, rte_delivery_mode = Fixed,
     flags = \<lparr>dest_logical = False, delivery_pending = False, active_low = False\<rparr>,
     remote_irr = False, level_triggered = False, masked = True, destination = 0\<rparr>"

definition rte_low :: "RedirectionEntry \<Rightarrow> u32" where
  "rte_low e =
     (let v = ucast (rte_vector e);
          v = v OR push_bit 8 (dm_bits (rte_delivery_mode e) AND 0x7);
          v = or_bit_if (dest_logical (flags e)) 11 v;
          v = or_bit_if (delivery_pending (flags e)) 12 v;
          v = or_bit_if (active_low (flags e)) 13 v;
          v = or_bit_if (remote_irr e) 14 v;
          v = or_bit_if (level_triggered e) 15 v;
          v = or_bit_if (masked e) 16 v
      in v)"

definition rte_high :: "RedirectionEntry \<Rightarrow> u32" where
  "rte_high e = push_bit 24 (ucast (destination e))"

definition rte_set_low :: "u32 \<Rightarrow> RedirectionEntry \<Rightarrow> RedirectionEntry" where
  "rte_set_low v e =
     e\<lparr>rte_vector := ucast (v AND 0xFF),
       rte_delivery_mode := dm_from_bits (ucast (drop_bit 8 v AND 0x7)),
       flags := (flags e)\<lparr>dest_logical := drop_bit 11 v AND 1 \<noteq> 0,
                          active_low := drop_bit 13 v AND 1 \<noteq> 0\<rparr>,
       level_triggered := drop_bit 15 v AND 1 \<noteq> 0,
       masked := drop_bit 16 v AND 1 \<noteq> 0\<rparr>"

definition rte_set_high :: "u32 \<Rightarrow> RedirectionEntry \<Rightarrow> RedirectionEntry" where
  "rte_set_high v e = e\<lparr>destination := ucast (drop_bit 24 v AND 0xFF)\<rparr>"

definition rte_set_delivery_mode :: "u8 \<Rightarrow> RedirectionEntry \<Rightarrow> RedirectionEntry" where
  "rte_set_delivery_mode m e = e\<lparr>rte_delivery_mode := dm_from_bits m\<rparr>"

definition rte_set_vector :: "u8 \<Rightarrow> RedirectionEntry \<Rightarrow> RedirectionEntry" where
  "rte_set_vector v e = e\<lparr>rte_vector := v\<rparr>"

definition rte_set_destination :: "u8 \<Rightarrow> RedirectionEntry \<Rightarrow> RedirectionEntry" where
  "rte_set_destination d e = e\<lparr>destination := d\<rparr>"

definition rte_set_destination_mode_logical :: "bool \<Rightarrow> RedirectionEntry \<Rightarrow> RedirectionEntry" where
  "rte_set_destination_mode_logical b e = e\<lparr>flags := (flags e)\<lparr>dest_logical := b\<rparr>\<rparr>"

definition rte_set_masked :: "bool \<Rightarrow> RedirectionEntry \<Rightarrow> RedirectionEntry" where
  "rte_set_masked b e = e\<lparr>masked := b\<rparr>"

section \<open>The I/O APIC\<close>

definition NUM_IOAPIC_PINS :: nat where "NUM_IOAPIC_PINS = 24"
definition IOREGSEL :: u64 where "IOREGSEL = 0x00"
definition IOWIN :: u64 where "IOWIN = 0x10"
definition IOAPIC_REG_ID :: u8 where "IOAPIC_REG_ID = 0x00"
definition IOAPIC_REG_VER :: u8 where "IOAPIC_REG_VER = 0x01"
definition IOAPIC_REG_ARB :: u8 where "IOAPIC_REG_ARB = 0x02"
definition IOAPIC_REG_REDTBL_BASE :: u8 where "IOAPIC_REG_REDTBL_BASE = 0x10"
definition IOAPIC_VERSION :: u32 where "IOAPIC_VERSION = 0x11"

lemmas ioapic_consts = NUM_IOAPIC_PINS_def IOREGSEL_def IOWIN_def IOAPIC_REG_ID_def
  IOAPIC_REG_VER_def IOAPIC_REG_ARB_def IOAPIC_REG_REDTBL_BASE_def IOAPIC_VERSION_def

record IoApic =
  ioapic_id :: u8
  reg_select :: u8
  entries :: "RedirectionEntry list"
  irq_level :: "bool list"

record InterruptRoute =
  ir_vector :: u8
  ir_delivery_mode :: DeliveryMode
  ir_dest_logical :: bool
  ir_destination :: u8
  ir_level_triggered :: bool

definition ioapic_new :: "u8 \<Rightarrow> IoApic" where
  "ioapic_new i = \<lparr>ioapic_id = i, reg_select = 0, entries = replicate NUM_IOAPIC_PINS rte_default,
     irq_level = replicate NUM_IOAPIC_PINS False\<rparr>"

definition ioapic_read_register :: "u8 \<Rightarrow> IoApic \<Rightarrow> u32" where
  "ioapic_read_register reg a =
     (if reg = IOAPIC_REG_ID \<or> reg = IOAPIC_REG_ARB then push_bit 24 (ucast (ioapic_id a))
      else if reg = IOAPIC_REG_VER then IOAPIC_VERSION OR push_bit 16 (of_nat (NUM_IOAPIC_PINS - 1))
      else if reg \<ge> IOAPIC_REG_REDTBL_BASE then
        let index = unat (reg - IOAPIC_REG_REDTBL_BASE); entry_idx = index div 2 in
        if entry_idx \<ge> NUM_IOAPIC_PINS then 0
        else if even index then rte_low (entries a ! entry_idx)
        else rte_high (entries a ! entry_idx)
      else 0)"

definition ioapic_write_register :: "u8 \<Rightarrow> u32 \<Rightarrow> IoApic \<Rightarrow> IoApic" where
  "ioapic_write_register reg value a =
     (if reg = IOAPIC_REG_ID then a\<lparr>ioapic_id := ucast (drop_bit 24 value AND 0xF)\<rparr>
      else if reg \<ge> IOAPIC_REG_REDTBL_BASE then
        let index = unat (reg - IOAPIC_REG_REDTBL_BASE); entry_idx = index div 2 in
        if entry_idx \<ge> NUM_IOAPIC_PINS then a
        else if even index
        then a\<lparr>entries := (entries a)[entry_idx := rte_set_low value (entries a ! entry_idx)]\<rparr>
        else a\<lparr>entries := (entries a)[entry_idx := rte_set_high value (entries a ! entry_idx)]\<rparr>
      else a)"

definition ioapic_mmio_read :: "u64 \<Rightarrow> IoApic \<Rightarrow> u32" where
  "ioapic_mmio_read offset a =
     (if offset = IOREGSEL then ucast (reg_select a)
      else if offset = IOWIN then ioapic_read_register (reg_select a) a
      else 0)"

definition ioapic_mmio_write :: "u64 \<Rightarrow> u32 \<Rightarrow> IoApic \<Rightarrow> IoApic" where
  "ioapic_mmio_write offset value a =
     (if offset = IOREGSEL then a\<lparr>reg_select := ucast (value AND 0xFF)\<rparr>
      else if offset = IOWIN then ioapic_write_register (reg_select a) value a
      else a)"

definition route_of :: "RedirectionEntry \<Rightarrow> InterruptRoute" where
  "route_of e = \<lparr>ir_vector = rte_vector e, ir_delivery_mode = rte_delivery_mode e,
     ir_dest_logical = dest_logical (flags e), ir_destination = destination e,
     ir_level_triggered = level_triggered e\<rparr>"

definition ioapic_set_irq :: "nat \<Rightarrow> IoApic \<Rightarrow> InterruptRoute option \<times> IoApic" where
  "ioapic_set_irq irq a =
     (if irq \<ge> NUM_IOAPIC_PINS then (None, a)
      else
        let e = entries a ! irq in
        if masked e then (None, a)
        else if level_triggered e then
          if irq_level a ! irq then (None, a)
          else (Some (route_of e),
                a\<lparr>irq_level := (irq_level a)[irq := True],
                  entries := (entries a)[irq := e\<lparr>remote_irr := True\<rparr>]\<rparr>)
        else (Some (route_of e), a))"

definition ioapic_clear_irq :: "nat \<Rightarrow> IoApic \<Rightarrow> IoApic" where
  "ioapic_clear_irq irq a =
     (if irq < NUM_IOAPIC_PINS then a\<lparr>irq_level := (irq_level a)[irq := False]\<rparr> else a)"

text \<open>The body of the EOI loop for one entry and its input line: the new entry, and the route to
  inject again if there is one.\<close>

definition eoi_entry :: "u8 \<Rightarrow> bool \<Rightarrow> RedirectionEntry \<Rightarrow> RedirectionEntry \<times> InterruptRoute option" where
  "eoi_entry vector line e =
     (if level_triggered e \<and> remote_irr e \<and> rte_vector e = vector then
        let e1 = e\<lparr>remote_irr := False, flags := (flags e)\<lparr>delivery_pending := False\<rparr>\<rparr> in
        if line \<and> \<not> masked e1
        then (e1\<lparr>remote_irr := True\<rparr>, Some ((route_of e1)\<lparr>ir_level_triggered := True\<rparr>))
        else (e1, None)
      else (e, None))"

fun eoi_scan :: "u8 \<Rightarrow> RedirectionEntry list \<Rightarrow> bool list \<Rightarrow> RedirectionEntry list \<times> InterruptRoute list"
where
  "eoi_scan vector (e # es) (l # ls) =
     (case eoi_entry vector l e of (e', r) \<Rightarrow>
      case eoi_scan vector es ls of (es', rs) \<Rightarrow>
        (e' # es', (case r of None \<Rightarrow> rs | Some x \<Rightarrow> x # rs)))"
| "eoi_scan vector es _ = (es, [])"

definition ioapic_eoi :: "u8 \<Rightarrow> IoApic \<Rightarrow> InterruptRoute list \<times> IoApic" where
  "ioapic_eoi vector a =
     (case eoi_scan vector (entries a) (irq_level a) of (es, rs) \<Rightarrow> (rs, a\<lparr>entries := es\<rparr>))"

definition get_rte :: "u8 \<Rightarrow> IoApic \<Rightarrow> RedirectionEntry option" where
  "get_rte irq a = (if unat irq < NUM_IOAPIC_PINS then Some (entries a ! unat irq) else None)"

text \<open>An update through the reference \<open>get_rte_mut\<close> hands out; \<open>None\<close> where it panics.\<close>

definition update_rte :: "u8 \<Rightarrow> (RedirectionEntry \<Rightarrow> RedirectionEntry) \<Rightarrow> IoApic \<Rightarrow> IoApic option" where
  "update_rte irq f a =
     (if unat irq < NUM_IOAPIC_PINS
      then Some (a\<lparr>entries := (entries a)[unat irq := f (entries a ! unat irq)]\<rparr>) else None)"

definition ioapic_entry :: "nat \<Rightarrow> IoApic \<Rightarrow> RedirectionEntry option" where
  "ioapic_entry irq a = (if irq < length (entries a) then Some (entries a ! irq) else None)"

definition ioapic_wf :: "IoApic \<Rightarrow> bool" where
  "ioapic_wf a \<longleftrightarrow> length (entries a) = NUM_IOAPIC_PINS \<and> length (irq_level a) = NUM_IOAPIC_PINS"


section \<open>Register encoding\<close>

lemma bit_rte_low:
  "bit (rte_low e) n \<longleftrightarrow>
     (if n < 8 then bit (rte_vector e) n
      else if n < 11 then bit (dm_bits (rte_delivery_mode e) :: u32) (n - 8)
      else n = 11 \<and> dest_logical (flags e) \<or> n = 12 \<and> delivery_pending (flags e) \<or>
           n = 13 \<and> active_low (flags e) \<or> n = 14 \<and> remote_irr e \<or>
           n = 15 \<and> level_triggered e \<or> n = 16 \<and> masked e)"
proof -
  have 7: "dm_bits (rte_delivery_mode e) AND 0x7 = (dm_bits (rte_delivery_mode e) :: u32)"
    by (cases "rte_delivery_mode e") simp_all
  have v: "bit (rte_vector e) n \<Longrightarrow> n < 8"
    using bit_imp_le_length [of "rte_vector e" n] by simp
  have d: "bit (dm_bits (rte_delivery_mode e) :: u32) (n - 8) \<Longrightarrow> n - 8 < 3"
    by (rule bit_dm_bits)
  consider "n < 8" | "8 \<le> n" "n < 11" | "11 \<le> n" by linarith
  then show ?thesis
  proof cases
    case 2
    with v have "\<not> bit (rte_vector e) n" by linarith
    with 2 show ?thesis
      by (simp add: rte_low_def Let_def 7 bit_or_iff bit_push_bit_iff bit_ucast_iff)
  next
    case 3
    with v d have "\<not> bit (rte_vector e) n" "\<not> bit (dm_bits (rte_delivery_mode e) :: u32) (n - 8)"
      by linarith+
    with 3 show ?thesis
      by (simp add: rte_low_def Let_def 7 bit_or_iff bit_push_bit_iff bit_ucast_iff) blast
  qed (simp_all add: rte_low_def Let_def 7 bit_or_iff bit_push_bit_iff bit_ucast_iff)
qed

text \<open>
  Writing the low dword keeps the two read-only bits (delivery status, Remote IRR) and stores the
  writable ones; the reserved delivery mode 3 is the only field that is normalised.
\<close>

lemma rte_low_set_low:
  assumes "drop_bit 8 v AND 0x7 \<noteq> 3"
  shows "rte_low (rte_set_low v e) = (v AND 0x1AFFF) OR (rte_low e AND 0x5000)"
proof -
  let ?f = "drop_bit 8 v AND 7 :: u32"
  have c: "ucast ?f AND 7 = (ucast ?f :: u8)" and d: "ucast (ucast ?f :: u8) = ?f"
    by (rule bit_word_eqI, auto simp: bit_simps and_low_ones)+
  have "(ucast ?f :: u8) \<noteq> 3"
  proof
    assume "(ucast ?f :: u8) = 3"
    then have "ucast (ucast ?f :: u8) = (3 :: u32)" by simp
    with assms d show False by simp
  qed
  then have "dm_bits (dm_from_bits (ucast ?f)) = ?f"
    by (simp add: dm_bits_from_bits c d)
  then show ?thesis
    by (intro word_eq_by_bits)
       (simp add: bit_rte_low rte_set_low_def bit_drop_and_1 bit_and_iff bit_or_iff
          bit_drop_bit_eq bit_ucast_iff upt_widths)
qed

lemma rte_high_set_high: "rte_high (rte_set_high v e) = v AND 0xFF000000"
  by (rule word_eq_by_bits)
     (simp add: rte_high_def rte_set_high_def bit_push_bit_iff bit_ucast_iff bit_and_iff
        bit_drop_bit_eq upt_widths)

lemma rte_high_set_low [simp]: "rte_high (rte_set_low v e) = rte_high e"
  by (simp add: rte_high_def rte_set_low_def)

lemma rte_low_set_high [simp]: "rte_low (rte_set_high v e) = rte_low e"
  by (simp add: rte_low_def rte_set_high_def)

definition redtbl_reg :: "nat \<Rightarrow> u8" where
  "redtbl_reg k = IOAPIC_REG_REDTBL_BASE + of_nat k"

lemma redtbl_reg_index:
  assumes "k < 48"
  shows "unat (redtbl_reg k - IOAPIC_REG_REDTBL_BASE) = k" "redtbl_reg k \<ge> IOAPIC_REG_REDTBL_BASE"
    "redtbl_reg k \<noteq> IOAPIC_REG_ID" "redtbl_reg k \<noteq> IOAPIC_REG_VER" "redtbl_reg k \<noteq> IOAPIC_REG_ARB"
    "ucast (ucast (redtbl_reg k) AND 0xFF :: u32) = redtbl_reg k"
proof -
  have u: "unat (redtbl_reg k) = 16 + k"
    using assms by (simp add: redtbl_reg_def ioapic_consts unat_word_ariths unat_of_nat)
  show "unat (redtbl_reg k - IOAPIC_REG_REDTBL_BASE) = k"
    using assms by (simp add: redtbl_reg_def unat_of_nat)
  show "redtbl_reg k \<ge> IOAPIC_REG_REDTBL_BASE"
    using u by (simp add: word_le_nat_alt ioapic_consts)
  show "redtbl_reg k \<noteq> IOAPIC_REG_ID" "redtbl_reg k \<noteq> IOAPIC_REG_VER"
    "redtbl_reg k \<noteq> IOAPIC_REG_ARB"
    using u by (auto simp: ioapic_consts)
  show "ucast (ucast (redtbl_reg k) AND 0xFF :: u32) = redtbl_reg k"
    by (rule bit_word_eqI) (auto simp: bit_simps and_low_ones)
qed

text \<open>A guest access to a redirection register: select it through \<open>IOREGSEL\<close>, then use
  \<open>IOWIN\<close>.\<close>

definition write_redtbl :: "nat \<Rightarrow> u32 \<Rightarrow> IoApic \<Rightarrow> IoApic" where
  "write_redtbl k v a = ioapic_mmio_write IOWIN v (ioapic_mmio_write IOREGSEL (ucast (redtbl_reg k)) a)"

definition read_redtbl :: "nat \<Rightarrow> IoApic \<Rightarrow> u32" where
  "read_redtbl k a = ioapic_mmio_read IOWIN (ioapic_mmio_write IOREGSEL (ucast (redtbl_reg k)) a)"

lemma write_redtbl_eq:
  assumes "k < 48"
  shows "write_redtbl k v a =
     a\<lparr>reg_select := redtbl_reg k,
       entries := (entries a)[k div 2 := (if even k then rte_set_low else rte_set_high) v (entries a ! (k div 2))]\<rparr>"
proof -
  have "k div 2 < NUM_IOAPIC_PINS" using assms by (simp add: ioapic_consts)
  then show ?thesis
    using redtbl_reg_index [OF assms]
    by (simp add: write_redtbl_def ioapic_mmio_write_def ioapic_write_register_def Let_def)
       (simp add: ioapic_consts)
qed

lemma read_redtbl_eq:
  assumes "k < 48"
  shows "read_redtbl k a = (if even k then rte_low else rte_high) (entries a ! (k div 2))"
proof -
  have "k div 2 < NUM_IOAPIC_PINS" using assms by (simp add: ioapic_consts)
  then show ?thesis
    using redtbl_reg_index [OF assms]
    by (simp add: read_redtbl_def ioapic_mmio_write_def ioapic_mmio_read_def
        ioapic_read_register_def Let_def) (simp add: ioapic_consts)
qed

section \<open>Well-formedness\<close>

lemma ioapic_new_wf: "ioapic_wf (ioapic_new i)"
  by (simp add: ioapic_wf_def ioapic_new_def)

lemma ioapic_write_register_wf: "ioapic_wf a \<Longrightarrow> ioapic_wf (ioapic_write_register r v a)"
  by (simp add: ioapic_wf_def ioapic_write_register_def Let_def)

lemma ioapic_mmio_write_wf [intro]: "ioapic_wf a \<Longrightarrow> ioapic_wf (ioapic_mmio_write off v a)"
  using ioapic_write_register_wf [of a] by (simp add: ioapic_mmio_write_def ioapic_wf_def)

lemma ioapic_set_irq_wf [intro]: "ioapic_wf a \<Longrightarrow> ioapic_wf (snd (ioapic_set_irq i a))"
  by (simp add: ioapic_wf_def ioapic_set_irq_def Let_def)

lemma ioapic_clear_irq_wf [intro]: "ioapic_wf a \<Longrightarrow> ioapic_wf (ioapic_clear_irq i a)"
  by (simp add: ioapic_wf_def ioapic_clear_irq_def)

lemma length_eoi_scan [simp]: "length (fst (eoi_scan v es ls)) = length es"
  by (induction v es ls rule: eoi_scan.induct) (auto split: prod.splits)

lemma ioapic_eoi_wf [intro]: "ioapic_wf a \<Longrightarrow> ioapic_wf (snd (ioapic_eoi v a))"
  by (simp add: ioapic_wf_def ioapic_eoi_def split_beta)

section \<open>Correctness\<close>

text \<open>A guest that programs a redirection register through
  \<open>IOREGSEL\<close>/\<open>IOWIN\<close> and reads it back sees what it wrote in the writable bits and the old value
  in the two read-only bits (delivery status, Remote IRR), for both halves of an entry; every
  other redirection register reads as before.  The reserved delivery mode 3 is excluded: the
  entry stores it as Fixed.\<close>

theorem ioapic_rte_readback:
  assumes "ioapic_wf a" "k < 48" "even k \<Longrightarrow> drop_bit 8 v AND 0x7 \<noteq> 3"
  shows "read_redtbl k (write_redtbl k v a) =
           (if even k then (v AND 0x1AFFF) OR (read_redtbl k a AND 0x5000) else v AND 0xFF000000) \<and>
         (\<forall>j. j < 48 \<and> j \<noteq> k \<longrightarrow> read_redtbl j (write_redtbl k v a) = read_redtbl j a)"
proof (intro conjI allI impI)
  have l: "k div 2 < length (entries a)" using assms by (simp add: ioapic_wf_def ioapic_consts)
  then show "read_redtbl k (write_redtbl k v a) =
      (if even k then (v AND 0x1AFFF) OR (read_redtbl k a AND 0x5000) else v AND 0xFF000000)"
    using assms(2,3) by (simp add: write_redtbl_eq read_redtbl_eq rte_low_set_low rte_high_set_high)
  fix j
  assume j: "j < 48 \<and> j \<noteq> k"
  show "read_redtbl j (write_redtbl k v a) = read_redtbl j a"
  proof (cases "j div 2 = k div 2")
    case True
    with j have "even j \<noteq> even k" by presburger
    with True j l assms(2) show ?thesis by (simp add: write_redtbl_eq read_redtbl_eq)
  qed (use j l assms(2) in \<open>simp add: write_redtbl_eq read_redtbl_eq\<close>)
qed

theorem ioapic_rte_readback_witness:
  "ioapic_wf (ioapic_new 1) \<and>
   read_redtbl 6 (write_redtbl 6 0xA030 (ioapic_new 1)) = 0xA030 \<and>
   read_redtbl 7 (write_redtbl 6 0xA030 (ioapic_new 1)) = read_redtbl 7 (ioapic_new 1)"
proof -
  have "read_redtbl 6 (ioapic_new 1) AND 0x5000 = 0" by code_simp
  then show ?thesis
    using ioapic_rte_readback [of "ioapic_new 1" 6 "0xA030"] ioapic_new_wf [of 1] by simp
qed

lemma eoi_scan_spec:
  "length es = length ls \<Longrightarrow>
   eoi_scan v es ls =
     (map2 (\<lambda>l e. fst (eoi_entry v l e)) ls es,
      map (\<lambda>(l, e). (route_of e)\<lparr>ir_level_triggered := True\<rparr>)
        (filter (\<lambda>(l, e). level_triggered e \<and> remote_irr e \<and> rte_vector e = v \<and> l \<and> \<not> masked e) (zip ls es)))"
  by (induction es ls rule: list_induct2) (auto simp: eoi_entry_def route_of_def Let_def)

text \<open>The entry and line of pin \<open>i\<close> take part in the EOI broadcast of vector \<open>v\<close>.\<close>

abbreviation eoi_hits :: "u8 \<Rightarrow> IoApic \<Rightarrow> nat \<Rightarrow> bool" where
  "eoi_hits v a i \<equiv> level_triggered (entries a ! i) \<and> remote_irr (entries a ! i) \<and>
     rte_vector (entries a ! i) = v"

abbreviation redelivers :: "u8 \<Rightarrow> IoApic \<Rightarrow> nat \<Rightarrow> bool" where
  "redelivers v a i \<equiv> eoi_hits v a i \<and> irq_level a ! i \<and> \<not> masked (entries a ! i)"

lemma zip_eq_map_upt: "length xs = length ys \<Longrightarrow> zip xs ys = map (\<lambda>i. (xs ! i, ys ! i)) [0..<length ys]"
  by (rule nth_equalityI) auto

text \<open>The EOI broadcast of a vector, exactly: Remote IRR of pin \<open>i\<close> is cleared
  iff the pin is level triggered, awaits the EOI of this vector and is not delivered again; the
  routes returned are those of the pins whose line is still asserted and unmasked, in pin order;
  lines, masks, vectors and destinations are unchanged.\<close>

theorem ioapic_eoi_spec:
  assumes "ioapic_wf a"
  shows "fst (ioapic_eoi v a) =
           map (\<lambda>i. (route_of (entries a ! i))\<lparr>ir_level_triggered := True\<rparr>)
             (filter (redelivers v a) [0..<NUM_IOAPIC_PINS]) \<and>
         entries (snd (ioapic_eoi v a)) =
           map (\<lambda>i. if eoi_hits v a i
                 then (entries a ! i)\<lparr>flags := (flags (entries a ! i))\<lparr>delivery_pending := False\<rparr>,
                                     remote_irr := redelivers v a i\<rparr>
                 else entries a ! i) [0..<NUM_IOAPIC_PINS] \<and>
         irq_level (snd (ioapic_eoi v a)) = irq_level a"
proof -
  let ?n = NUM_IOAPIC_PINS
  have len: "length (entries a) = ?n" "length (irq_level a) = ?n"
    using assms by (simp_all add: ioapic_wf_def)
  have "eoi_scan v (entries a) (irq_level a) =
     (map (\<lambda>i. fst (eoi_entry v (irq_level a ! i) (entries a ! i))) [0..<?n],
      map (\<lambda>i. (route_of (entries a ! i))\<lparr>ir_level_triggered := True\<rparr>)
        (filter (redelivers v a) [0..<?n]))"
    by (simp add: eoi_scan_spec len zip_eq_map_upt filter_map comp_def conj_assoc)
  then show ?thesis
    by (simp add: ioapic_eoi_def) (simp add: eoi_entry_def Let_def)
qed

theorem ioapic_eoi_spec_witness:
  "let a = snd (ioapic_set_irq 3 (write_redtbl 6 0xA030 (ioapic_new 1))) in
   ioapic_wf a \<and> map ir_vector (fst (ioapic_eoi 0x30 a)) = [0x30] \<and>
   fst (ioapic_eoi 0x31 a) = []"
proof -
  let ?a = "snd (ioapic_set_irq 3 (write_redtbl 6 0xA030 (ioapic_new 1)))"
  have wf: "ioapic_wf ?a" by code_simp
  have "map ir_vector (map (\<lambda>i. (route_of (entries ?a ! i))\<lparr>ir_level_triggered := True\<rparr>)
      (filter (redelivers 0x30 ?a) [0..<NUM_IOAPIC_PINS])) = [0x30]"
    and "filter (redelivers 0x31 ?a) [0..<NUM_IOAPIC_PINS] = []"
    by code_simp+
  then show ?thesis
    using wf ioapic_eoi_spec [of ?a "0x30"] ioapic_eoi_spec [of ?a "0x31"]
    by (simp only: Let_def) simp
qed

text \<open>
  A level pin over time.  While the line stays asserted, every EOI of the vector delivers it once
  more; once the line is released, the next EOI delivers nothing and leaves the pin ready for a
  new assertion.
\<close>

lemma eoi_at:
  assumes "ioapic_wf a" "i < NUM_IOAPIC_PINS"
  shows "entries (snd (ioapic_eoi v a)) ! i = fst (eoi_entry v (irq_level a ! i) (entries a ! i))"
    and "irq_level (snd (ioapic_eoi v a)) = irq_level a"
  using assms by (simp_all add: ioapic_eoi_def eoi_scan_spec ioapic_wf_def)

lemma eoi_no_route:
  assumes "ioapic_wf a" "\<And>i. i < NUM_IOAPIC_PINS \<Longrightarrow> \<not> redelivers v a i"
  shows "fst (ioapic_eoi v a) = []"
  using assms by (fastforce simp: ioapic_eoi_def eoi_scan_spec ioapic_wf_def filter_empty_conv set_zip)

fun eoi_times :: "nat \<Rightarrow> u8 \<Rightarrow> IoApic \<Rightarrow> IoApic" where
  "eoi_times 0 v a = a"
| "eoi_times (Suc n) v a = snd (ioapic_eoi v (eoi_times n v a))"

lemma eoi_times_wf: "ioapic_wf a \<Longrightarrow> ioapic_wf (eoi_times n v a)"
  by (induction n) auto

text \<open>The routes of those of the pins \<open>js\<close> that the EOI of vector \<open>v\<close> delivers again, one per pin.\<close>

definition redelivered :: "u8 \<Rightarrow> IoApic \<Rightarrow> nat list \<Rightarrow> InterruptRoute list" where
  "redelivered v a js = map (\<lambda>j. route_of (entries a ! j)) (filter (redelivers v a) js)"

lemma redelivered_simps:
  "redelivered v a [] = []" "redelivered v a (js @ ks) = redelivered v a js @ redelivered v a ks"
  "redelivered v a (i # js) = (if redelivers v a i then route_of (entries a ! i) # redelivered v a js else redelivered v a js)"
  by (simp_all add: redelivered_def)

lemma redelivered_cong:
  assumes "\<And>j. j \<in> set js \<Longrightarrow> redelivers v a j = redelivers v b j"
    and "\<And>j. j \<in> set js \<Longrightarrow> redelivers v b j \<Longrightarrow> route_of (entries a ! j) = route_of (entries b ! j)"
  shows "redelivered v a js = redelivered v b js"
proof -
  have "filter (redelivers v a) js = filter (redelivers v b) js"
    using assms(1) by (intro filter_cong) simp_all
  then show ?thesis using assms(2) by (simp add: redelivered_def)
qed

lemma eoi_routes:
  assumes "ioapic_wf a"
  shows "fst (ioapic_eoi v a) = redelivered v a [0..<NUM_IOAPIC_PINS]"
  using ioapic_eoi_spec [OF assms, of v] by (auto simp: redelivered_def route_of_def)

lemma route_in_eoi:
  assumes "ioapic_wf a" "i < NUM_IOAPIC_PINS" "redelivers v a i"
  shows "route_of (entries a ! i) \<in> set (fst (ioapic_eoi v a))"
  using assms by (auto simp: eoi_routes redelivered_def)

lemma split_pins: "i < NUM_IOAPIC_PINS \<Longrightarrow> [0..<NUM_IOAPIC_PINS] = [0..<i] @ [i] @ [Suc i..<NUM_IOAPIC_PINS]"
  using upt_add_eq_append [of 0 i "NUM_IOAPIC_PINS - i"] by (simp add: upt_conv_Cons)

text \<open>Repeating the EOI of a vector delivers the same routes each time.\<close>

lemma eoi_times_routes:
  "ioapic_wf a \<Longrightarrow> fst (ioapic_eoi v (eoi_times m v a)) = fst (ioapic_eoi v a)"
proof (induction m)
  case (Suc m)
  let ?a = "eoi_times m v a"
  have wf: "ioapic_wf ?a" by (rule eoi_times_wf [OF Suc.prems])
  have "redelivered v (snd (ioapic_eoi v ?a)) [0..<NUM_IOAPIC_PINS] = redelivered v ?a [0..<NUM_IOAPIC_PINS]"
    using wf by (intro redelivered_cong) (auto simp: eoi_at eoi_entry_def route_of_def Let_def)
  with Suc wf show ?case using ioapic_eoi_wf [OF wf, of v] by (simp add: eoi_routes)
qed simp

text \<open>A level pin in service: asserted, unmasked, awaiting the EOI of its vector.\<close>

definition in_service :: "nat \<Rightarrow> IoApic \<Rightarrow> bool" where
  "in_service i a \<longleftrightarrow> ioapic_wf a \<and> i < NUM_IOAPIC_PINS \<and> irq_level a ! i \<and>
     \<not> masked (entries a ! i) \<and> level_triggered (entries a ! i) \<and> remote_irr (entries a ! i)"

lemma in_service_eoi:
  assumes "in_service i a"
  shows "in_service i (snd (ioapic_eoi v a)) \<and>
    route_of (entries (snd (ioapic_eoi v a)) ! i) = route_of (entries a ! i)"
  using assms ioapic_eoi_wf [of a v]
  by (auto simp: in_service_def eoi_at eoi_entry_def route_of_def Let_def)

lemma in_service_eoi_times:
  "in_service i a \<Longrightarrow>
   in_service i (eoi_times n v a) \<and> route_of (entries (eoi_times n v a) ! i) = route_of (entries a ! i)"
  by (induction n) (auto simp: in_service_eoi)

lemma set_irq_in_service:
  assumes "ioapic_wf a" "i < NUM_IOAPIC_PINS" "level_triggered (entries a ! i)"
    "\<not> masked (entries a ! i)" "\<not> irq_level a ! i"
  shows "fst (ioapic_set_irq i a) = Some (route_of (entries a ! i))"
    "in_service i (snd (ioapic_set_irq i a))"
    "route_of (entries (snd (ioapic_set_irq i a)) ! i) = route_of (entries a ! i)"
  using assms by (simp_all add: in_service_def ioapic_set_irq_def ioapic_wf_def route_of_def Let_def)

text \<open>C16 (safety).  The level-triggered protocol of a pin: asserting an idle line delivers its
  route, and a second assertion of the held line delivers nothing.  After any number of EOIs of the
  vector while the line is held, the next EOI delivers the pin exactly once more, in pin order among
  the other pins of that vector.  After the device releases the line, every EOI of the vector
  delivers those other pins exactly as before and this pin never; the first of them clears Remote
  IRR, and the next assertion delivers the route again.\<close>

theorem level_pin_protocol:
  assumes "ioapic_wf a" "i < NUM_IOAPIC_PINS" "level_triggered (entries a ! i)"
    "\<not> masked (entries a ! i)" "\<not> irq_level a ! i"
    and v: "v = rte_vector (entries a ! i)"
    and b: "b = eoi_times n v (snd (ioapic_set_irq i a))"
    and d: "d = ioapic_clear_irq i b"
    and c: "c = snd (ioapic_eoi v d)"
  shows "fst (ioapic_set_irq i a) = Some (route_of (entries a ! i)) \<and>
         ioapic_set_irq i b = (None, b) \<and>
         fst (ioapic_eoi v b) =
           redelivered v b [0..<i] @ [route_of (entries a ! i)] @ redelivered v b [Suc i..<NUM_IOAPIC_PINS] \<and>
         fst (ioapic_eoi v (eoi_times m v d)) =
           redelivered v b [0..<i] @ redelivered v b [Suc i..<NUM_IOAPIC_PINS] \<and>
         \<not> remote_irr (entries c ! i) \<and> \<not> irq_level c ! i \<and>
         fst (ioapic_set_irq i c) = Some (route_of (entries a ! i))"
proof -
  note s = set_irq_in_service [OF assms(1-5)]
  have bs: "in_service i b" and br: "route_of (entries b ! i) = route_of (entries a ! i)"
    using in_service_eoi_times [OF s(2)] s(3) by (simp_all add: b)
  have bv: "rte_vector (entries b ! i) = v" using br by (simp add: route_of_def v)
  have wf: "ioapic_wf b" and r: "redelivers v b i" using bs bv by (simp_all add: in_service_def)
  have held: "fst (ioapic_eoi v b) =
      redelivered v b [0..<i] @ [route_of (entries a ! i)] @ redelivered v b [Suc i..<NUM_IOAPIC_PINS]"
    using r br unfolding eoi_routes [OF wf] split_pins [OF assms(2)] by (simp add: redelivered_simps)
  have d': "ioapic_wf d" "entries d = entries b" "irq_level d = (irq_level b)[i := False]"
    using bs by (auto simp: d in_service_def ioapic_clear_irq_def ioapic_wf_def)
  have "\<not> irq_level d ! i" using d' assms(2) by (simp add: ioapic_wf_def)
  moreover have "redelivered v d js = redelivered v b js" if "i \<notin> set js" for js
  proof -
    have "irq_level d ! j = irq_level b ! j" if "j \<in> set js" for j
      using that \<open>i \<notin> set js\<close> d'(3) by (metis nth_list_update_neq)
    with d'(2) show ?thesis by (intro redelivered_cong) auto
  qed
  ultimately have released: "fst (ioapic_eoi v (eoi_times m v d)) =
      redelivered v b [0..<i] @ redelivered v b [Suc i..<NUM_IOAPIC_PINS]"
    unfolding eoi_times_routes [OF d'(1)] eoi_routes [OF d'(1)] split_pins [OF assms(2)]
    by (simp add: redelivered_simps)
  have "entries c ! i = fst (eoi_entry v False (entries b ! i))" "irq_level c = irq_level d"
    using eoi_at [OF d'(1) assms(2)] d' assms(2) by (simp_all add: c ioapic_wf_def)
  then have "\<not> remote_irr (entries c ! i)" "\<not> irq_level c ! i" "\<not> masked (entries c ! i)"
    "level_triggered (entries c ! i)" "route_of (entries c ! i) = route_of (entries a ! i)"
    using \<open>\<not> irq_level d ! i\<close> bs bv br by (auto simp: eoi_entry_def in_service_def route_of_def Let_def)
  with s(1) held released bs assms(2) show ?thesis
    by (auto simp: ioapic_set_irq_def in_service_def Let_def)
qed

theorem level_pin_protocol_witness:
  "let a = write_redtbl 6 0xA030 (ioapic_new 1);
       b = eoi_times 2 0x30 (snd (ioapic_set_irq 3 a));
       d = ioapic_clear_irq 3 b
   in fst (ioapic_set_irq 3 a) = Some (route_of (entries a ! 3)) \<and> ioapic_set_irq 3 b = (None, b) \<and>
      fst (ioapic_eoi 0x30 b) = [route_of (entries a ! 3)] \<and>
      fst (ioapic_eoi 0x30 (eoi_times 5 0x30 d)) = [] \<and>
      fst (ioapic_set_irq 3 (snd (ioapic_eoi 0x30 d))) = Some (route_of (entries a ! 3))"
proof -
  let ?a = "write_redtbl 6 0xA030 (ioapic_new 1)"
  let ?b = "eoi_times 2 0x30 (snd (ioapic_set_irq 3 ?a))"
  have h: "ioapic_wf ?a" "3 < NUM_IOAPIC_PINS" "level_triggered (entries ?a ! 3)"
    "\<not> masked (entries ?a ! 3)" "\<not> irq_level ?a ! 3" "0x30 = rte_vector (entries ?a ! 3)"
    by code_simp+
  have "redelivered 0x30 ?b [0..<3] = []" "redelivered 0x30 ?b [Suc 3..<NUM_IOAPIC_PINS] = []" by code_simp+
  with level_pin_protocol [OF h refl refl refl, of 2 5] show ?thesis
    by (simp only: Let_def) simp
qed

section \<open>Observations\<close>

text \<open>
  The comment of \<open>eoi\<close> describes Remote IRR as the gate that keeps a pin from being delivered
  again before its EOI.  \<open>set_irq\<close> consults only the line level, so a line that is released and
  asserted again while the first interrupt is in service is delivered a second time.
\<close>

lemma set_irq_ignores_remote_irr:
  assumes "in_service i a"
  shows "fst (ioapic_set_irq i (ioapic_clear_irq i a)) = Some (route_of (entries a ! i))"
  using assms
  by (simp add: in_service_def ioapic_set_irq_def ioapic_clear_irq_def ioapic_wf_def Let_def)

text \<open>
  An assertion of a masked pin leaves no trace: the line level is not recorded, and unmasking the
  pin while the device still drives the line delivers nothing until the next assertion.
\<close>

lemma masked_assertion_lost:
  "masked (entries a ! i) \<Longrightarrow> ioapic_set_irq i a = (None, a)"
  by (simp add: ioapic_set_irq_def)

end
