(* ===== verification/Msi.thy ===== *)
theory Msi
  imports Irq_Types
begin

text \<open>
  Message-signalled interrupts (\<open>enlil-devices/src/interrupt/msi.rs\<close>): the address/data pair a
  PCI function writes, and its fields.
\<close>

record MsiMessage =
  msi_address :: u64
  msi_data :: u32
  msi_delivery_mode :: DeliveryMode

definition msi_new :: "u64 \<Rightarrow> u32 \<Rightarrow> MsiMessage" where
  "msi_new addr dat = \<lparr>msi_address = addr, msi_data = dat,
     msi_delivery_mode = dm_from_bits (ucast (drop_bit 8 dat AND 0x7))\<rparr>"

definition msi_vector :: "MsiMessage \<Rightarrow> u8" where
  "msi_vector m = ucast (msi_data m AND 0xFF)"

definition msi_destination_id :: "MsiMessage \<Rightarrow> u8" where
  "msi_destination_id m = ucast (drop_bit 12 (msi_address m) AND 0xFF)"

definition msi_destination_mode_logical :: "MsiMessage \<Rightarrow> bool" where
  "msi_destination_mode_logical m \<longleftrightarrow> msi_address m AND bitmask 2 \<noteq> 0"

definition msi_is_level :: "MsiMessage \<Rightarrow> bool" where
  "msi_is_level m \<longleftrightarrow> msi_data m AND bitmask 15 \<noteq> 0"

definition msi_is_assert :: "MsiMessage \<Rightarrow> bool" where
  "msi_is_assert m \<longleftrightarrow> msi_data m AND bitmask 14 \<noteq> 0"

text \<open>The encoding a guest programs into a function's MSI capability.\<close>

definition msi_compose :: "u8 \<Rightarrow> bool \<Rightarrow> u8 \<Rightarrow> DeliveryMode \<Rightarrow> MsiMessage" where
  "msi_compose dest logical v m =
     msi_new (or_bit_if logical 2 (0xFEE00000 OR push_bit 12 (ucast dest)))
       (ucast v OR push_bit 8 (dm_bits m))"

lemma bit_dm_bits_beyond: "3 \<le> n \<Longrightarrow> \<not> bit (dm_bits m :: u32) n"
  using bit_dm_bits [of m n] by linarith

lemma ucast_dm_bits: "ucast (dm_bits m :: u32) = (dm_bits m :: u8)"
  by (cases m) simp_all

text \<open>Decoding an MSI message recovers the destination, the destination mode, the
  vector and the delivery mode it was composed from.\<close>

theorem msi_fields_roundtrip:
  "msi_vector (msi_compose d l v m) = v \<and>
   msi_destination_id (msi_compose d l v m) = d \<and>
   (msi_destination_mode_logical (msi_compose d l v m) \<longleftrightarrow> l) \<and>
   msi_delivery_mode (msi_compose d l v m) = m"
proof (intro conjI)
  let ?w = "ucast v OR push_bit 8 (dm_bits m) :: u32"
  show "msi_vector (msi_compose d l v m) = v"
    by (rule bit_word_eqI)
       (auto simp: msi_vector_def msi_compose_def msi_new_def and_low_ones bit_simps)
  show "msi_destination_id (msi_compose d l v m) = d"
    by (rule word_eq_by_bits)
       (simp add: msi_destination_id_def msi_compose_def msi_new_def bit_ucast_iff bit_and_iff
          bit_drop_bit_eq bit_or_iff bit_push_bit_iff upt_widths)
  show "msi_destination_mode_logical (msi_compose d l v m) \<longleftrightarrow> l"
    by (simp add: msi_destination_mode_logical_def msi_compose_def msi_new_def bit_or_iff bit_push_bit_iff)
  have "drop_bit 8 ?w AND 0x7 = (dm_bits m :: u32)"
    by (rule bit_word_eqI)
       (auto simp: and_low_ones bit_simps bit_beyond bit_dm_bits_beyond dest: bit_dm_bits)
  then show "msi_delivery_mode (msi_compose d l v m) = m"
    by (simp add: msi_compose_def msi_new_def ucast_dm_bits)
qed

end
