(* ===== verification/Controller.thy ===== *)
theory Controller
  imports Lapic Ioapic Msi Irq_Line
begin

text \<open>
  The unified interrupt controller (\<open>enlil-devices/src/interrupt/controller.rs\<close>) and the device
  lines and MMIO apertures in front of it (\<open>interrupt/line.rs\<close>): it resolves I/O APIC routes,
  MSI messages and IPIs to local APICs, broadcasts EOIs back to the I/O APIC, and decodes guest
  accesses to the two APIC pages.  The \<open>Arc<Mutex<_>>\<close> handle of the source gives each operation
  exclusive access; here each operation is a function on the controller state.
\<close>

section \<open>State and delivery\<close>

record InterruptController =
  lapics :: "LocalApic list"
  ioapic :: IoApic
  active_lapic :: u8

definition ctl_new :: "u8 \<Rightarrow> InterruptController" where
  "ctl_new num_vcpus = \<lparr>lapics = map (\<lambda>i. lapic_new (of_nat i)) [0..<unat num_vcpus],
     ioapic = ioapic_new 0, active_lapic = 0\<rparr>"

definition set_active_lapic :: "u8 \<Rightarrow> InterruptController \<Rightarrow> InterruptController" where
  "set_active_lapic vcpu c = c\<lparr>active_lapic := vcpu\<rparr>"

text \<open>The two delivery loops of the source: to every LAPIC that passes a test, and to the first of
  least task priority among those that pass.\<close>

definition deliver_all :: "(LocalApic \<Rightarrow> bool) \<Rightarrow> InterruptEntry \<Rightarrow> LocalApic list \<Rightarrow> LocalApic list" where
  "deliver_all P entry ls = map (\<lambda>l. if P l then snd (accept_interrupt entry l) else l) ls"

definition deliver_lowest :: "(LocalApic \<Rightarrow> bool) \<Rightarrow> InterruptEntry \<Rightarrow> LocalApic list \<Rightarrow> LocalApic list" where
  "deliver_lowest P entry ls =
     (case min_index P get_tpr ls of
        None \<Rightarrow> ls
      | Some idx \<Rightarrow> ls[idx := snd (accept_interrupt entry (ls ! idx))])"

definition deliver_physical :: "u8 \<Rightarrow> InterruptEntry \<Rightarrow> InterruptController \<Rightarrow> InterruptController" where
  "deliver_physical dest entry c =
     (let broadcast = (dest = 0xFF) in
      if ie_delivery_mode entry = LowestPriority
      then c\<lparr>lapics := deliver_lowest (\<lambda>l. (broadcast \<or> la_id l = dest) \<and> enabled l) entry (lapics c)\<rparr>
      else c\<lparr>lapics := deliver_all (\<lambda>l. broadcast \<or> la_id l = dest) entry (lapics c)\<rparr>)"

definition deliver_logical :: "u8 \<Rightarrow> InterruptEntry \<Rightarrow> InterruptController \<Rightarrow> InterruptController" where
  "deliver_logical dest entry c =
     (if ie_delivery_mode entry = LowestPriority
      then c\<lparr>lapics := deliver_lowest (\<lambda>l. enabled l \<and> matches_logical dest l) entry (lapics c)\<rparr>
      else c\<lparr>lapics := deliver_all (\<lambda>l. enabled l \<and> matches_logical dest l) entry (lapics c)\<rparr>)"

definition route_entry :: "InterruptRoute \<Rightarrow> InterruptEntry" where
  "route_entry r = \<lparr>ie_vector = ir_vector r, ie_delivery_mode = ir_delivery_mode r,
     ie_trigger_mode = (if ir_level_triggered r then Level else Edge), ie_level = True\<rparr>"

definition deliver_route :: "InterruptRoute \<Rightarrow> InterruptController \<Rightarrow> InterruptController" where
  "deliver_route r c =
     (if ir_dest_logical r then deliver_logical (ir_destination r) (route_entry r) c
      else deliver_physical (ir_destination r) (route_entry r) c)"

definition deliver_irq :: "u8 \<Rightarrow> InterruptController \<Rightarrow> InterruptController" where
  "deliver_irq irq c =
     (case ioapic_set_irq (unat irq) (ioapic c) of
        (None, a) \<Rightarrow> c\<lparr>ioapic := a\<rparr>
      | (Some r, a) \<Rightarrow> deliver_route r (c\<lparr>ioapic := a\<rparr>))"

definition clear_irq :: "u8 \<Rightarrow> InterruptController \<Rightarrow> InterruptController" where
  "clear_irq irq c = c\<lparr>ioapic := ioapic_clear_irq (unat irq) (ioapic c)\<rparr>"

definition deliver_msi :: "MsiMessage \<Rightarrow> InterruptController \<Rightarrow> InterruptController" where
  "deliver_msi m c =
     (let entry = \<lparr>ie_vector = msi_vector m, ie_delivery_mode = msi_delivery_mode m,
                   ie_trigger_mode = Edge, ie_level = True\<rparr>
      in if msi_destination_mode_logical m then deliver_logical (msi_destination_id m) entry c
         else deliver_physical (msi_destination_id m) entry c)"

section \<open>Inter-processor interrupts, EOI and register writes\<close>

definition send_ipi :: "u8 \<Rightarrow> u64 \<Rightarrow> InterruptController \<Rightarrow> InterruptController" where
  "send_ipi source_id icr_value c =
     (let mode = dm_from_bits (ucast (drop_bit 8 icr_value AND 0x7)) in
      if \<not> (mode = Fixed \<or> mode = LowestPriority) then c
      else
        let entry = \<lparr>ie_vector = ucast (icr_value AND 0xFF), ie_delivery_mode = mode,
                     ie_trigger_mode = Edge, ie_level = True\<rparr>;
            dest_logical = drop_bit 11 icr_value AND 1 \<noteq> 0;
            shorthand = drop_bit 18 icr_value AND 0x3;
            dest = ucast (drop_bit 56 icr_value AND 0xFF)
        in if shorthand = 1 then
             c\<lparr>lapics := update_first (\<lambda>l. la_id l = source_id) (\<lambda>l. snd (accept_interrupt entry l)) (lapics c)\<rparr>
           else if shorthand = 2 then deliver_physical 0xFF entry c
           else if shorthand = 3 then
             if mode = LowestPriority
             then c\<lparr>lapics := deliver_lowest (\<lambda>l. la_id l \<noteq> source_id \<and> enabled l) entry (lapics c)\<rparr>
             else c\<lparr>lapics := deliver_all (\<lambda>l. la_id l \<noteq> source_id) entry (lapics c)\<rparr>
           else if dest_logical then deliver_logical dest entry c
           else deliver_physical dest entry c)"

definition lapic_of :: "u8 \<Rightarrow> InterruptController \<Rightarrow> LocalApic option" where
  "lapic_of vcpu_id c = List.find (\<lambda>l. la_id l = vcpu_id) (lapics c)"

definition update_lapic :: "u8 \<Rightarrow> (LocalApic \<Rightarrow> LocalApic) \<Rightarrow> InterruptController \<Rightarrow> InterruptController" where
  "update_lapic vcpu_id f c = c\<lparr>lapics := update_first (\<lambda>l. la_id l = vcpu_id) f (lapics c)\<rparr>"

definition ctl_eoi :: "u8 \<Rightarrow> u8 \<Rightarrow> InterruptController \<Rightarrow> InterruptController" where
  "ctl_eoi vcpu_id vector c =
     (let c1 = update_lapic vcpu_id handle_eoi c in
      case ioapic_eoi vector (ioapic c1) of
        (rs, a) \<Rightarrow> fold deliver_route rs (c1\<lparr>ioapic := a\<rparr>))"

definition write_lapic :: "u8 \<Rightarrow> u32 \<Rightarrow> u32 \<Rightarrow> InterruptController \<Rightarrow> InterruptController" where
  "write_lapic vcpu_id off value c =
     (if off = LAPIC_EOI then
        (case Option.bind (lapic_of vcpu_id c) in_service_vector of
           None \<Rightarrow> c
         | Some v \<Rightarrow> ctl_eoi vcpu_id v c)
      else case lapic_of vcpu_id c of
        None \<Rightarrow> c
      | Some l \<Rightarrow>
          let l' = lapic_write_register off value l;
              c1 = update_lapic vcpu_id (lapic_write_register off value) c
          in if off = LAPIC_ICR_LOW then send_ipi (la_id l') (icr l') c1 else c1)"

definition has_pending :: "u8 \<Rightarrow> InterruptController \<Rightarrow> bool" where
  "has_pending vcpu_id c =
     (case lapic_of vcpu_id c of None \<Rightarrow> False | Some l \<Rightarrow> pending_interrupt l \<noteq> None)"

definition ctl_pending_vector :: "u8 \<Rightarrow> InterruptController \<Rightarrow> u8 option" where
  "ctl_pending_vector vcpu_id c = Option.bind (lapic_of vcpu_id c) pending_interrupt"

section \<open>Device lines and MMIO apertures\<close>

definition isa_to_gsi :: "u8 \<Rightarrow> u32" where
  "isa_to_gsi isa = (case map_of [(0, 2)] isa of Some gsi \<Rightarrow> gsi | None \<Rightarrow> ucast isa)"

definition ctl_line :: "u8 \<Rightarrow> bool \<Rightarrow> InterruptController \<Rightarrow> InterruptController" where
  "ctl_line irq level c = (if level then deliver_irq irq c else clear_irq irq c)"

text \<open>\<open>u8::try_from(..).unwrap_or(isa_irq)\<close>\<close>

definition isa_line :: "u8 \<Rightarrow> bool \<Rightarrow> InterruptController \<Rightarrow> InterruptController" where
  "isa_line isa = (let gsi = isa_to_gsi isa in ctl_line (if gsi < 256 then ucast gsi else isa))"

definition IOAPIC_BASE :: u64 where "IOAPIC_BASE = 0xFEC00000"
definition LAPIC_BASE :: u64 where "LAPIC_BASE = 0xFEE00000"
definition IOAPIC_MMIO_SIZE :: u64 where "IOAPIC_MMIO_SIZE = 0x1000"
definition LAPIC_MMIO_SIZE :: u64 where "LAPIC_MMIO_SIZE = 0x1000"

definition ioapic_page_read :: "u64 \<Rightarrow> InterruptController \<Rightarrow> u64" where
  "ioapic_page_read off c = ucast (ioapic_mmio_read off (ioapic c))"

definition ioapic_page_write :: "u64 \<Rightarrow> u64 \<Rightarrow> InterruptController \<Rightarrow> InterruptController" where
  "ioapic_page_write off dat c = c\<lparr>ioapic := ioapic_mmio_write off (ucast dat) (ioapic c)\<rparr>"

definition lapic_page_read :: "u8 \<Rightarrow> u64 \<Rightarrow> InterruptController \<Rightarrow> u64" where
  "lapic_page_read vcpu_id off c =
     (case lapic_of vcpu_id c of None \<Rightarrow> 0 | Some l \<Rightarrow> ucast (lapic_read_register (ucast off) l))"

definition lapic_page_write :: "u8 \<Rightarrow> u64 \<Rightarrow> u64 \<Rightarrow> InterruptController \<Rightarrow> InterruptController" where
  "lapic_page_write vcpu_id off dat c = write_lapic vcpu_id (ucast off) (ucast dat) c"

definition shared_lapic_read :: "u64 \<Rightarrow> InterruptController \<Rightarrow> u64" where
  "shared_lapic_read off c = lapic_page_read (active_lapic c) off c"

definition shared_lapic_write :: "u64 \<Rightarrow> u64 \<Rightarrow> InterruptController \<Rightarrow> InterruptController" where
  "shared_lapic_write off dat c = lapic_page_write (active_lapic c) off dat c"

definition ctl_wf :: "InterruptController \<Rightarrow> bool" where
  "ctl_wf c \<longleftrightarrow> ioapic_wf (ioapic c) \<and> list_all lapic_wf (lapics c)"

section \<open>Deliveries only add requests\<close>

text \<open>
  \<open>grows l l'\<close>: the LAPIC \<open>l'\<close> is \<open>l\<close> after some deliveries; identity, enable bit, task priority and
  the interrupts in service are unchanged, and no request is lost.
\<close>

definition grows :: "LocalApic \<Rightarrow> LocalApic \<Rightarrow> bool" where
  "grows l l' \<longleftrightarrow> la_id l' = la_id l \<and> enabled l' = enabled l \<and> tpr l' = tpr l \<and> la_isr l' = la_isr l \<and>
     (lapic_wf l \<longrightarrow> lapic_wf l' \<and> (\<forall>v. vec_in (la_irr l) v \<longrightarrow> vec_in (la_irr l') v))"

lemma grows_refl [simp]: "grows l l"
  by (simp add: grows_def)

lemma grows_trans [trans]: "grows l m \<Longrightarrow> grows m n \<Longrightarrow> grows l n"
  by (auto simp: grows_def)

lemma grows_accept: "grows l (snd (accept_interrupt e l))"
proof -
  have "lapic_wf l \<Longrightarrow> vec_in (la_irr l) v \<Longrightarrow> vec_in (la_irr (snd (accept_interrupt e l))) v" for v
    by (simp add: accept_interrupt_def Let_def lapic_wf_def)
  moreover have "lapic_wf l \<Longrightarrow> lapic_wf (snd (accept_interrupt e l))" by (simp add: lapic_wf_def)
  ultimately show ?thesis
    by (simp add: grows_def)
qed

lemma accept_requests:
  assumes "lapic_wf l" "enabled l" "16 \<le> ie_vector e"
  shows "vec_in (la_irr (snd (accept_interrupt e l))) (ie_vector e)"
  using assms by (simp add: accept_interrupt_def Let_def lapic_wf_def not_less [symmetric])

abbreviation all_grow :: "LocalApic list \<Rightarrow> LocalApic list \<Rightarrow> bool" where
  "all_grow \<equiv> list_all2 grows"

lemma all_grow_refl [simp]: "all_grow ls ls"
  by (simp add: list.rel_refl)

lemma all_grow_trans: "all_grow ls ms \<Longrightarrow> all_grow ms ns \<Longrightarrow> all_grow ls ns"
  by (rule list_all2_trans [of grows grows grows, OF grows_trans])

lemma deliver_all_grows: "all_grow ls (deliver_all P e ls)"
  by (simp add: deliver_all_def list_all2_conv_all_nth grows_accept)

lemma deliver_lowest_grows: "all_grow ls (deliver_lowest P e ls)"
proof (cases "min_index P get_tpr ls")
  case (Some i)
  then have "i < length ls" by (blast dest: min_index_SomeD)
  with Some show ?thesis
    by (auto simp: deliver_lowest_def list_all2_conv_all_nth nth_list_update grows_accept)
qed (simp add: deliver_lowest_def)

lemma update_first_grows: "(\<And>l. grows l (f l)) \<Longrightarrow> all_grow ls (update_first P f ls)"
  by (induction ls) auto

lemma deliver_physical_grows: "all_grow (lapics c) (lapics (deliver_physical d e c))"
  by (simp add: deliver_physical_def Let_def deliver_all_grows deliver_lowest_grows)

lemma deliver_logical_grows: "all_grow (lapics c) (lapics (deliver_logical d e c))"
  by (simp add: deliver_logical_def deliver_all_grows deliver_lowest_grows)

lemma deliver_route_grows: "all_grow (lapics c) (lapics (deliver_route r c))"
  by (simp add: deliver_route_def deliver_physical_grows deliver_logical_grows)

lemma deliver_routes_grow: "all_grow (lapics c) (lapics (fold deliver_route rs c))"
  by (induction rs arbitrary: c) (auto intro: all_grow_trans deliver_route_grows)

lemma send_ipi_grows: "all_grow (lapics c) (lapics (send_ipi s i c))"
  by (simp add: send_ipi_def Let_def deliver_physical_grows deliver_logical_grows deliver_all_grows
      deliver_lowest_grows update_first_grows grows_accept)

lemma deliver_ioapic [simp]:
  "ioapic (deliver_physical d e c) = ioapic c" "ioapic (deliver_logical d e c) = ioapic c"
  "ioapic (deliver_route r c) = ioapic c"
  by (simp_all add: deliver_physical_def deliver_logical_def deliver_route_def Let_def)

lemma deliver_routes_ioapic [simp]: "ioapic (fold deliver_route rs c) = ioapic c"
  by (induction rs arbitrary: c) auto

lemma all_grow_find:
  "all_grow ls ms \<Longrightarrow> List.find (\<lambda>l. la_id l = d) ls = Some l \<Longrightarrow>
   \<exists>m. List.find (\<lambda>l. la_id l = d) ms = Some m \<and> grows l m"
  by (induction rule: list_all2_induct) (auto simp: grows_def split: if_splits)

lemma all_grow_lapic_of:
  "all_grow (lapics c) (lapics c') \<Longrightarrow> lapic_of d c = Some l \<Longrightarrow>
   \<exists>m. lapic_of d c' = Some m \<and> grows l m"
  unfolding lapic_of_def by (rule all_grow_find)

lemma all_grow_wf: "all_grow ls ms \<Longrightarrow> list_all lapic_wf ls \<Longrightarrow> list_all lapic_wf ms"
  by (induction rule: list_all2_induct) (auto simp: grows_def)

lemma lapic_of_id: "lapic_of d c = Some l \<Longrightarrow> la_id l = d \<and> l \<in> set (lapics c)"
  by (auto simp: lapic_of_def find_Some_iff)

lemma lapic_of_wf: "lapic_of d c = Some l \<Longrightarrow> list_all lapic_wf (lapics c) \<Longrightarrow> lapic_wf l"
  by (auto simp: list_all_iff dest: lapic_of_id)

lemma lapic_of_update:
  "(\<And>l. la_id (f l) = la_id l) \<Longrightarrow> lapic_of d (update_lapic d f c) = map_option f (lapic_of d c)"
  by (simp add: lapic_of_def update_lapic_def find_update_first)

lemma update_first_wf: "(\<And>l. lapic_wf l \<Longrightarrow> lapic_wf (f l)) \<Longrightarrow> list_all lapic_wf ls \<Longrightarrow>
   list_all lapic_wf (update_first P f ls)"
  by (induction ls) auto

lemma find_map_same:
  "(\<And>x. P (f x) = P x) \<Longrightarrow> List.find P (map f xs) = map_option f (List.find P xs)"
  by (induction xs) auto

lemma lapic_of_deliver_all:
  "lapics c' = deliver_all P e (lapics c) \<Longrightarrow>
   lapic_of d c' = map_option (\<lambda>l. if P l then snd (accept_interrupt e l) else l) (lapic_of d c)"
  using grows_accept [of _ e] unfolding lapic_of_def deliver_all_def
  by (auto intro!: find_map_same simp: grows_def)

lemma handle_eoi_frame [simp]:
  "la_id (handle_eoi l) = la_id l" "la_irr (handle_eoi l) = la_irr l" "enabled (handle_eoi l) = enabled l"
  by (simp_all add: handle_eoi_def split: option.split)

section \<open>Edge-triggered pins\<close>

text \<open>The request of a vector at the LAPIC with a given identity.\<close>

definition lapic_requests :: "u8 \<Rightarrow> u8 \<Rightarrow> InterruptController \<Rightarrow> bool" where
  "lapic_requests d v c \<longleftrightarrow> (\<exists>l. lapic_of d c = Some l \<and> vec_in (la_irr l) v)"

definition lapic_listens :: "u8 \<Rightarrow> InterruptController \<Rightarrow> bool" where
  "lapic_listens d c \<longleftrightarrow> (\<exists>l. lapic_of d c = Some l \<and> enabled l)"

text \<open>Pin \<open>irq\<close> is unmasked and routed to the LAPIC \<open>d\<close> by a Fixed, physical entry.\<close>

definition pin_routes :: "u8 \<Rightarrow> u8 \<Rightarrow> u8 \<Rightarrow> IoApic \<Rightarrow> bool" where
  "pin_routes irq d v a \<longleftrightarrow> unat irq < NUM_IOAPIC_PINS \<and>
     (let e = entries a ! unat irq in
      \<not> masked e \<and> rte_delivery_mode e = Fixed \<and> \<not> dest_logical (flags e) \<and> destination e = d \<and>
      rte_vector e = v)"

definition edge_pin :: "u8 \<Rightarrow> u8 \<Rightarrow> u8 \<Rightarrow> InterruptController \<Rightarrow> bool" where
  "edge_pin irq d v c \<longleftrightarrow> ctl_wf c \<and> lapic_listens d c \<and> 16 \<le> v \<and> pin_routes irq d v (ioapic c) \<and>
     \<not> level_triggered (entries (ioapic c) ! unat irq)"

lemma all_grow_requests:
  assumes "all_grow (lapics c) (lapics c')" "list_all lapic_wf (lapics c)"
  shows "lapic_requests d v c \<Longrightarrow> lapic_requests d v c'" "lapic_listens d c \<Longrightarrow> lapic_listens d c'"
  using all_grow_lapic_of [OF assms(1), of d] lapic_of_wf [OF _ assms(2), of d]
  by (fastforce simp: lapic_requests_def lapic_listens_def grows_def)+

lemma deliver_physical_requests:
  assumes "list_all lapic_wf (lapics c)" "lapic_listens d c" "ie_delivery_mode e = Fixed" "16 \<le> ie_vector e"
    "dest = d \<or> dest = 0xFF"
  shows "lapic_requests d (ie_vector e) (deliver_physical dest e c)"
proof -
  obtain l where l: "lapic_of d c = Some l" "enabled l" using assms(2) by (auto simp: lapic_listens_def)
  have "lapic_of d (deliver_physical dest e c) = Some (snd (accept_interrupt e l))"
    using l assms(3,5) lapic_of_id [OF l(1)]
    by (subst lapic_of_deliver_all [where c = c and e = e and P = "\<lambda>l. dest = 0xFF \<or> la_id l = dest"])
       (auto simp: deliver_physical_def Let_def)
  then show ?thesis
    using accept_requests [OF lapic_of_wf [OF l(1) assms(1)] l(2) assms(4)]
    by (simp add: lapic_requests_def)
qed

lemma deliver_route_requests:
  assumes "list_all lapic_wf (lapics c)" "lapic_listens d c" "ir_delivery_mode r = Fixed"
    "16 \<le> ir_vector r" "\<not> ir_dest_logical r" "ir_destination r = d"
  shows "lapic_requests d (ir_vector r) (deliver_route r c)"
  using deliver_physical_requests [OF assms(1,2), of "route_entry r" "ir_destination r"] assms
  by (simp add: deliver_route_def route_entry_def)

lemma set_irq_edge:
  "irq < NUM_IOAPIC_PINS \<Longrightarrow> \<not> masked (entries a ! irq) \<Longrightarrow> \<not> level_triggered (entries a ! irq) \<Longrightarrow>
   ioapic_set_irq irq a = (Some (route_of (entries a ! irq)), a)"
  by (simp add: ioapic_set_irq_def Let_def)

interpretation ioapic_pin: edge_line "edge_pin irq d v" "lapic_requests d v" "ctl_line irq" for irq d v
proof
  fix c and l :: bool
  assume r: "edge_pin irq d v c"
  then have wf: "list_all lapic_wf (lapics c)" and pin: "pin_routes irq d v (ioapic c)"
    and edge: "\<not> level_triggered (entries (ioapic c) ! unat irq)"
    by (simp_all add: edge_pin_def ctl_wf_def)
  let ?r = "route_of (entries (ioapic c) ! unat irq)"
  have up: "ctl_line irq True c = deliver_route ?r c"
    using pin edge by (simp add: ctl_line_def deliver_irq_def set_irq_edge pin_routes_def Let_def)
  have grow: "all_grow (lapics c) (lapics (ctl_line irq l c))"
    using deliver_route_grows [of c ?r] up by (cases l) (simp_all add: ctl_line_def clear_irq_def)
  have io: "entries (ioapic (ctl_line irq l c)) = entries (ioapic c) \<and> ioapic_wf (ioapic (ctl_line irq l c))"
    using r up ioapic_clear_irq_wf [of "ioapic c"]
    by (cases l) (simp_all add: ctl_line_def clear_irq_def ioapic_clear_irq_def edge_pin_def ctl_wf_def)
  show "edge_pin irq d v (ctl_line irq l c)"
    using r grow io all_grow_wf [OF grow wf] all_grow_requests(2) [OF grow wf]
    by (simp add: edge_pin_def ctl_wf_def pin_routes_def)
  show "lapic_requests d v (ctl_line irq True c)"
    using deliver_route_requests [of c d ?r] r
    by (simp add: up edge_pin_def pin_routes_def Let_def route_of_def ctl_wf_def)
  assume "lapic_requests d v c"
  then show "lapic_requests d v (ctl_line irq l c)"
    by (rule all_grow_requests(1) [OF grow wf])
qed

section \<open>Correctness of delivery\<close>

text \<open>The LAPICs a destination addresses.\<close>

definition addressed :: "bool \<Rightarrow> u8 \<Rightarrow> LocalApic \<Rightarrow> bool" where
  "addressed logical dest l \<longleftrightarrow>
     enabled l \<and> (if logical then matches_logical dest l else dest = 0xFF \<or> la_id l = dest)"

lemma deliver_lowest_cases:
  "(\<forall>l \<in> set ls. \<not> P l) \<and> deliver_lowest P e ls = ls \<or>
   (\<exists>i < length ls. P (ls ! i) \<and> (\<forall>l \<in> set ls. P l \<longrightarrow> get_tpr (ls ! i) \<le> get_tpr l) \<and>
      (\<forall>k < i. P (ls ! k) \<longrightarrow> get_tpr (ls ! i) < get_tpr (ls ! k)) \<and>
      deliver_lowest P e ls = ls[i := snd (accept_interrupt e (ls ! i))])"
proof (cases "min_index P get_tpr ls")
  case None
  then have "\<forall>l \<in> set ls. \<not> P l" by (simp only: min_index_None_iff)
  with None show ?thesis by (simp add: deliver_lowest_def)
next
  case (Some i)
  with min_index_SomeD [OF Some] show ?thesis by (auto simp: deliver_lowest_def)
qed

text \<open>C19 (functional).  Lowest-priority delivery, physical or logical, reaches exactly one LAPIC:
  among the enabled LAPICs the destination addresses, the first one of least task priority accepts
  the interrupt and no other LAPIC changes; if none is addressed nothing changes.\<close>

theorem lowest_priority_delivery:
  assumes "ie_delivery_mode e = LowestPriority"
  shows "let c' = (if logical then deliver_logical dest e c else deliver_physical dest e c);
             P = addressed logical dest; ls = lapics c
         in (\<forall>l \<in> set ls. \<not> P l) \<and> c' = c \<or>
            (\<exists>i < length ls. P (ls ! i) \<and> (\<forall>l \<in> set ls. P l \<longrightarrow> get_tpr (ls ! i) \<le> get_tpr l) \<and>
               (\<forall>k < i. P (ls ! k) \<longrightarrow> get_tpr (ls ! i) < get_tpr (ls ! k)) \<and>
               c' = c\<lparr>lapics := ls[i := snd (accept_interrupt e (ls ! i))]\<rparr>)"
proof -
  have "(if logical then deliver_logical dest e c else deliver_physical dest e c) =
      c\<lparr>lapics := deliver_lowest (addressed logical dest) e (lapics c)\<rparr>"
    using assms by (auto simp: deliver_logical_def deliver_physical_def Let_def addressed_def
        intro!: arg_cong2 [where f = "\<lambda>P ls. c\<lparr>lapics := deliver_lowest P e ls\<rparr>"])
  then show ?thesis
    using deliver_lowest_cases [of "lapics c" "addressed logical dest" e]
    by (simp only: Let_def) auto
qed

definition two_cpus :: InterruptController where
  "two_cpus =
     write_lapic 1 LAPIC_SVR 0x1FF (write_lapic 0 LAPIC_TPR 0x50 (write_lapic 0 LAPIC_SVR 0x1FF (ctl_new 2)))"

definition lowest_61 :: InterruptEntry where
  "lowest_61 = \<lparr>ie_vector = 0x61, ie_delivery_mode = LowestPriority, ie_trigger_mode = Edge, ie_level = True\<rparr>"

theorem lowest_priority_delivery_witness:
  "map (\<lambda>l. vec_in (la_irr l) 0x61) (lapics (deliver_physical 0xFF lowest_61 two_cpus)) = [False, True] \<and>
   (\<exists>i < 2. deliver_physical 0xFF lowest_61 two_cpus =
      two_cpus\<lparr>lapics := (lapics two_cpus)[i := snd (accept_interrupt lowest_61 (lapics two_cpus ! i))]\<rparr>)"
proof -
  have "length (lapics two_cpus) = 2" "list_ex (addressed False 0xFF) (lapics two_cpus)"
    "ie_delivery_mode lowest_61 = LowestPriority"
    and m: "map (\<lambda>l. vec_in (la_irr l) 0x61) (lapics (deliver_physical 0xFF lowest_61 two_cpus)) = [False, True]"
    by code_simp+
  then have "\<exists>i < 2. deliver_physical 0xFF lowest_61 two_cpus =
      two_cpus\<lparr>lapics := (lapics two_cpus)[i := snd (accept_interrupt lowest_61 (lapics two_cpus ! i))]\<rparr>"
    using lowest_priority_delivery [of lowest_61 False "0xFF" two_cpus, unfolded Let_def]
    by (auto simp: list_ex_iff)
  with m show ?thesis by (simp only: simp_thms)
qed

lemma update_first_map:
  "distinct (map k ls) \<Longrightarrow> update_first (\<lambda>l. k l = d) f ls = map (\<lambda>l. if k l = d then f l else l) ls"
proof (induction ls)
  case (Cons l ls)
  show ?case
  proof (cases "k l = d")
    case True
    with Cons.prems have "map (\<lambda>x. if k x = d then f x else x) ls = ls" by (intro map_idI) (auto simp: image_iff)
    with True show ?thesis by simp
  qed (use Cons in simp)
qed simp

text \<open>The LAPICs a fixed IPI addresses, by the destination shorthand of the command register.\<close>

definition ipi_target :: "u8 \<Rightarrow> u64 \<Rightarrow> LocalApic \<Rightarrow> bool" where
  "ipi_target source icr_value l =
     (let shorthand = drop_bit 18 icr_value AND 0x3;
          dest = ucast (drop_bit 56 icr_value AND 0xFF) in
      enabled l \<and>
      (if shorthand = 1 then la_id l = source
       else if shorthand = 2 then True
       else if shorthand = 3 then la_id l \<noteq> source
       else addressed (bit icr_value 11) dest l))"

lemma accept_disabled: "\<not> enabled l \<Longrightarrow> snd (accept_interrupt e l) = l"
  by (simp add: accept_interrupt_def)

text \<open>C20 (functional).  A Fixed inter-processor interrupt, on a controller whose local APICs have distinct
  ids: exactly the enabled LAPICs selected by the
  destination shorthand (self, all, all but self) or, without one, by the destination field and
  mode, accept the vector edge triggered; the others and the I/O APIC are unchanged.  Delivery
  modes that are not vectored change nothing.\<close>

theorem ipi_delivery:
  assumes "distinct (map la_id (lapics c))"
  shows "let mode = dm_from_bits (ucast (drop_bit 8 i AND 0x7));
             e = edge_entry (ucast (i AND 0xFF))
         in (mode = Fixed \<longrightarrow> send_ipi s i c =
               c\<lparr>lapics := map (\<lambda>l. if ipi_target s i l then snd (accept_interrupt e l) else l) (lapics c)\<rparr>) \<and>
            (mode \<notin> {Fixed, LowestPriority} \<longrightarrow> send_ipi s i c = c)"
proof -
  let ?e = "edge_entry (ucast (i AND 0xFF))"
  have e: "\<lparr>ie_vector = ucast (i AND 0xFF), ie_delivery_mode = Fixed, ie_trigger_mode = Edge, ie_level = True\<rparr> = ?e"
    and m: "ie_delivery_mode ?e = Fixed"
    by (simp_all add: edge_entry_def)
  have b: "drop_bit 11 i AND 1 \<noteq> 0 \<longleftrightarrow> bit i 11" by (rule bit_drop_and_1)
  show ?thesis
    unfolding Let_def send_ipi_def e [symmetric] b
    using update_first_map [OF assms, of s "\<lambda>l. snd (accept_interrupt ?e l)"]
    by (auto simp: e m deliver_physical_def deliver_logical_def deliver_all_def ipi_target_def addressed_def
        Let_def accept_disabled intro!: InterruptController.equality)
qed

theorem ipi_delivery_witness:
  "distinct (map la_id (lapics two_cpus)) \<and>
   send_ipi 0 0xC0041 two_cpus =
     two_cpus\<lparr>lapics := map (\<lambda>l. if ipi_target 0 0xC0041 l then snd (accept_interrupt (edge_entry 0x41) l)
                                 else l) (lapics two_cpus)\<rparr> \<and>
   map (\<lambda>l. vec_in (la_irr l) 0x41) (lapics (send_ipi 0 0xC0041 two_cpus)) = [False, True]"
proof -
  have d: "distinct (map la_id (lapics two_cpus))"
    and m: "dm_from_bits (ucast (drop_bit 8 (0xC0041 :: u64) AND 0x7)) = Fixed"
    and v: "(ucast ((0xC0041 :: u64) AND 0xFF) :: u8) = 0x41"
    and r: "map (\<lambda>l. vec_in (la_irr l) 0x41) (lapics (send_ipi 0 0xC0041 two_cpus)) = [False, True]"
    by code_simp+
  have "send_ipi 0 0xC0041 two_cpus =
     two_cpus\<lparr>lapics := map (\<lambda>l. if ipi_target 0 0xC0041 l then snd (accept_interrupt (edge_entry 0x41) l)
                                 else l) (lapics two_cpus)\<rparr>"
    using ipi_delivery [OF d, of "0xC0041" 0] by (simp only: Let_def m v simp_thms)
  with d r show ?thesis by (intro conjI)
qed

section \<open>A level-triggered line from device to EOI\<close>

text \<open>An acknowledge cycle of the virtual CPU \<open>d\<close>.\<close>

definition ctl_ack :: "u8 \<Rightarrow> InterruptController \<Rightarrow> u8 option \<times> InterruptController" where
  "ctl_ack d c =
     (case lapic_of d c of
        None \<Rightarrow> (None, c)
      | Some l \<Rightarrow> (fst (accept_highest_interrupt l),
                   update_lapic d (\<lambda>l. snd (accept_highest_interrupt l)) c))"

definition level_pin :: "u8 \<Rightarrow> u8 \<Rightarrow> u8 \<Rightarrow> InterruptController \<Rightarrow> bool" where
  "level_pin irq d v c \<longleftrightarrow> ctl_wf c \<and> lapic_listens d c \<and> 16 \<le> v \<and> pin_routes irq d v (ioapic c) \<and>
     level_triggered (entries (ioapic c) ! unat irq)"

lemma accept_highest_frame [simp]:
  "la_id (snd (accept_highest_interrupt l)) = la_id l" "enabled (snd (accept_highest_interrupt l)) = enabled l"
  "lapic_wf l \<Longrightarrow> lapic_wf (snd (accept_highest_interrupt l))"
  by (simp_all add: accept_highest_interrupt_def start_servicing_def lapic_wf_def split: option.split)

lemma accept_highest_in_service:
  assumes "lapic_wf l" "accept_highest_interrupt l = (Some v, l')"
  shows "in_service_vector l' = Some v" "\<not> vec_in (la_irr l') v"
proof -
  have p: "pending_interrupt l = Some v" and l': "l' = start_servicing v l"
    using assms(2) by (auto simp: accept_highest_interrupt_def split: option.splits)
  have len: "length (la_isr l) = 8" "length (la_irr l) = 8" "tpr l < 256"
    using assms(1) by (simp_all add: lapic_wf_def)
  show "in_service_vector l' = Some v"
    using pending_above [OF len(3) p]
    by (auto simp: in_service_vector_def highest_bit_Some_iff l' start_servicing_def len less_imp_le)
  show "\<not> vec_in (la_irr l') v" by (simp add: l' start_servicing_def len)
qed

lemma update_lapic_wf:
  "(\<And>l. lapic_wf l \<Longrightarrow> lapic_wf (f l)) \<Longrightarrow> ctl_wf c \<Longrightarrow> ctl_wf (update_lapic d f c)"
  by (simp add: ctl_wf_def update_lapic_def update_first_wf)

lemma eoi_write:
  assumes "lapic_of d c = Some l" "in_service_vector l = Some v"
  shows "write_lapic d LAPIC_EOI x c = ctl_eoi d v c"
  using assms by (simp add: write_lapic_def)

lemma ioapic_update_lapic [simp]: "ioapic (update_lapic d f c) = ioapic c"
  by (simp add: update_lapic_def)

text \<open>The EOI of a held, in-service level pin requests the vector again.\<close>

lemma eoi_held_requests:
  assumes wf: "ctl_wf c" and lis: "lapic_listens d c" and v: "16 \<le> v"
    and pin: "pin_routes irq d v (ioapic c)" and svc: "in_service (unat irq) (ioapic c)"
  shows "lapic_requests d v (ctl_eoi d v c)"
proof -
  let ?c1 = "update_lapic d handle_eoi c"
  let ?e = "entries (ioapic c) ! unat irq"
  obtain rs a where eoi: "ioapic_eoi v (ioapic c) = (rs, a)" by fastforce
  have "redelivers v (ioapic c) (unat irq)"
    using svc pin by (simp add: in_service_def pin_routes_def Let_def)
  then have "route_of ?e \<in> set rs"
    using route_in_eoi [of "ioapic c" "unat irq" v] svc eoi by (simp add: in_service_def)
  then obtain xs ys where rs: "rs = xs @ route_of ?e # ys" by (auto dest: split_list)
  let ?b = "fold deliver_route xs (?c1\<lparr>ioapic := a\<rparr>)"
  have wf1: "list_all lapic_wf (lapics ?c1)"
    using update_lapic_wf [OF handle_eoi_wf wf] by (simp add: ctl_wf_def)
  have "lapic_listens d ?c1"
    using lis by (auto simp: lapic_listens_def lapic_of_update)
  then have "lapic_listens d (?c1\<lparr>ioapic := a\<rparr>)" by (simp add: lapic_listens_def lapic_of_def)
  moreover have g: "all_grow (lapics ?c1) (lapics ?b)"
    using deliver_routes_grow [of "?c1\<lparr>ioapic := a\<rparr>" xs] by simp
  ultimately have b: "lapic_listens d ?b" "list_all lapic_wf (lapics ?b)"
    using all_grow_requests(2) [of "?c1\<lparr>ioapic := a\<rparr>" ?b] all_grow_wf [OF g] wf1 by simp_all
  have "lapic_requests d v (deliver_route (route_of ?e) ?b)"
    using deliver_route_requests [OF b(2,1), of "route_of ?e"] pin v
    by (simp add: route_of_def pin_routes_def Let_def)
  moreover have "list_all lapic_wf (lapics (deliver_route (route_of ?e) ?b))"
    by (rule all_grow_wf [OF deliver_route_grows b(2)])
  ultimately have "lapic_requests d v (fold deliver_route ys (deliver_route (route_of ?e) ?b))"
    using all_grow_requests(1) [OF deliver_routes_grow] by blast
  then show ?thesis by (simp add: ctl_eoi_def eoi rs)
qed

lemma deliver_irq_level:
  assumes pin: "level_pin irq d v c" and low: "\<not> irq_level (ioapic c) ! unat irq"
  shows "level_pin irq d v (deliver_irq irq c)" "in_service (unat irq) (ioapic (deliver_irq irq c))"
    "lapic_requests d v (deliver_irq irq c)"
proof -
  let ?i = "unat irq" and ?r = "route_of (entries (ioapic c) ! unat irq)"
  define a where "a = snd (ioapic_set_irq ?i (ioapic c))"
  have e: "ioapic_wf (ioapic c)" "?i < NUM_IOAPIC_PINS" "level_triggered (entries (ioapic c) ! ?i)"
    "\<not> masked (entries (ioapic c) ! ?i)" and wf: "list_all lapic_wf (lapics c)"
    using pin by (simp_all add: level_pin_def ctl_wf_def pin_routes_def Let_def)
  note s = set_irq_in_service [OF e low, folded a_def]
  have c1: "deliver_irq irq c = deliver_route ?r (c\<lparr>ioapic := a\<rparr>)"
    using s(1) by (auto simp: deliver_irq_def a_def split: prod.split)
  have lis: "lapic_listens d (c\<lparr>ioapic := a\<rparr>)"
    using pin by (simp add: level_pin_def lapic_listens_def lapic_of_def)
  have g: "all_grow (lapics (c\<lparr>ioapic := a\<rparr>)) (lapics (deliver_irq irq c))"
    unfolding c1 by (rule deliver_route_grows)
  show svc: "in_service ?i (ioapic (deliver_irq irq c))" using s(2) by (simp add: c1)
  have "pin_routes irq d v a"
    using pin s(2,3) by (simp add: level_pin_def pin_routes_def Let_def in_service_def route_of_def)
  then show "level_pin irq d v (deliver_irq irq c)"
    using pin svc lis all_grow_wf [OF g] wf all_grow_requests(2) [OF g]
    by (simp add: level_pin_def in_service_def ctl_wf_def) (simp add: c1)
  show "lapic_requests d v (deliver_irq irq c)"
    using deliver_route_requests [OF _ lis, of ?r] pin wf
    by (simp add: c1 route_of_def level_pin_def pin_routes_def Let_def)
qed

lemma ctl_ack_Some:
  assumes "ctl_wf c" "ctl_ack d c = (Some v, c')"
  shows "\<exists>l. lapic_of d c' = Some l \<and> in_service_vector l = Some v \<and> \<not> vec_in (la_irr l) v"
    and "ctl_wf c'" "ioapic c' = ioapic c" "lapic_listens d c \<Longrightarrow> lapic_listens d c'"
proof -
  let ?f = "\<lambda>l. snd (accept_highest_interrupt l)"
  obtain l where l: "lapic_of d c = Some l" "fst (accept_highest_interrupt l) = Some v"
    and c': "c' = update_lapic d ?f c"
    using assms(2) by (auto simp: ctl_ack_def split: option.splits)
  have of': "lapic_of d c' = Some (?f l)" by (simp add: c' lapic_of_update l)
  have "lapic_wf l" using assms(1) l(1) by (auto simp: ctl_wf_def dest: lapic_of_wf)
  then show "\<exists>l. lapic_of d c' = Some l \<and> in_service_vector l = Some v \<and> \<not> vec_in (la_irr l) v"
    using accept_highest_in_service [of l v "?f l"] l(2) of' by (metis prod.collapse)
  show "ctl_wf c'" unfolding c' by (rule update_lapic_wf) (simp_all add: assms)
  show "ioapic c' = ioapic c" by (simp add: c')
  show "lapic_listens d c'" if "lapic_listens d c" using that l of' by (auto simp: lapic_listens_def)
qed

lemma eoi_released_no_request:
  assumes "ctl_wf c" "lapic_of d c = Some l" "\<not> vec_in (la_irr l) v"
    "\<And>j. j < NUM_IOAPIC_PINS \<Longrightarrow> \<not> redelivers v (ioapic c) j"
  shows "\<not> lapic_requests d v (ctl_eoi d v c)"
proof -
  obtain a where "ioapic_eoi v (ioapic c) = ([], a)"
    using eoi_no_route [of "ioapic c" v] assms(1,4) by (metis ctl_wf_def prod.collapse)
  moreover have "lapic_of d (update_lapic d handle_eoi c) = Some (handle_eoi l)"
    by (simp add: lapic_of_update assms(2))
  ultimately show ?thesis
    using assms(3) by (simp add: ctl_eoi_def lapic_requests_def lapic_of_def)
qed

text \<open>C5 (safety).  A level-triggered line through the whole controller: asserting it requests its
  vector at the addressed LAPIC; after the CPU has acknowledged it, the guest's write to the EOI
  register requests it again as long as the device holds the line, and does not once the device
  has released it (unless another pin with the same vector is asserted).\<close>

theorem level_irq_end_to_end:
  assumes "level_pin irq d v c" "\<not> irq_level (ioapic c) ! unat irq"
    and "ctl_ack d (deliver_irq irq c) = (Some v, c')"
  shows "lapic_requests d v (deliver_irq irq c) \<and> \<not> lapic_requests d v c' \<and>
         lapic_requests d v (write_lapic d LAPIC_EOI x c') \<and>
         ((\<forall>j < NUM_IOAPIC_PINS. j \<noteq> unat irq \<longrightarrow> \<not> redelivers v (ioapic c') j) \<longrightarrow>
           \<not> lapic_requests d v (write_lapic d LAPIC_EOI x (clear_irq irq c')))"
proof -
  let ?c1 = "deliver_irq irq c"
  note c1 = deliver_irq_level [OF assms(1,2)]
  have wf1: "ctl_wf ?c1" and lis1: "lapic_listens d ?c1" and v: "16 \<le> v" and pin: "pin_routes irq d v (ioapic ?c1)"
    using c1(1) by (simp_all add: level_pin_def)
  note ack = ctl_ack_Some [OF wf1 assms(3)]
  obtain l where l: "lapic_of d c' = Some l" "in_service_vector l = Some v" "\<not> vec_in (la_irr l) v"
    using ack(1) by blast
  have held: "lapic_requests d v (write_lapic d LAPIC_EOI x c')"
    unfolding eoi_write [OF l(1,2)]
    using eoi_held_requests [OF ack(2) ack(4) [OF lis1] v] pin c1(2) ack(3) by simp
  let ?k = "clear_irq irq c'"
  have k: "lapic_of d ?k = Some l" by (simp add: clear_irq_def lapic_of_def l(1) [unfolded lapic_of_def])
  have wfk: "ctl_wf ?k"
    using ack(2) ioapic_clear_irq_wf [of "ioapic c'"] by (simp add: ctl_wf_def clear_irq_def)
  have "\<not> lapic_requests d v (write_lapic d LAPIC_EOI x ?k)"
    if "\<forall>j < NUM_IOAPIC_PINS. j \<noteq> unat irq \<longrightarrow> \<not> redelivers v (ioapic c') j"
    unfolding eoi_write [OF k l(2)]
  proof (rule eoi_released_no_request [OF wfk k l(3)])
    fix j assume j: "j < NUM_IOAPIC_PINS"
    have len: "length (irq_level (ioapic c')) = NUM_IOAPIC_PINS" using ack(2) by (simp add: ctl_wf_def ioapic_wf_def)
    show "\<not> redelivers v (ioapic ?k) j"
      using that j len by (cases "j = unat irq") (auto simp: clear_irq_def ioapic_clear_irq_def)
  qed
  with held c1(3) l show ?thesis by (auto simp: lapic_requests_def)
qed

text \<open>One enabled CPU and pin 16 programmed level triggered to vector 0x45 through the page.\<close>

definition level_16 :: InterruptController where
  "level_16 =
     ioapic_page_write IOWIN 0x0000A045 (ioapic_page_write IOREGSEL 0x30
       (lapic_page_write 0 0xF0 0x1FF (ctl_new 1)))"

theorem level_irq_end_to_end_witness:
  "let c' = snd (ctl_ack 0 (deliver_irq 16 level_16)) in
   level_pin 16 0 0x45 level_16 \<and>
   ctl_pending_vector 0 (write_lapic 0 LAPIC_EOI 0 c') = Some 0x45 \<and>
   lapic_requests 0 0x45 (write_lapic 0 LAPIC_EOI 0 c') \<and>
   \<not> lapic_requests 0 0x45 (write_lapic 0 LAPIC_EOI 0 (clear_irq 16 c'))"
proof -
  let ?c1 = "deliver_irq 16 level_16" and ?c' = "snd (ctl_ack 0 (deliver_irq 16 level_16))"
  have "map_option enabled (lapic_of 0 level_16) = Some True" by code_simp
  then have "lapic_listens 0 level_16" by (auto simp: lapic_listens_def)
  moreover have "ctl_wf level_16" "pin_routes 16 0 0x45 (ioapic level_16)"
    "level_triggered (entries (ioapic level_16) ! 16)" by code_simp+
  ultimately have pin: "level_pin 16 0 0x45 level_16" by (simp add: level_pin_def)
  have low: "\<not> irq_level (ioapic level_16) ! unat (16 :: u8)" by code_simp
  have "fst (ctl_ack 0 ?c1) = Some 0x45" by code_simp
  then have ack: "ctl_ack 0 ?c1 = (Some 0x45, ?c')" by (metis prod.collapse)
  have "list_all (\<lambda>j. j \<noteq> 16 \<longrightarrow> \<not> redelivers 0x45 (ioapic ?c') j) [0..<24]" by code_simp
  then have "\<forall>j < NUM_IOAPIC_PINS. j \<noteq> unat (16 :: u8) \<longrightarrow> \<not> redelivers 0x45 (ioapic ?c') j"
    by (simp only: list_all_iff NUM_IOAPIC_PINS_def set_upt atLeastLessThan_iff) simp
  moreover have "ctl_pending_vector 0 (write_lapic 0 LAPIC_EOI 0 ?c') = Some 0x45" by code_simp
  ultimately show ?thesis
    using pin level_irq_end_to_end [OF pin low ack, of 0] by (simp only: Let_def simp_thms)
qed

end
