(* ===== verification/Ordered_Map.thy ===== *)
theory Ordered_Map
  imports Prelude
begin

text \<open>
  Rust's \<open>BTreeMap\<close> as the sources use it: an association list with strictly increasing keys.
  \<open>om_floor\<close> is \<open>range(..=k).next_back()\<close>, \<open>om_ceil\<close> is \<open>range(k..).next()\<close>; iteration is the
  list itself.  Lookup is \<open>map_of\<close>.
\<close>

type_synonym ('k, 'v) omap = "('k \<times> 'v) list"

abbreviation om_wf :: "('k::linorder, 'v) omap \<Rightarrow> bool" where
  "om_wf m \<equiv> sorted_wrt (<) (map fst m)"

fun om_insert :: "'k::linorder \<Rightarrow> 'v \<Rightarrow> ('k, 'v) omap \<Rightarrow> ('k, 'v) omap" where
  "om_insert k v [] = [(k, v)]"
| "om_insert k v ((a, b) # m) =
     (if k < a then (k, v) # (a, b) # m else if k = a then (k, v) # m else (a, b) # om_insert k v m)"

definition om_remove :: "'k \<Rightarrow> ('k, 'v) omap \<Rightarrow> ('k, 'v) omap" where
  "om_remove k m = filter (\<lambda>p. fst p \<noteq> k) m"

definition om_floor :: "'k::linorder \<Rightarrow> ('k, 'v) omap \<Rightarrow> ('k \<times> 'v) option" where
  "om_floor k m = List.find (\<lambda>p. fst p \<le> k) (rev m)"

definition om_ceil :: "'k::linorder \<Rightarrow> ('k, 'v) omap \<Rightarrow> ('k \<times> 'v) option" where
  "om_ceil k m = List.find (\<lambda>p. k \<le> fst p) m"

lemma om_wf_distinct: "om_wf m \<Longrightarrow> distinct (map fst m)"
  by (simp add: strict_sorted_iff)

lemma keys_om_insert: "fst ` set (om_insert k v m) = insert k (fst ` set m)"
  by (induction k v m rule: om_insert.induct) auto

lemma om_insert_wf [intro]: "om_wf m \<Longrightarrow> om_wf (om_insert k v m)"
proof (induction k v m rule: om_insert.induct)
  case (2 k v a b m)
  have "\<forall>x \<in> set (om_insert k v m). fst x = k \<or> fst x \<in> fst ` set m"
    using keys_om_insert [of k v m] by (auto simp: image_def)
  with 2 show ?case by fastforce
qed simp

lemma map_of_om_insert [simp]: "map_of (om_insert k v m) = (map_of m)(k \<mapsto> v)"
  by (induction k v m rule: om_insert.induct) auto

lemma set_om_insert:
  "om_wf m \<Longrightarrow> set (om_insert k v m) = insert (k, v) {p \<in> set m. fst p \<noteq> k}"
  by (induction k v m rule: om_insert.induct) auto

lemma om_remove_wf [intro]: "om_wf m \<Longrightarrow> om_wf (om_remove k m)"
  by (simp add: om_remove_def sorted_wrt_map sorted_wrt_filter)

lemma map_of_om_remove [simp]: "map_of (om_remove k m) = (map_of m)(k := None)"
  by (induction m) (auto simp: om_remove_def fun_eq_iff)

lemma om_wf_unique: "om_wf m \<Longrightarrow> (k, v) \<in> set m \<Longrightarrow> (k, w) \<in> set m \<Longrightarrow> v = w"
  by (auto dest: om_wf_distinct eq_key_imp_eq_value)

lemma map_of_iff_mem: "om_wf m \<Longrightarrow> map_of m k = Some v \<longleftrightarrow> (k, v) \<in> set m"
  by (simp add: om_wf_distinct)

text \<open>The greatest key at or below a point.\<close>

lemma find_sorted_rev:
  assumes "sorted_wrt R xs" "List.find P (rev xs) = Some x" "y \<in> set xs" "P y"
  shows "y = x \<or> R y x"
  using assms
proof (induction xs rule: rev_induct)
  case (snoc z zs)
  then show ?case by (auto simp: sorted_wrt_append split: if_splits)
qed simp

lemma om_floor_Some_iff:
  assumes "om_wf m"
  shows "om_floor k m = Some (b, v) \<longleftrightarrow>
    (b, v) \<in> set m \<and> b \<le> k \<and> (\<forall>(b', v') \<in> set m. b' \<le> k \<longrightarrow> b' \<le> b)"
proof
  assume f: "om_floor k m = Some (b, v)"
  then have "(b, v) \<in> set (rev m) \<and> b \<le> k"
    unfolding om_floor_def by (auto dest: find_SomeD)
  moreover have "b' \<le> b" if "(b', v') \<in> set m" "b' \<le> k" for b' v'
    using find_sorted_rev [of "\<lambda>p q. fst p < fst q" m "\<lambda>p. fst p \<le> k" "(b, v)" "(b', v')"] f that assms
    by (auto simp: om_floor_def sorted_wrt_map)
  ultimately show "(b, v) \<in> set m \<and> b \<le> k \<and> (\<forall>(b', v') \<in> set m. b' \<le> k \<longrightarrow> b' \<le> b)" by auto
next
  assume r: "(b, v) \<in> set m \<and> b \<le> k \<and> (\<forall>(b', v') \<in> set m. b' \<le> k \<longrightarrow> b' \<le> b)"
  then obtain p where p: "om_floor k m = Some p"
    by (cases "om_floor k m") (auto simp: om_floor_def find_None_iff)
  then have "p \<in> set m" "fst p \<le> k"
    unfolding om_floor_def by (auto dest: find_SomeD)
  moreover have "p = (b, v) \<or> b < fst p"
    using find_sorted_rev [of "\<lambda>p q. fst p < fst q" m "\<lambda>p. fst p \<le> k" p "(b, v)"] p r assms
    by (auto simp: om_floor_def sorted_wrt_map)
  ultimately have "p = (b, v)" using r by (cases p) (auto dest: leD)
  with p show "om_floor k m = Some (b, v)" by simp
qed

lemma om_floor_None_iff: "om_floor k m = None \<longleftrightarrow> (\<forall>(b, v) \<in> set m. k < b)"
  by (auto simp: om_floor_def find_None_iff not_le)

text \<open>The least key at or above a point.\<close>

lemma om_ceil_Some_iff:
  assumes "om_wf m"
  shows "om_ceil k m = Some (b, v) \<longleftrightarrow>
    (b, v) \<in> set m \<and> k \<le> b \<and> (\<forall>(b', v') \<in> set m. k \<le> b' \<longrightarrow> b \<le> b')"
  using assms
proof (induction m)
  case (Cons p m)
  show ?case
  proof (cases "k \<le> fst p")
    case True
    with Cons.prems show ?thesis by (cases p) (fastforce simp: om_ceil_def)
  next
    case False
    with Cons show ?thesis by (cases p) (auto simp: om_ceil_def)
  qed
qed (simp add: om_ceil_def)

lemma om_ceil_None_iff: "om_ceil k m = None \<longleftrightarrow> (\<forall>(b, v) \<in> set m. b < k)"
  by (auto simp: om_ceil_def find_None_iff not_le)

text \<open>Sums over the entries, and updates of the values in place.\<close>

lemma sum_om_insert:
  "map_of m k = None \<Longrightarrow> sum_list (map g (om_insert k v m)) = g (k, v) + sum_list (map g m)"
  for g :: "_ \<Rightarrow> 'c::comm_monoid_add"
  by (induction k v m rule: om_insert.induct) (auto simp: algebra_simps split: if_splits)

lemma sum_om_remove:
  "distinct (map fst m) \<Longrightarrow> map_of m k = Some v \<Longrightarrow>
   sum_list (map g m) = g (k, v) + sum_list (map g (om_remove k m))"
  for g :: "_ \<Rightarrow> 'c::comm_monoid_add"
proof (induction m)
  case (Cons p m)
  obtain a b where p: "p = (a, b)" by (cases p)
  show ?case
  proof (cases "a = k")
    case True
    then have "om_remove k m = m" using Cons.prems p by (force simp: om_remove_def filter_id_conv)
    then show ?thesis using Cons.prems True p by (simp add: om_remove_def)
  next
    case False
    then show ?thesis using Cons p by (simp add: om_remove_def algebra_simps)
  qed
qed simp

definition om_values :: "('k \<Rightarrow> 'v \<Rightarrow> 'v) \<Rightarrow> ('k, 'v) omap \<Rightarrow> ('k, 'v) omap" where
  "om_values f m = map (\<lambda>(k, v). (k, f k v)) m"

lemma om_values_keys [simp]: "map fst (om_values f m) = map fst m"
  by (simp add: om_values_def split_def)

lemma map_of_om_values [simp]: "map_of (om_values f m) k = map_option (f k) (map_of m k)"
  by (induction m) (auto simp: om_values_def)

lemma sum_om_values:
  "(\<And>k v. g (k, f k v) = g (k, v)) \<Longrightarrow> sum_list (map g (om_values f m)) = sum_list (map g m)"
  by (induction m) (auto simp: om_values_def)

lemma om_insert_present:
  "om_wf m \<Longrightarrow> map_of m k = Some v \<Longrightarrow> om_insert k w m = om_values (\<lambda>a b. if a = k then w else b) m"
proof (induction m)
  case (Cons p m)
  obtain a b where p: "p = (a, b)" by (cases p)
  have above: "\<forall>x \<in> set m. a < fst x" using Cons.prems(1) p by simp
  show ?case
  proof (cases "a = k")
    case True
    with above have "om_values (\<lambda>a b. if a = k then w else b) m = m"
      by (auto simp: om_values_def intro!: map_idI)
    with True p show ?thesis by (simp add: om_values_def)
  next
    case False
    with Cons.prems p have "(k, v) \<in> set m" by (auto dest: map_of_SomeD)
    with above have "a < k" by force
    with False Cons p show ?thesis by (auto simp: om_values_def)
  qed
qed simp

end
