(* ===== verification/Le_Bytes.thy ===== *)
theory Le_Bytes
  imports Prelude
begin

text \<open>
  Little-endian byte strings: \<open>to_le_bytes\<close> and \<open>from_le_bytes\<close> of the integer types and
  \<open>copy_from_slice\<close> into a buffer, with the laws the buses and the paravirtual clock pages use.
\<close>

unbundle bit_operations_syntax

text \<open>\<open>to_le_bytes\<close> of an \<open>n\<close>-byte value, and its inverse on a slice.\<close>

definition to_le_bytes :: "nat \<Rightarrow> 'a::len word \<Rightarrow> u8 list" where
  "to_le_bytes n w = map (\<lambda>i. ucast (drop_bit (8 * i) w)) [0..<n]"

fun from_le_bytes :: "u8 list \<Rightarrow> 'a::len word" where
  "from_le_bytes [] = 0"
| "from_le_bytes (b # bs) = ucast b OR push_bit 8 (from_le_bytes bs)"

text \<open>\<open>buf[off..off + src.len()].copy_from_slice(src)\<close>.\<close>

definition copy_at :: "nat \<Rightarrow> u8 list \<Rightarrow> u8 list \<Rightarrow> u8 list" where
  "copy_at off src buf = take off buf @ src @ drop (off + length src) buf"

lemma bit_from_le_bytes:
  "bit (from_le_bytes bs :: 'a::len word) i \<longleftrightarrow>
     i < LENGTH('a) \<and> i div 8 < length bs \<and> bit (bs ! (i div 8)) (i mod 8)"
proof (induction bs arbitrary: i)
  case (Cons b bs)
  show ?case
  proof (cases "i < 8")
    case True
    then show ?thesis by (auto simp: bit_or_iff bit_ucast_iff bit_push_bit_iff)
  next
    case False
    then have "i div 8 = Suc ((i - 8) div 8)" "i mod 8 = (i - 8) mod 8"
      by (simp_all add: div_if mod_if [of i])
    with False Cons.IH [of "i - 8"] show ?thesis
      by (auto simp: bit_or_iff bit_ucast_iff bit_push_bit_iff bit_beyond)
  qed
qed simp

lemma bit_nth_to_le:
  "k < n \<Longrightarrow> bit (to_le_bytes n w ! k) j \<longleftrightarrow> j < 8 \<and> bit w (8 * k + j)"
  by (simp add: to_le_bytes_def bit_ucast_iff bit_drop_bit_eq)

lemma length_to_le_bytes [simp]: "length (to_le_bytes n w) = n"
  by (simp add: to_le_bytes_def)

text \<open>Reading the first \<open>k\<close> bytes of a value back gives its low \<open>8 k\<close> bits.\<close>

lemma from_le_take:
  assumes "k \<le> n"
  shows "from_le_bytes (take k (to_le_bytes n w) @ replicate j 0) = take_bit (8 * k) (w :: 'a::len word)"
proof (rule bit_word_eqI)
  fix i assume i: "i < LENGTH('a)"
  have lt: "i div 8 < k \<longleftrightarrow> i < 8 * k" by (simp add: div_less_iff_less_mult mult.commute)
  have nth: "(take k (to_le_bytes n w) @ replicate j 0) ! (i div 8) = to_le_bytes n w ! (i div 8)" if "i < 8 * k"
    using that assms lt by (simp add: nth_append)
  have z: "(take k (to_le_bytes n w) @ replicate j 0) ! (i div 8) = 0"
    if "\<not> i < 8 * k" "i div 8 < k + j"
    using that assms lt by (simp add: nth_append)
  have b: "bit (to_le_bytes n w ! (i div 8)) (i mod 8) \<longleftrightarrow> bit w i" if "i < 8 * k"
    using that assms lt by (simp add: bit_nth_to_le)
  show "bit (from_le_bytes (take k (to_le_bytes n w) @ replicate j 0) :: 'a word) i = bit (take_bit (8 * k) w) i"
  proof (cases "i < 8 * k")
    case True
    with lt assms nth b i show ?thesis by (simp add: bit_from_le_bytes bit_take_bit_iff)
  next
    case False
    with lt assms z i show ?thesis by (auto simp: bit_from_le_bytes bit_take_bit_iff)
  qed
qed

lemma from_le_to_le: "LENGTH('a) \<le> 8 * n \<Longrightarrow> from_le_bytes (to_le_bytes n w) = (w :: 'a::len word)"
  using from_le_take [of n n w 0] by (simp add: take_bit_word_eq_self)

lemma length_copy_at [simp]:
  "off + length src \<le> length buf \<Longrightarrow> length (copy_at off src buf) = length buf"
  by (simp add: copy_at_def)

text \<open>A field of a buffer: what was copied there last, when the later copies are elsewhere.\<close>

definition field_at :: "nat \<Rightarrow> nat \<Rightarrow> u8 list \<Rightarrow> u8 list" where
  "field_at off n buf = take n (drop off buf)"

lemma field_at_same:
  "off + length src \<le> length buf \<Longrightarrow> n = length src \<Longrightarrow> field_at off n (copy_at off src buf) = src"
  by (simp add: field_at_def copy_at_def)

lemma field_at_other:
  assumes "o2 + length src \<le> length buf" "o1 + n \<le> o2 \<or> o2 + length src \<le> o1"
  shows "field_at o1 n (copy_at o2 src buf) = field_at o1 n buf"
proof (rule nth_equalityI)
  show "length (field_at o1 n (copy_at o2 src buf)) = length (field_at o1 n buf)"
    using assms(1) by (simp add: field_at_def)
  fix i assume "i < length (field_at o1 n (copy_at o2 src buf))"
  then show "field_at o1 n (copy_at o2 src buf) ! i = field_at o1 n buf ! i"
    using assms by (auto simp: field_at_def copy_at_def nth_append)
qed

end
