(* ===== verification/Bus.thy ===== *)
theory Bus
  imports Ordered_Map Le_Bytes
begin

text \<open>
  The device buses (\<open>enlil-devices/src/bus.rs\<close>): port I/O and MMIO dispatch by half-open address
  ranges over an ordered map from base to entry, little-endian access buffers, and the open-bus
  convention for unmapped addresses.  A device is any state; its trait methods are arguments of
  the bus operations (\<open>rd\<close>, \<open>wr\<close>), and the range it declares is an argument of \<open>register\<close>.
\<close>

section \<open>Access buffers\<close>

definition le_to_u32 :: "u8 list \<Rightarrow> u32" where
  "le_to_u32 dat = (let n = min (length dat) 4 in from_le_bytes (take n dat @ replicate (4 - n) 0))"

definition le_to_u64 :: "u8 list \<Rightarrow> u64" where
  "le_to_u64 dat = (let n = min (length dat) 8 in from_le_bytes (take n dat @ replicate (8 - n) 0))"

definition fill_le :: "u8 list \<Rightarrow> u8 list \<Rightarrow> u8 list" where
  "fill_le dat bytes = take (length dat) bytes @ drop (length bytes) dat"

section \<open>Registration and lookup\<close>

datatype BusError = EmptyRange | Overlap u64 u64

text \<open>An entry: the exclusive end of the range and the device.\<close>

type_synonym ('a, 'd) bus = "('a, 'a \<times> 'd) omap"
type_synonym 'd PioBus = "(u16, 'd) bus"
type_synonym 'd MmioBus = "(u64, 'd) bus"

definition bus_new :: "('a, 'd) bus" where
  "bus_new = []"

text \<open>The two overlap tests of \<open>register\<close>, in order: the nearest resident at or below the base, then
  the nearest at or above it.  The result is the range the error reports.\<close>

definition bus_conflict :: "'a::linorder \<Rightarrow> 'a \<Rightarrow> ('a, 'd) bus \<Rightarrow> ('a \<times> 'a) option" where
  "bus_conflict base hi m =
     (let above = (case om_ceil base m of
                     Some (next_base, (next_end, _)) \<Rightarrow>
                       if next_base < hi then Some (next_base, next_end) else None
                   | None \<Rightarrow> None)
      in case om_floor base m of
           Some (_, (prev_end, _)) \<Rightarrow> if prev_end > base then Some (base, prev_end) else above
         | None \<Rightarrow> above)"

definition pio_register :: "u16 \<times> u16 \<Rightarrow> 'd \<Rightarrow> 'd PioBus \<Rightarrow> BusError + 'd PioBus" where
  "pio_register rng device m =
     (case rng of (base, hi) \<Rightarrow>
      if hi \<le> base then Inl EmptyRange
      else case bus_conflict base hi m of
        Some (b, e) \<Rightarrow> Inl (Overlap (ucast b) (ucast e))
      | None \<Rightarrow> Inr (om_insert base (hi, device) m))"

definition mmio_register :: "u64 \<times> u64 \<Rightarrow> 'd \<Rightarrow> 'd MmioBus \<Rightarrow> BusError + 'd MmioBus" where
  "mmio_register rng device m =
     (case rng of (base, hi) \<Rightarrow>
      if hi \<le> base then Inl EmptyRange
      else case bus_conflict base hi m of
        Some (b, e) \<Rightarrow> Inl (Overlap b e)
      | None \<Rightarrow> Inr (om_insert base (hi, device) m))"

definition is_mapped :: "'a::linorder \<Rightarrow> ('a, 'd) bus \<Rightarrow> bool" where
  "is_mapped addr m = (case om_floor addr m of None \<Rightarrow> False | Some (_, (hi, _)) \<Rightarrow> addr < hi)"

definition bus_lookup :: "'a::linorder \<Rightarrow> ('a, 'd) bus \<Rightarrow> ('a \<times> 'a \<times> 'd) option" where
  "bus_lookup addr m =
     (case om_floor addr m of
        None \<Rightarrow> None
      | Some (base, (hi, device)) \<Rightarrow> if addr < hi then Some (base, hi, device) else None)"

section \<open>Access\<close>

definition pio_bus_read ::
  "(u16 \<Rightarrow> u8 \<Rightarrow> 'd \<Rightarrow> u32 \<times> 'd) \<Rightarrow> u16 \<Rightarrow> u8 list \<Rightarrow> 'd PioBus \<Rightarrow> u8 list \<times> 'd PioBus" where
  "pio_bus_read rd port dat m =
     (case bus_lookup port m of
        None \<Rightarrow> (replicate (length dat) 0xFF, m)
      | Some (base, hi, device) \<Rightarrow>
          (case rd port (of_nat (length dat)) device of
             (value, device') \<Rightarrow> (fill_le dat (to_le_bytes 4 value), om_insert base (hi, device') m)))"

definition pio_bus_write ::
  "(u16 \<Rightarrow> u8 \<Rightarrow> u32 \<Rightarrow> 'd \<Rightarrow> 'd) \<Rightarrow> u16 \<Rightarrow> u8 list \<Rightarrow> 'd PioBus \<Rightarrow> 'd PioBus" where
  "pio_bus_write wr port dat m =
     (case bus_lookup port m of
        None \<Rightarrow> m
      | Some (base, hi, device) \<Rightarrow>
          om_insert base (hi, wr port (of_nat (length dat)) (le_to_u32 dat) device) m)"

definition mmio_bus_read ::
  "(u64 \<Rightarrow> u8 \<Rightarrow> 'd \<Rightarrow> u64 \<times> 'd) \<Rightarrow> u64 \<Rightarrow> u8 list \<Rightarrow> 'd MmioBus \<Rightarrow> u8 list \<times> 'd MmioBus" where
  "mmio_bus_read rd addr dat m =
     (case bus_lookup addr m of
        None \<Rightarrow> (replicate (length dat) 0xFF, m)
      | Some (base, hi, device) \<Rightarrow>
          (case rd (addr - base) (of_nat (length dat)) device of
             (value, device') \<Rightarrow> (fill_le dat (to_le_bytes 8 value), om_insert base (hi, device') m)))"

definition mmio_bus_write ::
  "(u64 \<Rightarrow> u8 \<Rightarrow> u64 \<Rightarrow> 'd \<Rightarrow> 'd) \<Rightarrow> u64 \<Rightarrow> u8 list \<Rightarrow> 'd MmioBus \<Rightarrow> 'd MmioBus" where
  "mmio_bus_write wr addr dat m =
     (case bus_lookup addr m of
        None \<Rightarrow> m
      | Some (base, hi, device) \<Rightarrow>
          om_insert base (hi, wr (addr - base) (of_nat (length dat)) (le_to_u64 dat) device) m)"

section \<open>Invariant: disjoint ranges\<close>

definition bus_wf :: "('a::linorder, 'd) bus \<Rightarrow> bool" where
  "bus_wf m \<longleftrightarrow> om_wf m \<and> (\<forall>(b, (e, d)) \<in> set m. b < e) \<and>
     (\<forall>(b, (e, d)) \<in> set m. \<forall>(b', (e', d')) \<in> set m. b < b' \<longrightarrow> e \<le> b')"

lemma bus_wf_om: "bus_wf m \<Longrightarrow> om_wf m"
  by (simp add: bus_wf_def)

lemma bus_wf_entry: "bus_wf m \<Longrightarrow> (b, e, d) \<in> set m \<Longrightarrow> b < e"
  by (auto simp: bus_wf_def)

lemma bus_wf_disjoint: "bus_wf m \<Longrightarrow> (b, e, d) \<in> set m \<Longrightarrow> (b', e', d') \<in> set m \<Longrightarrow> b < b' \<Longrightarrow> e \<le> b'"
  unfolding bus_wf_def by fastforce

lemma bus_new_wf: "bus_wf bus_new"
  by (simp add: bus_wf_def bus_new_def)

lemma bus_lookup_Some_iff:
  assumes "bus_wf m"
  shows "bus_lookup a m = Some (b, e, d) \<longleftrightarrow> (b, e, d) \<in> set m \<and> b \<le> a \<and> a < e"
proof
  assume "bus_lookup a m = Some (b, e, d)"
  then have "om_floor a m = Some (b, e, d)" "a < e"
    by (auto simp: bus_lookup_def split: option.splits if_splits)
  then show "(b, e, d) \<in> set m \<and> b \<le> a \<and> a < e"
    using om_floor_Some_iff [OF bus_wf_om [OF assms]] by blast
next
  assume r: "(b, e, d) \<in> set m \<and> b \<le> a \<and> a < e"
  have "b' \<le> b" if "(b', e', d') \<in> set m" "b' \<le> a" for b' e' d'
    using bus_wf_disjoint [OF assms, of b e d b' e' d'] r that by (meson leD le_less_trans not_le)
  then have "om_floor a m = Some (b, e, d)"
    using r by (auto simp: om_floor_Some_iff [OF bus_wf_om [OF assms]])
  with r show "bus_lookup a m = Some (b, e, d)" by (simp add: bus_lookup_def)
qed

lemma bus_lookup_None_iff:
  assumes "bus_wf m"
  shows "bus_lookup a m = None \<longleftrightarrow> (\<forall>(b, e, d) \<in> set m. \<not> (b \<le> a \<and> a < e))"
  using bus_lookup_Some_iff [OF assms, of a] by (cases "bus_lookup a m") fastforce+

lemma is_mapped_iff: "is_mapped a m \<longleftrightarrow> bus_lookup a m \<noteq> None"
  by (auto simp: is_mapped_def bus_lookup_def split: option.splits)

lemma bus_conflict_None:
  assumes wf: "bus_wf m" and ne: "b < e"
  shows "bus_conflict b e m = None \<longleftrightarrow> (\<forall>(b', e', d') \<in> set m. e' \<le> b \<or> e \<le> b')"
proof
  assume free: "\<forall>(b', e', d') \<in> set m. e' \<le> b \<or> e \<le> b'"
  have f: "e' \<le> b" if "om_floor b m = Some (b', e', d')" for b' e' d'
    using that free ne om_floor_Some_iff [OF bus_wf_om [OF wf]] by fastforce
  have c: "e \<le> b'" if "om_ceil b m = Some (b', e', d')" for b' e' d'
    using that free ne bus_wf_entry [OF wf] om_ceil_Some_iff [OF bus_wf_om [OF wf]] by fastforce
  show "bus_conflict b e m = None"
    using f c by (auto simp: bus_conflict_def Let_def not_less split: option.splits)
next
  assume n: "bus_conflict b e m = None"
  have "e' \<le> b \<or> e \<le> b'" if mem: "(b', e', d') \<in> set m" for b' e' d'
  proof (cases "b' \<le> b")
    case True
    then obtain x y z where f: "om_floor b m = Some (x, y, z)"
      using mem by (cases "om_floor b m") (auto simp: om_floor_None_iff)
    then have "y \<le> b" using n by (auto simp: bus_conflict_def not_less split: if_splits)
    moreover have "b' \<le> x" "(x, y, z) \<in> set m"
      using f mem True om_floor_Some_iff [OF bus_wf_om [OF wf], of b x "(y, z)"] by auto
    moreover have "e' \<le> y"
    proof (cases "b' = x")
      case True
      with mem \<open>(x, y, z) \<in> set m\<close> show ?thesis using om_wf_unique [OF bus_wf_om [OF wf]] by force
    next
      case False
      with \<open>b' \<le> x\<close> have "e' \<le> x" using bus_wf_disjoint [OF wf mem \<open>(x, y, z) \<in> set m\<close>] by simp
      then show ?thesis using bus_wf_entry [OF wf \<open>(x, y, z) \<in> set m\<close>] by simp
    qed
    ultimately show ?thesis by (auto intro: order_trans)
  next
    case False
    then obtain x y z where c: "om_ceil b m = Some (x, y, z)"
      using mem by (cases "om_ceil b m") (auto simp: om_ceil_None_iff)
    then have "e \<le> x" using n by (auto simp: bus_conflict_def Let_def not_less split: if_splits option.splits)
    moreover have "x \<le> b'"
      using c mem False om_ceil_Some_iff [OF bus_wf_om [OF wf], of b x "(y, z)"] by auto
    ultimately show ?thesis by (auto intro: order_trans)
  qed
  then show "\<forall>(b', e', d') \<in> set m. e' \<le> b \<or> e \<le> b'" by auto
qed

text \<open>The range an overlap reports intersects both the new range and a resident.\<close>

lemma bus_conflict_Some:
  assumes wf: "bus_wf m" and ne: "b < e" and c: "bus_conflict b e m = Some (x, y)"
  shows "x < y \<and> b \<le> x \<and> x < e \<and> (\<exists>(b', e', d') \<in> set m. b' \<le> x \<and> y = e')"
proof -
  note iff = om_floor_Some_iff [OF bus_wf_om [OF wf]] om_ceil_Some_iff [OF bus_wf_om [OF wf]]
  from c consider (below) p d where "om_floor b m = Some (p, y, d)" "x = b" "b < y"
    | (above) d where "om_ceil b m = Some (x, y, d)" "x < e"
    by (auto simp: bus_conflict_def Let_def split: option.splits if_splits)
  then show ?thesis
  proof cases
    case below
    then show ?thesis using ne iff(1) by fastforce
  next
    case above
    then show ?thesis using iff(2) bus_wf_entry [OF wf] by fastforce
  qed
qed

lemma bus_insert_wf:
  assumes wf: "bus_wf m" and ne: "b < e" and free: "\<forall>(b', e', d') \<in> set m. e' \<le> b \<or> e \<le> b'"
  shows "bus_wf (om_insert b (e, d) m)"
proof -
  have s: "set (om_insert b (e, d) m) = insert (b, e, d) {p \<in> set m. fst p \<noteq> b}"
    by (rule set_om_insert [OF bus_wf_om [OF wf]])
  have "b'' < b \<Longrightarrow> e'' \<le> b" if "(b'', e'', d'') \<in> set m" for b'' e'' d''
    using free that ne by fastforce
  moreover have "b < b'' \<Longrightarrow> e \<le> b''" if "(b'', e'', d'') \<in> set m" for b'' e'' d''
    using free that bus_wf_entry [OF wf that] by fastforce
  ultimately show ?thesis
    unfolding bus_wf_def s
    using wf ne by (auto simp: bus_wf_om om_insert_wf dest: bus_wf_entry bus_wf_disjoint)
qed

lemma bus_lookup_insert:
  assumes wf: "bus_wf m" and ne: "b < e" and free: "\<forall>(b', e', d') \<in> set m. e' \<le> b \<or> e \<le> b'"
  shows "bus_lookup a (om_insert b (e, d) m) = (if b \<le> a \<and> a < e then Some (b, e, d) else bus_lookup a m)"
proof -
  note wf' = bus_insert_wf [OF assms, of d]
  have s: "set (om_insert b (e, d) m) = insert (b, e, d) {p \<in> set m. fst p \<noteq> b}"
    by (rule set_om_insert [OF bus_wf_om [OF wf]])
  have nb: "b' \<noteq> b" if "(b', e', d') \<in> set m" for b' e' d'
    using free that ne bus_wf_entry [OF wf that] by fastforce
  have eq: "bus_lookup a (om_insert b (e, d) m) = Some (x, y, z) \<longleftrightarrow>
      (if b \<le> a \<and> a < e then Some (b, e, d) else bus_lookup a m) = Some (x, y, z)" for x y z
    unfolding bus_lookup_Some_iff [OF wf'] s
    using free nb by (auto simp: bus_lookup_Some_iff [OF wf])
  show ?thesis
    using eq by (metis not_None_eq surj_pair)
qed

section \<open>The decoder interface\<close>

definition in_range :: "'a::linorder \<Rightarrow> 'a \<times> 'a \<Rightarrow> bool" where
  "in_range a r \<longleftrightarrow> fst r \<le> a \<and> a < snd r"

definition nonempty :: "'a::linorder \<times> 'a \<Rightarrow> bool" where
  "nonempty r \<longleftrightarrow> fst r < snd r"

definition apart :: "'a::linorder \<times> 'a \<Rightarrow> 'a \<times> 'a \<Rightarrow> bool" where
  "apart r r' \<longleftrightarrow> snd r \<le> fst r' \<or> snd r' \<le> fst r"

lemma apart_iff: "nonempty r \<Longrightarrow> nonempty r' \<Longrightarrow> apart r r' \<longleftrightarrow> (\<forall>a. \<not> (in_range a r \<and> in_range a r'))"
  by (auto simp: apart_def nonempty_def in_range_def max_def split: if_splits
      dest!: spec [of _ "max (fst r) (fst r')"])

text \<open>What a bus promises, over a plain table of ranges and devices in the order of registration: a
  registration is accepted exactly for a non-empty range apart from the ranges already in the table,
  and otherwise changes nothing; an access goes to the device whose range holds the address, and
  changes the state of no other; outside every range a read fills the buffer with ones and a
  write does nothing.  The device is given the address, the base of its range and the buffer.\<close>

type_synonym ('a, 'd) table = "(('a \<times> 'a) \<times> 'd) list"

definition table_find :: "'a::linorder \<Rightarrow> ('a, 'd) table \<Rightarrow> (('a \<times> 'a) \<times> 'd) option" where
  "table_find a T = List.find (\<lambda>(r, d). in_range a r) T"

definition table_set :: "'a \<times> 'a \<Rightarrow> 'd \<Rightarrow> ('a, 'd) table \<Rightarrow> ('a, 'd) table" where
  "table_set r d T = map (\<lambda>(r', d'). (r', if r' = r then d else d')) T"

datatype ('a, 'd) bus_op = BusRegister "'a \<times> 'a" 'd | BusRead 'a "u8 list" | BusWrite 'a "u8 list"

datatype bus_out = Registered | RejectedEmpty | RejectedOverlap | Bytes "u8 list" | Written

fun table_op :: "('a::linorder \<Rightarrow> 'a \<Rightarrow> u8 list \<Rightarrow> 'd \<Rightarrow> u8 list \<times> 'd) \<Rightarrow> ('a \<Rightarrow> 'a \<Rightarrow> u8 list \<Rightarrow> 'd \<Rightarrow> 'd) \<Rightarrow>
    ('a, 'd) bus_op \<Rightarrow> ('a, 'd) table \<Rightarrow> bus_out \<times> ('a, 'd) table" where
  "table_op rd wr (BusRegister r d) T =
     (if \<not> nonempty r then (RejectedEmpty, T)
      else if list_all (\<lambda>(r', d'). apart r r') T then (Registered, T @ [(r, d)])
      else (RejectedOverlap, T))"
| "table_op rd wr (BusRead a dat) T =
     (case table_find a T of
        None \<Rightarrow> (Bytes (replicate (length dat) 0xFF), T)
      | Some (r, d) \<Rightarrow> (case rd a (fst r) dat d of (bytes, d') \<Rightarrow> (Bytes bytes, table_set r d' T)))"
| "table_op rd wr (BusWrite a dat) T =
     (case table_find a T of
        None \<Rightarrow> (Written, T)
      | Some (r, d) \<Rightarrow> (Written, table_set r (wr a (fst r) dat d) T))"

text \<open>The same operations on a bus with a decoder, a registration and a device update.\<close>

fun decoder_op :: "('a \<Rightarrow> 'm \<Rightarrow> ('a \<times> 'a \<times> 'd) option) \<Rightarrow> ('a \<times> 'a \<Rightarrow> 'd \<Rightarrow> 'm \<Rightarrow> BusError + 'm) \<Rightarrow>
    ('a \<Rightarrow> 'a \<times> 'd \<Rightarrow> 'm \<Rightarrow> 'm) \<Rightarrow> ('a \<Rightarrow> 'a \<Rightarrow> u8 list \<Rightarrow> 'd \<Rightarrow> u8 list \<times> 'd) \<Rightarrow>
    ('a \<Rightarrow> 'a \<Rightarrow> u8 list \<Rightarrow> 'd \<Rightarrow> 'd) \<Rightarrow> ('a, 'd) bus_op \<Rightarrow> 'm \<Rightarrow> bus_out \<times> 'm" where
  "decoder_op decode attach store rd wr (BusRegister r d) m =
     (case attach r d m of
        Inl EmptyRange \<Rightarrow> (RejectedEmpty, m)
      | Inl (Overlap _ _) \<Rightarrow> (RejectedOverlap, m)
      | Inr m' \<Rightarrow> (Registered, m'))"
| "decoder_op decode attach store rd wr (BusRead a dat) m =
     (case decode a m of
        None \<Rightarrow> (Bytes (replicate (length dat) 0xFF), m)
      | Some (b, e, d) \<Rightarrow> (case rd a b dat d of (bytes, d') \<Rightarrow> (Bytes bytes, store b (e, d') m)))"
| "decoder_op decode attach store rd wr (BusWrite a dat) m =
     (case decode a m of
        None \<Rightarrow> (Written, m)
      | Some (b, e, d) \<Rightarrow> (Written, store b (e, wr a b dat d) m))"

fun bus_run :: "('i \<Rightarrow> 's \<Rightarrow> 'o \<times> 's) \<Rightarrow> 'i list \<Rightarrow> 's \<Rightarrow> 'o list \<times> 's" where
  "bus_run step [] s = ([], s)"
| "bus_run step (x # xs) s = (case step x s of (y, s') \<Rightarrow> case bus_run step xs s' of (ys, s'') \<Rightarrow> (y # ys, s''))"

lemma table_find_append: "table_find a (T @ U) = (case table_find a T of None \<Rightarrow> table_find a U | Some x \<Rightarrow> Some x)"
  by (induction T) (auto simp: table_find_def)

lemma table_find_set:
  "table_find a (table_set r d T) = map_option (\<lambda>(r', d'). (r', if r' = r then d else d')) (table_find a T)"
  by (induction T) (simp_all add: table_find_def table_set_def split_beta)

lemma table_find_Some: "table_find a T = Some (r, d) \<Longrightarrow> in_range a r \<and> (r, d) \<in> set T"
  by (induction T) (auto simp: table_find_def split: if_splits)

lemma table_find_None: "table_find a T = None \<longleftrightarrow> list_all (\<lambda>(r, d). \<not> in_range a r) T"
  by (induction T) (auto simp: table_find_def)

definition implements ::
  "('m \<Rightarrow> bool) \<Rightarrow> ('a::linorder \<Rightarrow> 'm \<Rightarrow> ('a \<times> 'a \<times> 'd) option) \<Rightarrow> 'm \<Rightarrow> ('a, 'd) table \<Rightarrow> bool" where
  "implements ok decode m T \<longleftrightarrow> ok m \<and> list_all (\<lambda>(r, d). nonempty r) T \<and>
     (\<forall>a. decode a m = map_option (\<lambda>(r, d). (fst r, snd r, d)) (table_find a T))"

text \<open>What a client of an address decoder relies on: an attached device answers on exactly its range,
  attaching fails only for an empty range or one that is already decoded somewhere, and storing
  the new state of a device changes the answer on exactly its range.\<close>

locale address_decoder =
  fixes inv :: "'m \<Rightarrow> bool"
    and decode :: "'a::linorder \<Rightarrow> 'm \<Rightarrow> ('a \<times> 'a \<times> 'd) option"
    and attach :: "'a \<times> 'a \<Rightarrow> 'd \<Rightarrow> 'm \<Rightarrow> BusError + 'm"
    and store :: "'a \<Rightarrow> 'a \<times> 'd \<Rightarrow> 'm \<Rightarrow> 'm"
  assumes attach_inv: "inv m \<Longrightarrow> attach r d m = Inr m' \<Longrightarrow> inv m'"
    and attach_decode: "inv m \<Longrightarrow> attach r d m = Inr m' \<Longrightarrow>
      decode a m' = (if in_range a r then Some (fst r, snd r, d) else decode a m)"
    and attach_free: "inv m \<Longrightarrow> attach r d m = Inr m' \<Longrightarrow> in_range a r \<Longrightarrow> decode a m = None"
    and attach_nonempty: "attach r d m = Inr m' \<Longrightarrow> nonempty r"
    and attach_empty: "attach r d m = Inl err \<Longrightarrow> err = EmptyRange \<longleftrightarrow> \<not> nonempty r"
    and attach_fails: "inv m \<Longrightarrow> attach r d m = Inl err \<Longrightarrow> nonempty r \<Longrightarrow>
      \<exists>a. in_range a r \<and> decode a m \<noteq> None"
    and store_inv: "inv m \<Longrightarrow> decode x m = Some (b, e, d) \<Longrightarrow> inv (store b (e, d') m)"
    and store_decode: "inv m \<Longrightarrow> decode x m = Some (b, e, d) \<Longrightarrow>
      decode a (store b (e, d') m) = map_option (\<lambda>(b1, e1, d1). (b1, e1, if (b1, e1) = (b, e) then d' else d1)) (decode a m)"
begin

lemma implements_free:
  assumes "implements inv decode m T" "nonempty r"
  shows "list_all (\<lambda>(r', d'). apart r r') T \<longleftrightarrow> (\<forall>a. in_range a r \<longrightarrow> decode a m = None)"
proof -
  have "decode a m = None \<longleftrightarrow> list_all (\<lambda>(r, d). \<not> in_range a r) T" for a
    using assms(1) by (simp add: implements_def table_find_None)
  moreover have "apart r r' \<longleftrightarrow> (\<forall>a. \<not> (in_range a r \<and> in_range a r'))" if "(r', d') \<in> set T" for r' d'
    using assms that by (intro apart_iff) (auto simp: implements_def list_all_iff)
  ultimately show ?thesis by (fastforce simp: list_all_iff)
qed

lemma implements_attach:
  assumes "implements inv decode m T" "attach r d m = Inr m'"
  shows "implements inv decode m' (T @ [(r, d)])" "nonempty r" "list_all (\<lambda>(r', d'). apart r r') T"
proof -
  have i: "inv m" "list_all (\<lambda>(r, d). nonempty r) T"
    "\<And>a. decode a m = map_option (\<lambda>(r, d). (fst r, snd r, d)) (table_find a T)"
    using assms(1) unfolding implements_def by blast+
  show n: "nonempty r" by (rule attach_nonempty [OF assms(2)])
  show "list_all (\<lambda>(r', d'). apart r r') T"
    unfolding implements_free [OF assms(1) n] using attach_free [OF i(1) assms(2)] by blast
  have "decode a m' = map_option (\<lambda>(r, d). (fst r, snd r, d)) (table_find a (T @ [(r, d)]))" for a
    using attach_free [OF i(1) assms(2), of a] i(3) [of a]
    unfolding attach_decode [OF i(1) assms(2)] table_find_append by (auto simp: table_find_def split: option.splits)
  with i(2) n attach_inv [OF i(1) assms(2)] show "implements inv decode m' (T @ [(r, d)])" by (simp add: implements_def)
qed

lemma implements_store:
  assumes "implements inv decode m T" "table_find x T = Some (r, d)"
  shows "implements inv decode (store (fst r) (snd r, d') m) (table_set r d' T)"
proof -
  have i: "inv m" "list_all (\<lambda>(r, d). nonempty r) T"
    "\<And>a. decode a m = map_option (\<lambda>(r, d). (fst r, snd r, d)) (table_find a T)"
    using assms(1) unfolding implements_def by blast+
  have x: "decode x m = Some (fst r, snd r, d)" using i(3) [of x] assms(2) by simp
  have "nonempty r" using table_find_Some [OF assms(2)] i(2) by (auto simp: list_all_iff)
  then have "list_all (\<lambda>(r, d). nonempty r) (table_set r d' T)"
    using i(2) by (auto simp: table_set_def list_all_iff)
  then show ?thesis
    using store_inv [OF i(1) x] store_decode [OF i(1) x] i(3)
    by (auto simp: implements_def table_find_set option.map_comp comp_def split_beta prod_eq_iff
        intro!: option.map_cong0)
qed

lemma op_refines:
  assumes "implements inv decode m T"
  shows "fst (decoder_op decode attach store rd wr x m) = fst (table_op rd wr x T) \<and>
    implements inv decode (snd (decoder_op decode attach store rd wr x m)) (snd (table_op rd wr x T))"
proof (cases x)
  case (BusRegister r d)
  have inv: "inv m" using assms by (simp add: implements_def)
  show ?thesis
  proof (cases "attach r d m")
    case (Inl e)
    have "\<not> list_all (\<lambda>(r', d'). apart r r') T" if "nonempty r"
      unfolding implements_free [OF assms that] using attach_fails [OF inv Inl that] by auto
    with attach_empty [OF Inl] Inl assms show ?thesis
      by (cases e) (auto simp: BusRegister)
  next
    case (Inr m')
    then show ?thesis using implements_attach [OF assms Inr] by (simp add: BusRegister)
  qed
next
  case (BusRead a dat)
  show ?thesis
  proof (cases "table_find a T")
    case (Some p)
    obtain r d where p: "p = (r, d)" by fastforce
    have "decode a m = Some (fst r, snd r, d)" using assms Some p by (simp add: implements_def)
    with implements_store [OF assms Some [unfolded p]] Some p show ?thesis
      by (simp add: BusRead split_beta)
  qed (use assms in \<open>simp add: BusRead implements_def\<close>)
next
  case (BusWrite a dat)
  show ?thesis
  proof (cases "table_find a T")
    case (Some p)
    obtain r d where p: "p = (r, d)" by fastforce
    have "decode a m = Some (fst r, snd r, d)" using assms Some p by (simp add: implements_def)
    with implements_store [OF assms Some [unfolded p]] Some p show ?thesis by (simp add: BusWrite)
  qed (use assms in \<open>simp add: BusWrite implements_def\<close>)
qed

lemma run_refines:
  "implements inv decode m T \<Longrightarrow>
   fst (bus_run (decoder_op decode attach store rd wr) xs m) = fst (bus_run (table_op rd wr) xs T) \<and>
   implements inv decode (snd (bus_run (decoder_op decode attach store rd wr) xs m)) (snd (bus_run (table_op rd wr) xs T))"
proof (induction xs arbitrary: m T)
  case (Cons x xs)
  from op_refines [OF Cons.prems, of rd wr x] Cons.IH show ?case by (simp add: split_beta)
qed simp

end

lemma bus_attach_cases:
  assumes wf: "bus_wf m" and r: "r = (b, e)" "b < e"
  shows "bus_conflict b e m = None \<Longrightarrow> bus_wf (om_insert b (e, d) m)"
    and "bus_conflict b e m = None \<Longrightarrow>
      bus_lookup a (om_insert b (e, d) m) = (if in_range a r then Some (b, e, d) else bus_lookup a m)"
    and "bus_conflict b e m = None \<Longrightarrow> in_range a r \<Longrightarrow> bus_lookup a m = None"
    and "bus_conflict b e m = Some (x, y) \<Longrightarrow> \<exists>a. in_range a r \<and> bus_lookup a m \<noteq> None"
proof -
  note none = bus_conflict_None [OF wf r(2)]
  show "bus_conflict b e m = None \<Longrightarrow> bus_wf (om_insert b (e, d) m)"
    using bus_insert_wf [OF wf r(2)] none by blast
  show "bus_conflict b e m = None \<Longrightarrow>
      bus_lookup a (om_insert b (e, d) m) = (if in_range a r then Some (b, e, d) else bus_lookup a m)"
    using bus_lookup_insert [OF wf r(2)] none by (simp add: in_range_def r)
  show "bus_conflict b e m = None \<Longrightarrow> in_range a r \<Longrightarrow> bus_lookup a m = None"
    unfolding none by (auto simp: bus_lookup_None_iff [OF wf] in_range_def r)
  assume c: "bus_conflict b e m = Some (x, y)"
  from bus_conflict_Some [OF wf r(2) c] obtain b' d' where
    m: "(b', y, d') \<in> set m" "b' \<le> x" "x < y" "b \<le> x" "x < e" by auto
  then have "bus_lookup x m = Some (b', y, d')" by (simp add: bus_lookup_Some_iff [OF wf])
  with m show "\<exists>a. in_range a r \<and> bus_lookup a m \<noteq> None"
    by (intro exI [of _ x]) (simp add: in_range_def r)
qed

text \<open>Storing the new state of a resident.\<close>

lemma bus_store:
  assumes wf: "bus_wf m" and x: "bus_lookup x m = Some (b, e, d)"
  shows "bus_wf (om_insert b (e, d') m)"
    and "bus_lookup a (om_insert b (e, d') m) =
      map_option (\<lambda>(b1, e1, d1). (b1, e1, if (b1, e1) = (b, e) then d' else d1)) (bus_lookup a m)"
proof -
  have m: "(b, e, d) \<in> set m" using x by (simp add: bus_lookup_Some_iff [OF wf])
  have u: "e1 = e" if "(b, e1, d1) \<in> set m" for e1 d1
    using om_wf_unique [OF bus_wf_om [OF wf] m that] by simp
  have s: "set (om_insert b (e, d') m) = insert (b, e, d') {p \<in> set m. fst p \<noteq> b}"
    by (rule set_om_insert [OF bus_wf_om [OF wf]])
  show wf': "bus_wf (om_insert b (e, d') m)"
    unfolding bus_wf_def s using m wf
    by (auto simp: bus_wf_om om_insert_wf dest: bus_wf_entry bus_wf_disjoint)
  show "bus_lookup a (om_insert b (e, d') m) =
      map_option (\<lambda>(b1, e1, d1). (b1, e1, if (b1, e1) = (b, e) then d' else d1)) (bus_lookup a m)"
  proof (cases "bus_lookup a m")
    case None
    then have "\<forall>p \<in> set m. \<not> (fst p \<le> a \<and> a < fst (snd p))"
      by (auto simp: bus_lookup_None_iff [OF wf])
    then have "\<forall>p \<in> set (om_insert b (e, d') m). \<not> (fst p \<le> a \<and> a < fst (snd p))"
      unfolding s using m by fastforce
    then have "bus_lookup a (om_insert b (e, d') m) = None" by (auto simp: bus_lookup_None_iff [OF wf'])
    with None show ?thesis by simp
  next
    case (Some y)
    obtain b1 e1 d1 where y: "y = (b1, e1, d1)" by (cases y)
    have i: "(b1, e1, d1) \<in> set m" "b1 \<le> a" "a < e1"
      using Some unfolding y bus_lookup_Some_iff [OF wf] by blast+
    have "(b1, e1, if (b1, e1) = (b, e) then d' else d1) \<in> set (om_insert b (e, d') m)"
      unfolding s using i(1) u by auto
    then have "bus_lookup a (om_insert b (e, d') m) = Some (b1, e1, if (b1, e1) = (b, e) then d' else d1)"
      using i(2,3) bus_lookup_Some_iff [OF wf'] by blast
    with Some y show ?thesis by simp
  qed
qed

text \<open>Both buses register by the same overlap test.\<close>

lemma bus_address_decoder:
  fixes attach :: "'a::linorder \<times> 'a \<Rightarrow> 'd \<Rightarrow> ('a, 'd) bus \<Rightarrow> BusError + ('a, 'd) bus"
  assumes ok: "\<And>r d m m'. attach r d m = Inr m' \<longleftrightarrow>
      nonempty r \<and> bus_conflict (fst r) (snd r) m = None \<and> m' = om_insert (fst r) (snd r, d) m"
    and empty: "\<And>r d m err. attach r d m = Inl err \<Longrightarrow> err = EmptyRange \<longleftrightarrow> \<not> nonempty r"
    and err: "\<And>r d m err. attach r d m = Inl err \<Longrightarrow> nonempty r \<Longrightarrow>
      \<exists>c. bus_conflict (fst r) (snd r) m = Some c"
  shows "address_decoder bus_wf bus_lookup attach om_insert"
proof
  fix m m' :: "('a, 'd) bus" and r :: "'a \<times> 'a" and d :: 'd and a :: 'a
  assume wf: "bus_wf m"
  show "\<exists>a. in_range a r \<and> bus_lookup a m \<noteq> None" if "attach r d m = Inl e" "nonempty r" for e
    using bus_attach_cases(4) [OF wf prod.collapse [symmetric], of r] err [OF that] that(2)
    by (auto simp: nonempty_def)
  assume "attach r d m = Inr m'"
  then have r: "fst r < snd r" "bus_conflict (fst r) (snd r) m = None" "m' = om_insert (fst r) (snd r, d) m"
    by (simp_all add: ok nonempty_def)
  note c = bus_attach_cases [OF wf prod.collapse [symmetric] r(1)]
  show "bus_wf m'" "bus_lookup a m' = (if in_range a r then Some (fst r, snd r, d) else bus_lookup a m)"
    using c(1,2) [OF r(2)] by (simp_all add: r(3))
  show "bus_lookup a m = None" if "in_range a r" using c(3) [OF r(2) that] .
qed (simp add: ok, erule empty, erule (1) bus_store(1), erule (1) bus_store(2))

interpretation pio: address_decoder bus_wf bus_lookup pio_register om_insert
  by (rule bus_address_decoder)
     (auto simp: pio_register_def nonempty_def split: prod.splits if_splits option.splits)

interpretation mmio: address_decoder bus_wf bus_lookup mmio_register om_insert
  by (rule bus_address_decoder)
     (auto simp: mmio_register_def nonempty_def split: prod.splits if_splits option.splits)

section \<open>Correctness\<close>

text \<open>A guest-visible operation of each bus: registering a device, a read, a write.\<close>

definition registered :: "BusError + 'm \<Rightarrow> 'm \<Rightarrow> bus_out \<times> 'm" where
  "registered r m = (case r of Inl EmptyRange \<Rightarrow> (RejectedEmpty, m) | Inl (Overlap _ _) \<Rightarrow> (RejectedOverlap, m)
     | Inr m' \<Rightarrow> (Registered, m'))"

fun mmio_op :: "(u64 \<Rightarrow> u8 \<Rightarrow> 'd \<Rightarrow> u64 \<times> 'd) \<Rightarrow> (u64 \<Rightarrow> u8 \<Rightarrow> u64 \<Rightarrow> 'd \<Rightarrow> 'd) \<Rightarrow>
    (u64, 'd) bus_op \<Rightarrow> 'd MmioBus \<Rightarrow> bus_out \<times> 'd MmioBus" where
  "mmio_op rd wr (BusRegister r d) m = registered (mmio_register r d m) m"
| "mmio_op rd wr (BusRead a dat) m = (case mmio_bus_read rd a dat m of (bytes, m') \<Rightarrow> (Bytes bytes, m'))"
| "mmio_op rd wr (BusWrite a dat) m = (Written, mmio_bus_write wr a dat m)"

fun pio_op :: "(u16 \<Rightarrow> u8 \<Rightarrow> 'd \<Rightarrow> u32 \<times> 'd) \<Rightarrow> (u16 \<Rightarrow> u8 \<Rightarrow> u32 \<Rightarrow> 'd \<Rightarrow> 'd) \<Rightarrow>
    (u16, 'd) bus_op \<Rightarrow> 'd PioBus \<Rightarrow> bus_out \<times> 'd PioBus" where
  "pio_op rd wr (BusRegister r d) m = registered (pio_register r d m) m"
| "pio_op rd wr (BusRead a dat) m = (case pio_bus_read rd a dat m of (bytes, m') \<Rightarrow> (Bytes bytes, m'))"
| "pio_op rd wr (BusWrite a dat) m = (Written, pio_bus_write wr a dat m)"

text \<open>What the bus hands to the device: an MMIO device sees the offset from its base and 64 bits, a
  port device the port itself and 32 bits.\<close>

definition mmio_answer :: "(u64 \<Rightarrow> u8 \<Rightarrow> 'd \<Rightarrow> u64 \<times> 'd) \<Rightarrow> u64 \<Rightarrow> u64 \<Rightarrow> u8 list \<Rightarrow> 'd \<Rightarrow> u8 list \<times> 'd" where
  "mmio_answer rd a base dat d = map_prod (\<lambda>v. fill_le dat (to_le_bytes 8 v)) id (rd (a - base) (of_nat (length dat)) d)"

definition pio_answer :: "(u16 \<Rightarrow> u8 \<Rightarrow> 'd \<Rightarrow> u32 \<times> 'd) \<Rightarrow> u16 \<Rightarrow> u16 \<Rightarrow> u8 list \<Rightarrow> 'd \<Rightarrow> u8 list \<times> 'd" where
  "pio_answer rd a base dat d = map_prod (\<lambda>v. fill_le dat (to_le_bytes 4 v)) id (rd a (of_nat (length dat)) d)"

lemma mmio_op_eq:
  "mmio_op rd wr = decoder_op bus_lookup mmio_register om_insert (mmio_answer rd)
     (\<lambda>a base dat. wr (a - base) (of_nat (length dat)) (le_to_u64 dat))"
  by (intro ext, rename_tac x m, case_tac x)
     (auto simp: registered_def mmio_bus_read_def mmio_bus_write_def mmio_answer_def split: option.splits prod.splits)

lemma pio_op_eq:
  "pio_op rd wr = decoder_op bus_lookup pio_register om_insert (pio_answer rd)
     (\<lambda>a base dat. wr a (of_nat (length dat)) (le_to_u32 dat))"
  by (intro ext, rename_tac x m, case_tac x)
     (auto simp: registered_def pio_bus_read_def pio_bus_write_def pio_answer_def split: option.splits prod.splits)

lemma bus_new_implements: "implements bus_wf bus_lookup bus_new []"
  by (simp add: implements_def bus_new_wf)
     (simp add: bus_new_def bus_lookup_def om_floor_def table_find_def)

text \<open>C25 (refinement).  The MMIO and the port bus decode addresses as a plain table of disjoint ranges does.
  Any sequence of registrations (accepted or refused), reads and writes on a fresh bus gives the
  outcomes the table gives: a registration is accepted exactly for a non-empty range apart from all
  registered ones, and a refused one changes nothing; a read or write reaches the device whose
  range holds the address and no other, an MMIO device at the offset from its base and a port device
  at the port; outside every range reads return all ones and writes are dropped.  \<open>is_mapped\<close> tells
  which of the two it is.\<close>

theorem bus_dispatch:
  "fst (bus_run (mmio_op rd wr) ops bus_new) =
     fst (bus_run (table_op (mmio_answer rd) (\<lambda>a base dat. wr (a - base) (of_nat (length dat)) (le_to_u64 dat))) ops []) \<and>
   fst (bus_run (pio_op prd pwr) pops bus_new) =
     fst (bus_run (table_op (pio_answer prd) (\<lambda>a base dat. pwr a (of_nat (length dat)) (le_to_u32 dat))) pops []) \<and>
   is_mapped a (snd (bus_run (mmio_op rd wr) ops bus_new)) =
     (table_find a (snd (bus_run (table_op (mmio_answer rd)
        (\<lambda>a base dat. wr (a - base) (of_nat (length dat)) (le_to_u64 dat))) ops [])) \<noteq> None)"
  using mmio.run_refines [OF bus_new_implements] pio.run_refines [OF bus_new_implements]
  unfolding mmio_op_eq pio_op_eq is_mapped_iff implements_def by fastforce

theorem bus_dispatch_witness:
  "fst (bus_run (mmio_op (\<lambda>off sz d. (off + d, d)) (\<lambda>off sz v d. v))
     [BusRegister (0x3000, 0x4000) 2, BusRegister (0x3F00, 0x5000) 7, BusRegister (0x1000, 0x2000) (1 :: u64),
      BusRead 0x3012 [0, 0], BusWrite 0x3500 [0x10, 0], BusRead 0x3012 [0, 0], BusRead 0x1001 [0], BusRead 0x4000 [0]] bus_new) =
   [Registered, RejectedOverlap, Registered, Bytes [0x14, 0], Written, Bytes [0x22, 0], Bytes [2], Bytes [0xFF]]"
  unfolding bus_dispatch [THEN conjunct1] by code_simp

text \<open>Registering a port range on a well-formed bus: an empty range is rejected as such; a
  range that meets a resident is rejected and the reported range starts inside the new range and
  ends where that resident ends; otherwise the device is added and the ranges stay disjoint.\<close>

theorem pio_register_result:
  assumes "bus_wf m"
  shows "case pio_register (b, e) d m of
     Inl EmptyRange \<Rightarrow> e \<le> b
   | Inl (Overlap x y) \<Rightarrow> b < e \<and> ucast b \<le> x \<and> x < ucast e \<and> x < y \<and>
       (\<exists>(b', e', d') \<in> set m. ucast b' \<le> x \<and> y = ucast e')
   | Inr m' \<Rightarrow> b < e \<and> (\<forall>(b', e', d') \<in> set m. e' \<le> b \<or> e \<le> b') \<and> bus_wf m' \<and>
       (\<forall>a. bus_lookup a m' = (if b \<le> a \<and> a < e then Some (b, e, d) else bus_lookup a m))"
proof (cases "b < e")
  case False
  then show ?thesis by (simp add: pio_register_def not_less)
next
  case True
  have up: "ucast v \<le> (ucast w :: u64) \<longleftrightarrow> v \<le> w" "ucast v < (ucast w :: u64) \<longleftrightarrow> v < w" for v w :: u16
    by (simp_all add: word_le_nat_alt word_less_nat_alt unat_ucast_up)
  show ?thesis
  proof (cases "bus_conflict b e m")
    case None
    have "\<forall>(b', e', d') \<in> set m. e' \<le> b \<or> e \<le> b'"
      using None bus_conflict_None [OF assms True] by blast
    with None True bus_insert_wf [OF assms True this, of d] bus_lookup_insert [OF assms True this, of _ d]
    show ?thesis by (simp add: pio_register_def)
  next
    case (Some c)
    obtain x y where c: "c = (x, y)" by fastforce
    with bus_conflict_Some [OF assms True] Some
    have "x < y \<and> b \<le> x \<and> x < e \<and> (\<exists>(b', e', d') \<in> set m. b' \<le> x \<and> y = e')" by blast
    with Some c True show ?thesis by (auto simp: pio_register_def up)
  qed
qed

theorem pio_register_result_witness:
  "bus_wf [(0x60 :: u16, (0x65, ()))] \<and>
   pio_register (0x64, 0x70) () [(0x60, (0x65, ()))] = Inl (Overlap 0x64 0x65) \<and>
   (\<exists>(b', e', d') \<in> set [(0x60 :: u16, (0x65 :: u16, ()))]. ucast b' \<le> (0x64 :: u64) \<and> 0x65 = (ucast e' :: u64))"
proof -
  have wf: "bus_wf [(0x60 :: u16, (0x65, ()))]" by (simp add: bus_wf_def)
  have r: "pio_register (0x64, 0x70) () [(0x60, (0x65, ()))] = Inl (Overlap 0x64 0x65)" by code_simp
  from pio_register_result [OF wf, of "0x64" "0x70" "()"] wf r show ?thesis by simp
qed

text \<open>Byte order of the access buffers: the bytes a bus read leaves in an access of \<open>n\<close>
  bytes decode, by the conversion the write path uses, to the low \<open>8 n\<close> bits of what the device
  returned; for a full-width access that is the value itself.\<close>

theorem bus_byte_order:
  assumes "length p \<le> 4" "length q \<le> 8"
  shows "le_to_u32 (fill_le p (to_le_bytes 4 v)) = take_bit (8 * length p) v \<and>
         le_to_u64 (fill_le q (to_le_bytes 8 w)) = take_bit (8 * length q) w"
  using assms from_le_take [of "length p" 4 v "4 - length p"] from_le_take [of "length q" 8 w "8 - length q"]
  by (simp add: le_to_u32_def le_to_u64_def fill_le_def Let_def)

theorem bus_byte_order_witness:
  "le_to_u32 (fill_le [0, 0] (to_le_bytes 4 (0x12345678 :: u32))) = 0x5678 \<and>
   le_to_u64 (fill_le [0, 0, 0, 0, 0, 0, 0, 0] (to_le_bytes 8 (0x1122334455667788 :: u64))) =
     0x1122334455667788"
  using bus_byte_order [of "[0, 0]" "[0, 0, 0, 0, 0, 0, 0, 0]" "0x12345678" "0x1122334455667788"] by simp

end
