(* ===== verification/Pit.thy ===== *)
theory Pit
  imports Irq_Line Batched_Clock
begin

text \<open>
  The 8254 programmable interval timer (\<open>enlil-devices/src/timer/pit.rs\<close>) and the System Control
  Port B that gates its channel 2 (\<open>timer/speaker.rs\<close>).  The optional interrupt sink is a flag;
  the levels driven into it are returned as a trace, in order.
\<close>

section \<open>Modes\<close>

datatype ChannelMode =
    InterruptOnTerminalCount
  | HardwareRetriggerable
  | RateGenerator
  | SquareWave
  | SoftwareStrobe
  | HardwareStrobe

definition mode_from_bits :: "u8 \<Rightarrow> ChannelMode" where
  "mode_from_bits bits =
     (let n = bits AND 0x7 in
      if n = 1 then HardwareRetriggerable
      else if n = 2 then RateGenerator
      else if n = 3 then SquareWave
      else if n = 4 then SoftwareStrobe
      else if n = 5 then HardwareStrobe
      else InterruptOnTerminalCount)"

fun mode_bits :: "ChannelMode \<Rightarrow> u8" where
  "mode_bits InterruptOnTerminalCount = 0"
| "mode_bits HardwareRetriggerable = 1"
| "mode_bits RateGenerator = 2"
| "mode_bits SquareWave = 3"
| "mode_bits SoftwareStrobe = 4"
| "mode_bits HardwareStrobe = 5"

datatype AccessMode = Latch | LoByte | HiByte | LoHiByte

definition access_from_bits :: "u8 \<Rightarrow> AccessMode" where
  "access_from_bits bits =
     (let n = bits AND 0x3 in
      if n = 1 then LoByte else if n = 2 then HiByte else if n = 3 then LoHiByte else Latch)"

fun access_bits :: "AccessMode \<Rightarrow> u8" where
  "access_bits Latch = 0"
| "access_bits LoByte = 1"
| "access_bits HiByte = 2"
| "access_bits LoHiByte = 3"

section \<open>A channel\<close>

record ByteLatch =
  read_hi :: bool
  write_hi :: bool

record CounterStatus =
  out_pin :: bool
  null_count :: bool

record PitChannel =
  pit_count :: u16
  reload :: u16
  mode :: ChannelMode
  access :: AccessMode
  latched_count :: "u16 option"
  latched_status :: "u8 option"
  byte_latch :: ByteLatch
  status :: CounterStatus
  gate :: bool
  pit_enabled :: bool

definition channel_new :: PitChannel where
  "channel_new = \<lparr>pit_count = 0, reload = 0, mode = InterruptOnTerminalCount, access = LoHiByte,
     latched_count = None, latched_status = None,
     byte_latch = \<lparr>read_hi = False, write_hi = False\<rparr>,
     status = \<lparr>out_pin = False, null_count = False\<rparr>, gate = True, pit_enabled = False\<rparr>"

definition status_byte :: "PitChannel \<Rightarrow> u8" where
  "status_byte ch =
     push_bit 7 (of_bool (out_pin (status ch))) OR push_bit 6 (of_bool (null_count (status ch))) OR
     push_bit 4 (access_bits (access ch)) OR push_bit 1 (mode_bits (mode ch))"

definition channel_read_data :: "PitChannel \<Rightarrow> u8 \<times> PitChannel" where
  "channel_read_data ch =
     (case latched_status ch of
        Some st \<Rightarrow> (st, ch\<lparr>latched_status := None\<rparr>)
      | None \<Rightarrow>
          let value = (case latched_count ch of Some v \<Rightarrow> v | None \<Rightarrow> pit_count ch);
              lo = ucast (value AND 0xFF); hi = ucast (drop_bit 8 value AND 0xFF)
          in case access ch of
               LoByte \<Rightarrow> (lo, ch)
             | Latch \<Rightarrow> (lo, ch)
             | HiByte \<Rightarrow> (hi, ch)
             | LoHiByte \<Rightarrow>
                 if read_hi (byte_latch ch)
                 then (hi, ch\<lparr>byte_latch := (byte_latch ch)\<lparr>read_hi := False\<rparr>, latched_count := None\<rparr>)
                 else (lo, ch\<lparr>byte_latch := (byte_latch ch)\<lparr>read_hi := True\<rparr>\<rparr>))"

definition load_count :: "PitChannel \<Rightarrow> PitChannel" where
  "load_count ch =
     (let effective = (if reload ch = 0 then 0x00010000 else ucast (reload ch) :: u32) in
      ch\<lparr>pit_count := ucast effective, pit_enabled := True,
         status := (status ch)\<lparr>out_pin := False, null_count := False\<rparr>\<rparr>)"

definition channel_write_data :: "u8 \<Rightarrow> PitChannel \<Rightarrow> PitChannel" where
  "channel_write_data val ch =
     (let set_lo = ch\<lparr>reload := (reload ch AND 0xFF00) OR ucast val\<rparr>;
          set_hi = ch\<lparr>reload := (reload ch AND 0x00FF) OR push_bit 8 (ucast val)\<rparr>
      in case access ch of
           LoByte \<Rightarrow> load_count set_lo
         | HiByte \<Rightarrow> load_count set_hi
         | LoHiByte \<Rightarrow>
             if write_hi (byte_latch ch)
             then load_count (set_hi\<lparr>byte_latch := (byte_latch ch)\<lparr>write_hi := False\<rparr>\<rparr>)
             else set_lo\<lparr>byte_latch := (byte_latch ch)\<lparr>write_hi := True\<rparr>\<rparr>
         | Latch \<Rightarrow> ch)"

definition set_output :: "bool \<Rightarrow> PitChannel \<Rightarrow> PitChannel" where
  "set_output b ch = ch\<lparr>status := (status ch)\<lparr>out_pin := b\<rparr>\<rparr>"

definition channel_tick :: "PitChannel \<Rightarrow> bool \<times> PitChannel" where
  "channel_tick ch =
     (if \<not> pit_enabled ch \<or> \<not> gate ch then (False, ch)
      else case mode ch of
        InterruptOnTerminalCount \<Rightarrow>
          if pit_count ch = 0 then (False, set_output True ch)
          else let ch1 = ch\<lparr>pit_count := pit_count ch - 1\<rparr> in
               if pit_count ch1 = 0 then (True, set_output True ch1) else (False, ch1)
      | RateGenerator \<Rightarrow>
          let ch1 = ch\<lparr>pit_count := pit_count ch - 1\<rparr> in
          if pit_count ch1 = 0 then (True, set_output False (ch1\<lparr>pit_count := reload ch1\<rparr>))
          else (False, set_output True ch1)
      | SquareWave \<Rightarrow>
          if pit_count ch = 0 then (False, ch\<lparr>pit_count := reload ch\<rparr>)
          else let ch1 = ch\<lparr>pit_count := pit_count ch - 2\<rparr> in
               if pit_count ch1 \<le> 1 then
                 let ch2 = set_output (\<not> out_pin (status ch1)) ch1 in
                 (out_pin (status ch2), ch2\<lparr>pit_count := reload ch2\<rparr>)
               else (False, ch1)
      | _ \<Rightarrow> if pit_count ch > 0 then (False, ch\<lparr>pit_count := pit_count ch - 1\<rparr>) else (False, ch))"

section \<open>The device\<close>

definition PIT_FREQUENCY :: u32 where "PIT_FREQUENCY = 1193182"
definition NS_PER_TICK :: u64 where "NS_PER_TICK = 838"
definition PIT_PORT_BASE :: u16 where "PIT_PORT_BASE = 0x40"
definition PIT_PORT_COUNT :: u16 where "PIT_PORT_COUNT = 4"

text \<open>The array of three channels is a list of length 3; \<open>irq0\<close> says whether a sink is attached.\<close>

record Pit =
  channels :: "PitChannel list"
  accumulator_ns :: u64
  irq0 :: bool

definition pit_new :: Pit where
  "pit_new = \<lparr>channels = [channel_new, channel_new, channel_new], accumulator_ns = 0, irq0 = False\<rparr>"

definition attach_irq0 :: "Pit \<Rightarrow> Pit" where
  "attach_irq0 p = p\<lparr>irq0 := True\<rparr>"

definition update_channel :: "nat \<Rightarrow> (PitChannel \<Rightarrow> PitChannel) \<Rightarrow> Pit \<Rightarrow> Pit" where
  "update_channel i f p = p\<lparr>channels := (channels p)[i := f (channels p ! i)]\<rparr>"

definition pit_read_port :: "u16 \<Rightarrow> Pit \<Rightarrow> u8 \<times> Pit" where
  "pit_read_port port p =
     (let channel = unat (port AND 0x3) in
      if channel < 3 then
        (case channel_read_data (channels p ! channel) of
           (v, ch) \<Rightarrow> (v, p\<lparr>channels := (channels p)[channel := ch]\<rparr>))
      else (0, p))"

definition read_back :: "u8 \<Rightarrow> Pit \<Rightarrow> Pit" where
  "read_back val p =
     (let latch_count = (val AND 0x20 = 0); latch_status = (val AND 0x10 = 0);
          one = (\<lambda>idx ch.
            if val AND bitmask (idx + 1) = 0 then ch
            else
              let ch1 = (if latch_status \<and> latched_status ch = None
                         then ch\<lparr>latched_status := Some (status_byte ch)\<rparr> else ch)
              in if latch_count \<and> latched_count ch1 = None
                 then ch1\<lparr>latched_count := Some (pit_count ch1)\<rparr> else ch1)
      in p\<lparr>channels := map2 one [0..<length (channels p)] (channels p)\<rparr>)"

definition program_channel :: "AccessMode \<Rightarrow> ChannelMode \<Rightarrow> PitChannel \<Rightarrow> PitChannel" where
  "program_channel acc m ch =
     ch\<lparr>access := acc, mode := m, byte_latch := \<lparr>read_hi = False, write_hi = False\<rparr>,
        status := \<lparr>out_pin = False, null_count = True\<rparr>, pit_enabled := False\<rparr>"

definition pit_write_command :: "u8 \<Rightarrow> Pit \<Rightarrow> Pit" where
  "pit_write_command val p =
     (let channel_idx = unat (drop_bit 6 val AND 0x3) in
      if channel_idx \<ge> 3 then read_back val p
      else
        let acc = access_from_bits (drop_bit 4 val AND 0x3) in
        if acc = Latch
        then update_channel channel_idx (\<lambda>ch. ch\<lparr>latched_count := Some (pit_count ch)\<rparr>) p
        else update_channel channel_idx (program_channel acc (mode_from_bits (drop_bit 1 val AND 0x7))) p)"

definition pit_write_port :: "u16 \<Rightarrow> u8 \<Rightarrow> Pit \<Rightarrow> Pit" where
  "pit_write_port port val p =
     (if port = 0x43 then pit_write_command val p
      else let channel = unat (port AND 0x3) in
           if channel < 3 then update_channel channel (channel_write_data val) p else p)"

text \<open>One iteration of the loop of \<open>tick\<close>: whether channel 0 fired, and the levels driven.\<close>

definition pit_step :: "Pit \<Rightarrow> (bool \<times> bool list) \<times> Pit" where
  "pit_step p =
     (case channel_tick (channels p ! 0) of
        (fired, ch0) \<Rightarrow>
          ((fired, (if fired \<and> irq0 p then [True, False] else [])),
           p\<lparr>channels := [ch0, snd (channel_tick (channels p ! 1)), snd (channel_tick (channels p ! 2))]\<rparr>))"

fun pit_steps :: "nat \<Rightarrow> Pit \<Rightarrow> (bool \<times> bool list) \<times> Pit" where
  "pit_steps 0 p = ((False, []), p)"
| "pit_steps (Suc n) p =
     (case pit_step p of ((f, tr), p1) \<Rightarrow>
      case pit_steps n p1 of ((f', tr'), p2) \<Rightarrow> ((f \<or> f', tr @ tr'), p2))"

definition pit_tick :: "u64 \<Rightarrow> Pit \<Rightarrow> (bool \<times> bool list) \<times> Pit" where
  "pit_tick ns p =
     (let acc = accumulator_ns p + ns
      in pit_steps (unat (acc div NS_PER_TICK)) (p\<lparr>accumulator_ns := acc mod NS_PER_TICK\<rparr>))"

definition channel0_frequency :: "Pit \<Rightarrow> u32" where
  "channel0_frequency p =
     (let r = reload (channels p ! 0) in
      if r = 0 then PIT_FREQUENCY div 65536 else PIT_FREQUENCY div ucast r)"

text \<open>The port-bus adapter, which discards the access width.\<close>

definition pit_pio_read :: "u16 \<Rightarrow> u8 \<Rightarrow> Pit \<Rightarrow> u32 \<times> Pit" where
  "pit_pio_read port sz p = (case pit_read_port port p of (v, p') \<Rightarrow> (ucast v, p'))"

definition pit_pio_write :: "u16 \<Rightarrow> u8 \<Rightarrow> u32 \<Rightarrow> Pit \<Rightarrow> Pit" where
  "pit_pio_write port sz dat p = pit_write_port port (ucast dat) p"

definition pit_port_range :: "u16 \<times> u16" where
  "pit_port_range = (PIT_PORT_BASE, PIT_PORT_BASE + PIT_PORT_COUNT)"

section \<open>System Control Port B\<close>

definition PORT_B :: u16 where "PORT_B = 0x61"
definition TIMER2_GATE :: u8 where "TIMER2_GATE = 1"
definition SPEAKER_DATA :: u8 where "SPEAKER_DATA = 2"
definition WRITABLE_MASK :: u8 where "WRITABLE_MASK = 0x0F"
definition REFRESH_TOGGLE :: u8 where "REFRESH_TOGGLE = 0x10"
definition TIMER2_OUT :: u8 where "TIMER2_OUT = 0x20"

record SystemControlPortB =
  control :: u8
  refresh :: bool

definition portb_new :: SystemControlPortB where
  "portb_new = \<lparr>control = 0, refresh = False\<rparr>"

definition timer2_gated :: "SystemControlPortB \<Rightarrow> bool" where
  "timer2_gated s \<longleftrightarrow> control s AND TIMER2_GATE \<noteq> 0"

definition speaker_enabled :: "SystemControlPortB \<Rightarrow> bool" where
  "speaker_enabled s \<longleftrightarrow> control s AND SPEAKER_DATA \<noteq> 0"

definition portb_read :: "SystemControlPortB \<Rightarrow> Pit \<Rightarrow> u32 \<times> SystemControlPortB" where
  "portb_read s p =
     (let s1 = s\<lparr>refresh := \<not> refresh s\<rparr>;
          out2 = out_pin (status (channels p ! 2));
          val = control s1 AND WRITABLE_MASK;
          val = (if refresh s1 then val OR REFRESH_TOGGLE else val);
          val = (if out2 then val OR TIMER2_OUT else val)
      in (ucast val, s1))"

definition portb_write :: "u32 \<Rightarrow> SystemControlPortB \<Rightarrow> Pit \<Rightarrow> SystemControlPortB \<times> Pit" where
  "portb_write dat s p =
     (let byte = ucast dat in
      (s\<lparr>control := byte AND WRITABLE_MASK\<rparr>,
       update_channel 2 (\<lambda>ch. ch\<lparr>gate := (byte AND TIMER2_GATE \<noteq> 0)\<rparr>) p))"

section \<open>Time in batches\<close>

lemma pit_steps_add:
  "pit_steps (n + m) p =
     (case pit_steps n p of ((f, tr), p1) \<Rightarrow>
      case pit_steps m p1 of ((f', tr'), p2) \<Rightarrow> ((f \<or> f', tr @ tr'), p2))"
  by (induction n arbitrary: p) (auto split: prod.splits)

lemma pit_step_frame:
  "accumulator_ns (snd (pit_step p)) = accumulator_ns p" "irq0 (snd (pit_step p)) = irq0 p"
  "length (channels (snd (pit_step p))) = 3"
  by (simp_all add: pit_step_def split: prod.split)

lemma pit_step_accumulator: "pit_step (p\<lparr>accumulator_ns := a\<rparr>) = map_prod id (accumulator_ns_update (\<lambda>_. a)) (pit_step p)"
  by (simp add: pit_step_def split: prod.split)

lemma pit_steps_accumulator:
  "pit_steps n (p\<lparr>accumulator_ns := a\<rparr>) = map_prod id (accumulator_ns_update (\<lambda>_. a)) (pit_steps n p)"
  by (induction n arbitrary: p) (auto simp: pit_step_accumulator split: prod.split)

lemma pit_steps_frame:
  "accumulator_ns (snd (pit_steps n p)) = accumulator_ns p" "irq0 (snd (pit_steps n p)) = irq0 p"
  by (induction n arbitrary: p) (simp_all add: pit_step_frame split_beta)

text \<open>The device advanced by a natural number of nanoseconds.\<close>

definition pit_ns :: "nat \<Rightarrow> Pit \<Rightarrow> (bool \<times> bool list) \<times> Pit" where
  "pit_ns n p = pit_tick (of_nat n) p"

definition pit_room :: "Pit \<Rightarrow> nat" where
  "pit_room p = 2 ^ 64 - 1 - unat (accumulator_ns p)"

definition pit_join :: "bool \<times> bool list \<Rightarrow> bool \<times> bool list \<Rightarrow> bool \<times> bool list" where
  "pit_join a b = (fst a \<or> fst b, snd a @ snd b)"

lemma pit_ns_eq:
  assumes "n \<le> pit_room p"
  shows "pit_ns n p = pit_steps ((unat (accumulator_ns p) + n) div 838)
    (p\<lparr>accumulator_ns := of_nat ((unat (accumulator_ns p) + n) mod 838)\<rparr>)"
proof -
  have a: "unat (accumulator_ns p) < 2 ^ 64"
    using unsigned_less [of "accumulator_ns p", where 'a = nat] by simp
  with assms have n: "unat (accumulator_ns p) + n < 2 ^ 64" by (simp add: pit_room_def)
  then have "unat (of_nat n :: u64) = n" by (simp add: unat_of_nat)
  with n have u: "unat (accumulator_ns p + of_nat n) = unat (accumulator_ns p) + n"
    by (simp add: unat_add_no_wrap)
  have "of_nat ((unat (accumulator_ns p) + n) mod 838) = (accumulator_ns p + of_nat n) mod 838"
    using of_nat_unat_mod [of "accumulator_ns p + of_nat n" "838"] by (simp add: u)
  then show ?thesis
    by (simp add: pit_ns_def pit_tick_def Let_def NS_PER_TICK_def unat_div u)
qed

definition pit_ok :: "Pit \<Rightarrow> bool" where
  "pit_ok p \<longleftrightarrow> accumulator_ns p < 838"

interpretation pit_clock: batched_clock pit_ok pit_room "(False, [])" pit_join pit_ns
proof
  fix p :: Pit and n m
  assume ok: "pit_ok p"
  have lt: "unat (of_nat (x mod 838) :: u64) = x mod 838" for x
    by (simp add: unat_of_nat order_less_trans [OF mod_less_divisor])
  have "unat (accumulator_ns p) < 838" using ok by (simp add: pit_ok_def word_less_nat_alt)
  then show "pit_ns 0 p = ((False, []), p)" by (simp add: pit_ns_eq)
  show "pit_ok (snd (pit_ns n p))" if "n \<le> pit_room p"
    by (simp add: pit_ns_eq [OF that] pit_ok_def pit_steps_frame word_less_nat_alt lt)
  assume r: "n + m \<le> pit_room p"
  then have rn: "n \<le> pit_room p" by simp
  let ?x = "unat (accumulator_ns p) + n"
  have acc: "unat (accumulator_ns (snd (pit_ns n p))) = ?x mod 838"
    by (simp add: pit_ns_eq [OF rn] pit_steps_frame lt)
  have "?x mod 838 \<le> ?x" by (rule mod_less_eq_dividend)
  moreover have "unat (accumulator_ns p) < 2 ^ 64"
    using unsigned_less [of "accumulator_ns p", where 'a = nat] by simp
  ultimately show rm: "m \<le> pit_room (snd (pit_ns n p))"
    using r unfolding pit_room_def acc by linarith
  show "pit_ns (n + m) p =
      (pit_join (fst (pit_ns n p)) (fst (pit_ns m (snd (pit_ns n p)))), snd (pit_ns m (snd (pit_ns n p))))"
    unfolding pit_ns_eq [OF rm] acc
    unfolding pit_ns_eq [OF rn] pit_ns_eq [OF r] div_mod_split
    by (simp add: pit_steps_add pit_steps_accumulator pit_join_def split: prod.split)
qed

section \<open>Channel runs\<close>

text \<open>The number of times a channel fires in \<open>n\<close> input clocks, and the channel after them.\<close>

fun channel_run :: "nat \<Rightarrow> PitChannel \<Rightarrow> nat \<times> PitChannel" where
  "channel_run 0 ch = (0, ch)"
| "channel_run (Suc n) ch =
     (case channel_tick ch of (f, ch1) \<Rightarrow>
      case channel_run n ch1 of (k, ch2) \<Rightarrow> (of_bool f + k, ch2))"

lemma pit_steps_channel0:
  assumes "length (channels p) = 3"
  shows "pit_steps n p = ((f, tr), p') \<Longrightarrow>
    (f \<longleftrightarrow> 0 < fst (channel_run n (channels p ! 0))) \<and>
    tr = (if irq0 p then concat (replicate (fst (channel_run n (channels p ! 0))) [True, False]) else []) \<and>
    channels p' ! 0 = snd (channel_run n (channels p ! 0))"
proof (induction n arbitrary: p f tr p')
  case (Suc n)
  obtain g tr1 p1 where s: "pit_step p = ((g, tr1), p1)" by (metis prod.exhaust)
  obtain h tr2 where r: "pit_steps n p1 = ((h, tr2), p')" and ft: "f = (g \<or> h)" "tr = tr1 @ tr2"
    using Suc.prems s by (auto split: prod.splits)
  have "irq0 p1 = irq0 p" using pit_step_frame(2) [of p] s by simp
  moreover have "channel_tick (channels p ! 0) = (g, channels p1 ! 0)"
    "tr1 = (if g \<and> irq0 p then [True, False] else [])"
    using s by (auto simp: pit_step_def split: prod.splits)
  moreover note Suc.IH [OF r]
  ultimately show ?case by (auto simp: ft split: prod.splits)
qed simp

subsection \<open>The rate generator\<close>

definition clocks_of :: "u16 \<Rightarrow> nat" where
  "clocks_of c = (if c = 0 then 65536 else unat c)"

definition rate_running :: "PitChannel \<Rightarrow> bool" where
  "rate_running ch \<longleftrightarrow> pit_enabled ch \<and> gate ch \<and> mode ch = RateGenerator"

lemma clocks_of_bounds: "0 < clocks_of c" "clocks_of c \<le> 65536"
  using unsigned_less [of c, where 'a = nat] by (auto simp: clocks_of_def unat_gt_0)

lemma clocks_of_eq_1: "clocks_of c = 1 \<longleftrightarrow> c - 1 = 0"
proof -
  have "unat c = 1 \<longleftrightarrow> c = 1" by (metis unsigned_1 word_unat_eq_iff)
  then show ?thesis by (simp add: clocks_of_def)
qed

lemma clocks_of_pred: "clocks_of c \<noteq> 1 \<Longrightarrow> clocks_of (c - 1) = clocks_of c - 1"
proof (cases "c = 0")
  case False
  assume "clocks_of c \<noteq> 1"
  then have "c - 1 \<noteq> 0" using clocks_of_eq_1 [of c] by blast
  moreover have "1 \<le> c" using False by (simp add: word_le_nat_alt Suc_le_eq unat_gt_0)
  ultimately show ?thesis using False by (simp add: clocks_of_def unat_diff)
next
  case True
  moreover have "unat (- 1 :: u16) = 65535" by (simp add: unsigned_minus_1_eq_mask mask_eq_exp_minus_1)
  ultimately show ?thesis by (simp add: clocks_of_def)
qed

lemma rate_tick:
  assumes "rate_running ch"
  shows "fst (channel_tick ch) \<longleftrightarrow> clocks_of (pit_count ch) = 1"
    and "rate_running (snd (channel_tick ch))" "reload (snd (channel_tick ch)) = reload ch"
    and "clocks_of (pit_count (snd (channel_tick ch))) =
      (if clocks_of (pit_count ch) = 1 then clocks_of (reload ch) else clocks_of (pit_count ch) - 1)"
  using assms clocks_of_eq_1 [of "pit_count ch"] clocks_of_pred [of "pit_count ch"]
  by (auto simp: rate_running_def channel_tick_def set_output_def Let_def)

lemma rate_run:
  assumes "rate_running ch" "clocks_of (pit_count ch) \<le> clocks_of (reload ch)"
  shows "fst (channel_run n ch) =
    (clocks_of (reload ch) - clocks_of (pit_count ch) + n) div clocks_of (reload ch)"
  using assms
proof (induction n arbitrary: ch)
  case 0
  then show ?case using clocks_of_bounds(1) [of "pit_count ch"] by simp
next
  case (Suc n)
  let ?P = "clocks_of (reload ch)" and ?L = "clocks_of (pit_count ch)" and ?ch = "snd (channel_tick ch)"
  note t = rate_tick [OF Suc.prems(1)]
  have le: "clocks_of (pit_count ?ch) \<le> clocks_of (reload ?ch)" using Suc.prems(2) by (auto simp: t(3,4))
  have run: "fst (channel_run (Suc n) ch) = of_bool (?L = 1) + fst (channel_run n ?ch)"
    by (simp add: split_beta t(1))
  show ?case
  proof (cases "?L = 1")
    case True
    then have "?P - ?L + Suc n = n + ?P" using clocks_of_bounds(1) [of "reload ch"] by simp
    then have "(?P - ?L + Suc n) div ?P = (n + ?P) div ?P" by (simp only:)
    also have "\<dots> = Suc (n div ?P)"
      using clocks_of_bounds(1) [of "reload ch"] div_add_self2 [of ?P n] by simp
    finally have "(?P - ?L + Suc n) div ?P = Suc (n div ?P)" .
    with True show ?thesis using Suc.IH [OF t(2) le] by (simp add: run t(3,4) del: channel_run.simps)
  next
    case False
    then have "?P - (?L - 1) + n = ?P - ?L + Suc n"
      using Suc.prems(2) clocks_of_bounds(1) [of "pit_count ch"] by simp
    with False show ?thesis using Suc.IH [OF t(2) le] by (simp add: run t(3,4) del: channel_run.simps)
  qed
qed

subsection \<open>Ticking leaves the access state alone\<close>

lemma channel_tick_frame [simp]:
  "access (snd (channel_tick ch)) = access ch" "latched_count (snd (channel_tick ch)) = latched_count ch"
  "latched_status (snd (channel_tick ch)) = latched_status ch"
  "byte_latch (snd (channel_tick ch)) = byte_latch ch"
  by (auto simp: channel_tick_def set_output_def Let_def split: ChannelMode.splits)

definition access_state :: "PitChannel \<Rightarrow> AccessMode \<times> u16 option \<times> u8 option \<times> ByteLatch" where
  "access_state ch = (access ch, latched_count ch, latched_status ch, byte_latch ch)"

lemma pit_steps_access:
  "length (channels p) = 3 \<Longrightarrow>
   length (channels (snd (pit_steps n p))) = 3 \<and>
   (i < 3 \<longrightarrow> access_state (channels (snd (pit_steps n p)) ! i) = access_state (channels p ! i))"
proof (induction n arbitrary: p)
  case (Suc n)
  have "i < 3 \<Longrightarrow> access_state (channels (snd (pit_step p)) ! i) = access_state (channels p ! i)"
    by (auto simp: pit_step_def access_state_def split_beta less_Suc_eq numeral_3_eq_3 numeral_2_eq_2)
  with Suc.IH [of "snd (pit_step p)"] show ?case
    by (simp add: split_beta pit_step_frame)
qed simp

lemma pit_tick_access:
  "length (channels p) = 3 \<Longrightarrow>
   length (channels (snd (pit_tick ns p))) = 3 \<and>
   (i < 3 \<longrightarrow> access_state (channels (snd (pit_tick ns p)) ! i) = access_state (channels p ! i))"
  using pit_steps_access [of "p\<lparr>accumulator_ns := (accumulator_ns p + ns) mod NS_PER_TICK\<rparr>"]
  by (simp add: pit_tick_def Let_def)

subsection \<open>Counts the emulation does not serve\<close>

text \<open>A divisor of 65536 is written as 0.  The square-wave branch takes a count of 0 as "reload",
  and reloads 0: the channel never fires.  The terminal-count branch takes it as already expired.\<close>

lemma square_wave_65536_silent:
  assumes "mode ch = SquareWave" "reload ch = 0" "pit_count ch = 0"
  shows "fst (channel_run n ch) = 0"
proof -
  have "channel_tick ch = (False, ch)" using assms by (simp add: channel_tick_def)
  then show ?thesis by (induction n) (simp_all split: prod.splits)
qed

lemma terminal_count_65536_silent:
  "mode ch = InterruptOnTerminalCount \<Longrightarrow> pit_count ch = 0 \<Longrightarrow> fst (channel_run n ch) = 0"
proof (induction n arbitrary: ch)
  case (Suc n)
  then have "\<not> fst (channel_tick ch)" "mode (snd (channel_tick ch)) = InterruptOnTerminalCount"
    "pit_count (snd (channel_tick ch)) = 0"
    by (auto simp: channel_tick_def set_output_def)
  with Suc.IH [of "snd (channel_tick ch)"] show ?case by (simp add: split_beta)
qed simp

text \<open>With single-byte access a latched count is never released.\<close>

lemma single_byte_latch_kept:
  "access ch \<in> {LoByte, HiByte} \<Longrightarrow> latched_status ch = None \<Longrightarrow>
   latched_count (snd (channel_read_data ch)) = latched_count ch"
  by (auto simp: channel_read_data_def Let_def split: option.splits)

section \<open>Correctness\<close>

text \<open>C23 (equivalence).  The PIT does not depend on how elapsed nanoseconds are handed over: any
  sequence of calls drives the same levels into IRQ0, in the same order, and leaves the same device
  as one call with the sum.\<close>

theorem pit_batching:
  assumes "pit_ok p" "sum_list ns \<le> pit_room p"
  shows "run_batches (False, []) pit_join pit_ns ns p = pit_tick (of_nat (sum_list ns)) p"
  using pit_clock.run_batches_sum [OF assms] by (simp add: pit_ns_def)

theorem pit_batching_witness:
  "pit_ok pit_new \<and> run_batches (False, []) pit_join pit_ns [500, 400, 776] pit_new = pit_tick 1676 pit_new"
proof -
  have "pit_ok pit_new" "sum_list [500, 400, 776] \<le> pit_room pit_new"
    by (simp_all add: pit_ok_def pit_room_def pit_new_def)
  from this(1) pit_batching [OF this] show ?thesis by simp
qed

text \<open>A channel programmed with control word, low byte and high byte.\<close>

definition program_lohi :: "u8 \<Rightarrow> u8 \<Rightarrow> u8 \<Rightarrow> Pit \<Rightarrow> Pit" where
  "program_lohi cmd lo hi p = pit_write_port 0x40 hi (pit_write_port 0x40 lo (pit_write_port 0x43 cmd p))"

lemma reload_bytes: "((((r :: u16) AND 0xFF00) OR ucast (lo :: u8)) AND 0x00FF) OR push_bit 8 (ucast (hi :: u8)) =
    ucast lo OR push_bit 8 (ucast hi)"
  by (rule word_eq_by_bits)
     (simp add: bit_or_iff bit_and_iff bit_push_bit_iff bit_ucast_iff bit_beyond upt_widths)

lemma load_count_eq:
  "load_count ch = ch\<lparr>pit_count := reload ch, pit_enabled := True,
     status := (status ch)\<lparr>out_pin := False, null_count := False\<rparr>\<rparr>"
  by (simp add: load_count_def Let_def ucast_ucast_up)

lemma write_lohi_channel:
  "channel_write_data hi (channel_write_data lo (program_channel LoHiByte m ch)) =
     ch\<lparr>access := LoHiByte, mode := m, byte_latch := \<lparr>read_hi = False, write_hi = False\<rparr>,
        status := \<lparr>out_pin = False, null_count = False\<rparr>, pit_enabled := True,
        reload := ucast lo OR push_bit 8 (ucast hi), pit_count := ucast lo OR push_bit 8 (ucast hi)\<rparr>"
  by (simp add: channel_write_data_def program_channel_def load_count_eq Let_def reload_bytes)

lemma update_channel_fuse:
  "i < length (channels p) \<Longrightarrow> update_channel i f (update_channel i g p) = update_channel i (\<lambda>ch. f (g ch)) p"
  by (simp add: update_channel_def)

lemma program_lohi_eq:
  assumes "length (channels p) = 3"
    "drop_bit 6 cmd AND 0x3 = 0" "access_from_bits (drop_bit 4 cmd AND 0x3) = LoHiByte"
  shows "program_lohi cmd lo hi p = update_channel 0
    (\<lambda>ch. channel_write_data hi (channel_write_data lo
       (program_channel LoHiByte (mode_from_bits (drop_bit 1 cmd AND 0x7)) ch))) p"
proof -
  have cmd: "pit_write_port 0x43 cmd p =
      update_channel 0 (program_channel LoHiByte (mode_from_bits (drop_bit 1 cmd AND 0x7))) p"
    using assms(2,3) by (simp add: pit_write_port_def pit_write_command_def Let_def)
  have dat: "pit_write_port 0x40 v q = update_channel 0 (channel_write_data v) q" for v q
    by (simp add: pit_write_port_def)
  have len: "length (channels (update_channel i f q)) = length (channels q)" for i f q
    by (simp add: update_channel_def)
  show ?thesis
    using assms(1) by (simp add: program_lohi_def cmd dat update_channel_fuse len)
qed

text \<open>The levels a running rate generator drives: one edge per reload since the phase it is in.\<close>

lemma rate_generator_trace:
  assumes "rate_running (channels p ! 0)" "clocks_of (pit_count (channels p ! 0)) \<le> clocks_of (reload (channels p ! 0))"
    and "length (channels p) = 3" "irq0 p" "unat (accumulator_ns p) + unat ns < 2 ^ 64"
  shows "snd (fst (pit_tick ns p)) = concat (replicate
    ((clocks_of (reload (channels p ! 0)) - clocks_of (pit_count (channels p ! 0)) +
      (unat (accumulator_ns p) + unat ns) div 838) div clocks_of (reload (channels p ! 0))) [True, False])"
proof -
  let ?s = "p\<lparr>accumulator_ns := (accumulator_ns p + ns) mod NS_PER_TICK\<rparr>"
  have u: "unat ((accumulator_ns p + ns) div NS_PER_TICK) = (unat (accumulator_ns p) + unat ns) div 838"
    using assms(5) by (simp add: unat_div NS_PER_TICK_def unat_add_no_wrap)
  show ?thesis
    using pit_steps_channel0 [of ?s "unat ((accumulator_ns p + ns) div NS_PER_TICK)"] assms(3,4) u
      rate_run [OF assms(1,2)]
    by (simp add: pit_tick_def Let_def split_beta) (metis prod.collapse)
qed

text \<open>C30 (functional).  The rate generator is exact.  A guest that programs channel 0 for mode 2 with
  the count \<open>hi:lo\<close> (0 standing for 65536) gets, in \<open>ns\<close> nanoseconds, one rising and falling edge on
  IRQ0 per full period of that many PIT clocks of 838 ns, counting what was left over before.\<close>

theorem pit_rate_generator:
  assumes "length (channels p) = 3" "gate (channels p ! 0)" "irq0 p"
    "unat (accumulator_ns p) + unat ns < 2 ^ 64"
  shows "snd (fst (pit_tick ns (program_lohi 0x34 lo hi p))) =
    concat (replicate ((unat (accumulator_ns p) + unat ns) div 838 div
      clocks_of (ucast lo OR push_bit 8 (ucast hi))) [True, False])"
proof -
  let ?r = "ucast lo OR push_bit 8 (ucast hi) :: u16"
  let ?q = "program_lohi 0x34 lo hi p"
  have cmd: "drop_bit 6 (0x34 :: u8) AND 0x3 = 0" "access_from_bits (drop_bit 4 (0x34 :: u8) AND 0x3) = LoHiByte"
    "mode_from_bits (drop_bit 1 (0x34 :: u8) AND 0x7) = RateGenerator" by code_simp+
  have q: "?q = update_channel 0 (\<lambda>ch. channel_write_data hi (channel_write_data lo
       (program_channel LoHiByte RateGenerator ch))) p"
    using program_lohi_eq [OF assms(1) cmd(1,2)] by (simp only: cmd(3))
  have ch: "rate_running (channels ?q ! 0)" "pit_count (channels ?q ! 0) = ?r" "reload (channels ?q ! 0) = ?r"
    and fr: "length (channels ?q) = 3" "irq0 ?q" "accumulator_ns ?q = accumulator_ns p"
    using assms(1-3) by (simp_all add: q update_channel_def write_lohi_channel rate_running_def)
  show ?thesis
    using rate_generator_trace [of ?q ns] ch fr assms(4) by simp
qed

theorem pit_rate_generator_witness:
  "snd (fst (pit_tick 8380 (program_lohi 0x34 4 0 (attach_irq0 pit_new)))) = [True, False, True, False]"
proof -
  let ?p = "attach_irq0 pit_new"
  have "length (channels ?p) = 3" "gate (channels ?p ! 0)" "irq0 ?p"
    "unat (accumulator_ns ?p) + unat (8380 :: u64) < 2 ^ 64"
    by (simp_all add: attach_irq0_def pit_new_def channel_new_def)
  note r = pit_rate_generator [OF this, of 4 0]
  have "(unat (accumulator_ns ?p) + unat (8380 :: u64)) div 838 div
      clocks_of (ucast (4 :: u8) OR push_bit 8 (ucast (0 :: u8))) = Suc (Suc 0)"
    by (simp add: attach_irq0_def pit_new_def clocks_of_def)
  with r show ?thesis by (simp only: replicate.simps concat.simps append.simps)
qed

text \<open>The counter-latch command takes a snapshot: however long the channel runs
  before the guest fetches it, the two data reads return the low and the high byte of the count at
  the moment of the command, and then the latch is released.\<close>

theorem pit_latch_snapshot:
  assumes "length (channels p) = 3" "i < 3"
    and ch: "access (channels p ! i) = LoHiByte" "\<not> read_hi (byte_latch (channels p ! i))"
      "latched_status (channels p ! i) = None"
    and q: "q = snd (pit_tick ns (pit_write_port 0x43 (push_bit 6 (of_nat i)) p))"
    and lo: "(lo, q1) = pit_read_port (0x40 + of_nat i) q"
    and hi: "(hi, q2) = pit_read_port (0x40 + of_nat i) q1"
  shows "ucast lo OR push_bit 8 (ucast hi) = pit_count (channels p ! i) \<and>
         latched_count (channels q2 ! i) = None"
proof -
  have i: "i = 0 \<or> i = 1 \<or> i = 2" using assms(2) by auto
  let ?c = "pit_count (channels p ! i)"
  have port: "unat ((0x40 + of_nat i :: u16) AND 0x3) = i" using i by auto
  have cmd: "pit_write_port 0x43 (push_bit 6 (of_nat i)) p =
      update_channel i (\<lambda>ch. ch\<lparr>latched_count := Some (pit_count ch)\<rparr>) p"
    using i by (auto simp: pit_write_port_def pit_write_command_def access_from_bits_def Let_def)
  have a: "access_state (channels q ! i) = (LoHiByte, Some ?c, None, byte_latch (channels p ! i))"
    "length (channels q) = 3"
    using pit_tick_access [of "update_channel i (\<lambda>ch. ch\<lparr>latched_count := Some (pit_count ch)\<rparr>) p" ns i] assms(1,2) ch
    by (simp_all add: q cmd update_channel_def access_state_def)
  have l: "lo = ucast (?c AND 0xFF)" "length (channels q1) = 3"
    "access_state (channels q1 ! i) = (LoHiByte, Some ?c, None, (byte_latch (channels p ! i))\<lparr>read_hi := True\<rparr>)"
    using lo a ch(2) assms(2)
    by (simp_all add: pit_read_port_def port channel_read_data_def access_state_def Let_def split: prod.splits)
  have h: "hi = ucast (drop_bit 8 ?c AND 0xFF)" "latched_count (channels q2 ! i) = None"
    using hi l assms(2)
    by (simp_all add: pit_read_port_def port channel_read_data_def access_state_def Let_def split: prod.splits)
  have "ucast (ucast (?c AND 0xFF) :: u8) OR push_bit 8 (ucast (ucast (drop_bit 8 ?c AND 0xFF) :: u8)) = ?c"
    by (rule word_eq_by_bits)
       (simp add: bit_or_iff bit_and_iff bit_push_bit_iff bit_ucast_iff bit_drop_bit_eq upt_widths)
  with l h show ?thesis by simp
qed

theorem pit_latch_snapshot_witness:
  "\<exists>q lo q1 hi q2. q = snd (pit_tick 8380 (pit_write_port 0x43 0 (program_lohi 0x34 0x34 0x12 pit_new))) \<and>
     (lo, q1) = pit_read_port 0x40 q \<and> (hi, q2) = pit_read_port 0x40 q1 \<and>
     ucast lo OR push_bit 8 (ucast hi) = (0x1234 :: u16) \<and> latched_count (channels q2 ! 0) = None"
proof -
  let ?p = "program_lohi 0x34 0x34 0x12 pit_new"
  let ?q = "snd (pit_tick 8380 (pit_write_port 0x43 (push_bit 6 (of_nat 0)) ?p))"
  have h: "length (channels ?p) = 3" "access (channels ?p ! 0) = LoHiByte"
    "\<not> read_hi (byte_latch (channels ?p ! 0))" "latched_status (channels ?p ! 0) = None"
    "pit_count (channels ?p ! 0) = 0x1234"
    by code_simp+
  obtain lo q1 where lo: "(lo, q1) = pit_read_port (0x40 + of_nat 0) ?q" by (metis prod.exhaust)
  obtain hi q2 where hi: "(hi, q2) = pit_read_port (0x40 + of_nat 0) q1" by (metis prod.exhaust)
  from pit_latch_snapshot [OF h(1) _ h(2-4) refl lo hi] lo hi h(5) show ?thesis by auto
qed

end
