(* ===== verification/Tsc.thy ===== *)
theory Tsc
  imports Prelude
begin

text \<open>
  The guest time-stamp counters (\<open>enlil-devices/src/timer/tsc.rs\<close>).  The signed offset is its
  two's-complement bit pattern, so that the casts between \<open>u64\<close> and \<open>i64\<close> are the identity and the
  arithmetic is the wrapping one of the release profile.  Reading the host counter executes
  \<open>RDTSC\<close>; the value read is an argument.
\<close>

unbundle bit_operations_syntax

record TscState =
  tsc_offset :: u64
  frequency_hz :: u64
  scaling_enabled :: bool
  scaling_ratio :: u64

definition tsc_default :: TscState where
  "tsc_default = \<lparr>tsc_offset = 0, frequency_hz = 0, scaling_enabled = False, scaling_ratio = 0x10000\<rparr>"

record TscManager =
  host_frequency_hz :: u64
  guest_frequency_hz :: u64
  vcpu_states :: "TscState list"
  creation_tsc :: u64

text \<open>The host counter in guest ticks: \<open>(host * ratio) >> 16\<close> in 128-bit arithmetic.\<close>

definition scaled_tsc :: "TscState \<Rightarrow> u64 \<Rightarrow> u64" where
  "scaled_tsc s host =
     (if scaling_enabled s
      then ucast (drop_bit 16 (ucast host * ucast (scaling_ratio s) :: u128))
      else host)"

definition tsc_ratio :: "u64 \<Rightarrow> u64 \<Rightarrow> u128" where
  "tsc_ratio host_freq guest_freq =
     (if guest_freq \<noteq> host_freq \<and> 0 < host_freq
      then push_bit 16 (ucast guest_freq) div ucast host_freq
      else 0x10000)"

definition tsc_new :: "u64 \<Rightarrow> u64 \<Rightarrow> u64 \<Rightarrow> nat \<Rightarrow> TscManager" where
  "tsc_new host_tsc host_freq guest_freq0 vcpu_count =
     (let guest_freq = (if guest_freq0 = 0 then host_freq else guest_freq0);
          needs_scaling = (guest_freq \<noteq> host_freq);
          ratio = tsc_ratio host_freq guest_freq
      in \<lparr>host_frequency_hz = host_freq, guest_frequency_hz = guest_freq,
          vcpu_states = replicate vcpu_count
            \<lparr>tsc_offset = - host_tsc, frequency_hz = guest_freq, scaling_enabled = needs_scaling,
             scaling_ratio = (if ratio \<le> 0xFFFFFFFFFFFFFFFF then ucast ratio else - 1)\<rparr>,
          creation_tsc = host_tsc\<rparr>)"

definition vcpu_state :: "nat \<Rightarrow> TscManager \<Rightarrow> TscState option" where
  "vcpu_state i m = (if i < length (vcpu_states m) then Some (vcpu_states m ! i) else None)"

definition vmcs_tsc_offset :: "nat \<Rightarrow> TscManager \<Rightarrow> u64" where
  "vmcs_tsc_offset i m = (case vcpu_state i m of None \<Rightarrow> 0 | Some s \<Rightarrow> tsc_offset s)"

definition guest_tsc_now :: "u64 \<Rightarrow> nat \<Rightarrow> TscManager \<Rightarrow> u64" where
  "guest_tsc_now host_tsc i m =
     (case vcpu_state i m of None \<Rightarrow> 0 | Some s \<Rightarrow> scaled_tsc s host_tsc + tsc_offset s)"

definition set_guest_tsc :: "u64 \<Rightarrow> nat \<Rightarrow> u64 \<Rightarrow> TscManager \<Rightarrow> TscManager" where
  "set_guest_tsc host_tsc i guest_tsc m =
     (case vcpu_state i m of None \<Rightarrow> m
      | Some s \<Rightarrow>
          m\<lparr>vcpu_states := (vcpu_states m)[i := s\<lparr>tsc_offset := guest_tsc - scaled_tsc s host_tsc\<rparr>]\<rparr>)"

section \<open>Scaling\<close>

text \<open>The ratio a vCPU runs at, in units of \<open>2 ^ -16\<close>.\<close>

definition tsc_rate :: "TscState \<Rightarrow> nat" where
  "tsc_rate s = (if scaling_enabled s then unat (scaling_ratio s) else 2 ^ 16)"

lemma scaled_tsc_of_nat: "scaled_tsc s h = of_nat (unat h * tsc_rate s div 2 ^ 16)"
proof -
  have "ucast w = (of_nat (unat w) :: u64)" for w :: u128
    by simp
  from this [of "drop_bit 16 (ucast h * ucast (scaling_ratio s))"] show ?thesis
    by (simp only: scaled_tsc_def tsc_rate_def unat_drop_bit unat_wide_mul) simp
qed

lemma div_diff_near:
  fixes x y d :: nat
  assumes "y \<le> x" "0 < d"
  shows "(x div d - y div d) * d < x - y + d" "x - y < (x div d - y div d) * d + d"
proof -
  have "y div d * d \<le> x div d * d" using assms(1) by (simp add: div_le_mono)
  moreover have "x div d * d + x mod d = x" "y div d * d + y mod d = y" by simp_all
  moreover have "x mod d < d" "y mod d < d" using assms(2) by simp_all
  ultimately show "(x div d - y div d) * d < x - y + d" "x - y < (x div d - y div d) * d + d"
    using assms(1) unfolding diff_mult_distrib by linarith+
qed

section \<open>Correctness\<close>

text \<open>After a vCPU's counter is set to \<open>g\<close> at host time \<open>h\<close>, the guest reads
  \<open>g + d\<close> at any later host time \<open>h'\<close>, where the \<open>d\<close> ticks are the elapsed host ticks times the
  scaling ratio, to within one guest tick; the counter of every other vCPU is as before.\<close>

theorem tsc_sync:
  assumes s: "vcpu_state i m = Some s" and h: "h \<le> h'"
  shows "\<exists>d. guest_tsc_now h' i (set_guest_tsc h i g m) = g + of_nat d \<and>
           d * 2 ^ 16 < (unat h' - unat h) * tsc_rate s + 2 ^ 16 \<and>
           (unat h' - unat h) * tsc_rate s < d * 2 ^ 16 + 2 ^ 16 \<and>
           (\<forall>j t. j \<noteq> i \<longrightarrow> guest_tsc_now t j (set_guest_tsc h i g m) = guest_tsc_now t j m)"
proof -
  let ?x = "unat h' * tsc_rate s" and ?y = "unat h * tsc_rate s"
  let ?d = "?x div 2 ^ 16 - ?y div 2 ^ 16"
  have le: "?y \<le> ?x" using h by (simp add: word_le_nat_alt)
  then have "?y div 2 ^ 16 \<le> ?x div 2 ^ 16" by (rule div_le_mono)
  then have "scaled_tsc s h' - scaled_tsc s h = of_nat ?d"
    by (simp add: scaled_tsc_of_nat of_nat_diff)
  moreover have i: "i < length (vcpu_states m)" "s = vcpu_states m ! i"
    using s by (auto simp: vcpu_state_def split: if_splits)
  moreover have "scaled_tsc (s\<lparr>tsc_offset := x\<rparr>) h' = scaled_tsc s h'" for x
    by (simp add: scaled_tsc_def)
  ultimately have now: "guest_tsc_now h' i (set_guest_tsc h i g m) = g + of_nat ?d"
    by (simp add: guest_tsc_now_def set_guest_tsc_def vcpu_state_def algebra_simps)
  have "guest_tsc_now t j (set_guest_tsc h i g m) = guest_tsc_now t j m" if "j \<noteq> i" for j t
    using that by (simp add: guest_tsc_now_def set_guest_tsc_def vcpu_state_def)
  with now div_diff_near [OF le, of "2 ^ 16"] show ?thesis
    by (intro exI [of _ ?d]) (simp add: diff_mult_distrib)
qed

theorem tsc_sync_witness:
  "\<exists>d. guest_tsc_now 3000 0 (set_guest_tsc 1000 0 7 (tsc_new 500 2000 3000 2)) = 7 + of_nat d \<and>
     d = 3000"
proof -
  let ?m = "tsc_new 500 2000 3000 2"
  have s: "vcpu_state 0 ?m = Some (vcpu_states ?m ! 0)" by (simp add: vcpu_state_def tsc_new_def Let_def)
  have r: "tsc_rate (vcpu_states ?m ! 0) = 98304"
    by (simp add: tsc_rate_def tsc_new_def Let_def tsc_ratio_def)
  from tsc_sync [OF s, of 1000 3000 7] obtain d where
    "guest_tsc_now 3000 0 (set_guest_tsc 1000 0 7 ?m) = 7 + of_nat d"
    "d * 2 ^ 16 < (unat (3000 :: u64) - unat (1000 :: u64)) * 98304 + 2 ^ 16"
    "(unat (3000 :: u64) - unat (1000 :: u64)) * 98304 < d * 2 ^ 16 + 2 ^ 16"
    unfolding r by auto
  moreover from this(2,3) have "d = 3000" by simp
  ultimately show ?thesis by blast
qed

text \<open>Without scaling a guest counter starts at 0 when the manager is created; with scaling it starts
  at the difference of the scaled and the raw host counter.\<close>

lemma tsc_start:
  "i < n \<Longrightarrow> guest_tsc_now h i (tsc_new h f 0 n) = 0"
  "i < n \<Longrightarrow> guest_tsc_now h i (tsc_new h f g n) =
     scaled_tsc (vcpu_states (tsc_new h f g n) ! i) h - h"
  by (simp_all add: guest_tsc_now_def vcpu_state_def tsc_new_def Let_def scaled_tsc_def)

lemma tsc_scaled_start_example: "guest_tsc_now 1000000 0 (tsc_new 1000000 2000 4000 1) = 1000000"
  by (simp add: guest_tsc_now_def vcpu_state_def tsc_new_def Let_def scaled_tsc_def tsc_ratio_def)

end
