(* ===== verification/Paravirt.thy ===== *)
theory Paravirt
  imports Le_Bytes
begin

text \<open>
  The paravirtual clock pages (\<open>enlil-devices/src/timer/paravirt.rs\<close>): the KVM clock page for Linux
  guests and the Hyper-V reference TSC page for Windows guests, as the serialized bytes the manager
  hands to the run loop.  The version and sequence counters wrap, as in the release profile.
\<close>

section \<open>KVM clock\<close>

record KvmClock =
  kvm_page_gpa :: u64
  kvm_version :: u32
  kvm_tsc_freq_hz :: u64

definition kvm_new :: "u64 \<Rightarrow> u64 \<Rightarrow> KvmClock" where
  "kvm_new gpa freq = \<lparr>kvm_page_gpa = gpa, kvm_version = 0, kvm_tsc_freq_hz = freq\<rparr>"

text \<open>The shift is an \<open>i8\<close> that is only 0 or 32.\<close>

definition compute_mul_shift :: "KvmClock \<Rightarrow> u32 \<times> u8" where
  "compute_mul_shift k =
     (if kvm_tsc_freq_hz k = 0 then (0, 0)
      else
        let mul = push_bit 32 1000000000 div ucast (kvm_tsc_freq_hz k) :: u128
        in (ucast mul, 32))"

definition kvm_update :: "u64 \<Rightarrow> u64 \<Rightarrow> KvmClock \<Rightarrow> u8 list \<times> KvmClock" where
  "kvm_update current_tsc system_time_ns k0 =
     (let k = k0\<lparr>kvm_version := kvm_version k0 + 2\<rparr> in
      case compute_mul_shift k of (mul, shift) \<Rightarrow>
        let page = replicate 64 0;
            page = copy_at 0 (to_le_bytes 4 (kvm_version k)) page;
            page = copy_at 8 (to_le_bytes 8 current_tsc) page;
            page = copy_at 16 (to_le_bytes 8 system_time_ns) page;
            page = copy_at 24 (to_le_bytes 4 mul) page;
            page = page[28 := shift];
            page = page[29 := 0x01]
        in (page, k))"

section \<open>Hyper-V reference TSC\<close>

record HyperVReferenceTsc =
  hv_page_gpa :: u64
  hv_sequence :: u32
  hv_tsc_freq_hz :: u64
  ref_freq_hz :: u64

definition hv_new :: "u64 \<Rightarrow> u64 \<Rightarrow> HyperVReferenceTsc" where
  "hv_new gpa freq =
     \<lparr>hv_page_gpa = gpa, hv_sequence = 0, hv_tsc_freq_hz = freq, ref_freq_hz = 10000000\<rparr>"

definition compute_scale :: "HyperVReferenceTsc \<Rightarrow> u64" where
  "compute_scale h =
     (if hv_tsc_freq_hz h = 0 then 0
      else ucast (push_bit 64 (ucast (ref_freq_hz h)) div ucast (hv_tsc_freq_hz h) :: u128))"

definition hv_update :: "u64 \<Rightarrow> HyperVReferenceTsc \<Rightarrow> u8 list \<times> HyperVReferenceTsc" where
  "hv_update offset h0 =
     (let h = h0\<lparr>hv_sequence := hv_sequence h0 + 1\<rparr>;
          scale = compute_scale h;
          page = replicate 32 0;
          page = copy_at 0 (to_le_bytes 4 (hv_sequence h)) page;
          page = copy_at 8 (to_le_bytes 8 scale) page;
          page = copy_at 16 (to_le_bytes 8 offset) page
      in (page, h))"

definition hv_invalidate :: "HyperVReferenceTsc \<Rightarrow> u8 list" where
  "hv_invalidate h = copy_at 0 (to_le_bytes 4 (0 :: u32)) (replicate 32 0)"

section \<open>Fixed-point rates\<close>

text \<open>A rate \<open>N / f\<close> held as the fraction \<open>m / B\<close> with \<open>m = N * B div f\<close> is the rate rounded down.\<close>

lemma fixed_point_near:
  fixes N B f :: nat
  assumes "0 < f"
  shows "(N * B div f) * f \<le> N * B" "N * B < (N * B div f + 1) * f"
  using dividend_less_div_times [OF assms, of "N * B"] by (simp_all add: div_times_less_eq_dividend)

text \<open>The multiplier fits its field when the counter is faster than the unit.\<close>

lemma div_lt_if_faster: "N < f \<Longrightarrow> 0 < B \<Longrightarrow> N * B div f < (B :: nat)"
  by (simp add: div_less_iff_less_mult mult.commute)

lemma mul_shift_exact:
  assumes "1000000000 < unat (kvm_tsc_freq_hz k)"
  shows "compute_mul_shift k = (of_nat (1000000000 * 2 ^ 32 div unat (kvm_tsc_freq_hz k)), 32)"
    and "unat (of_nat (1000000000 * 2 ^ 32 div unat (kvm_tsc_freq_hz k)) :: u32) =
      1000000000 * 2 ^ 32 div unat (kvm_tsc_freq_hz k)"
proof -
  let ?f = "kvm_tsc_freq_hz k"
  have nz: "?f \<noteq> 0" using assms by auto
  have "unat (push_bit 32 1000000000 div ucast ?f :: u128) = 1000000000 * 2 ^ 32 div unat ?f"
    by (simp add: unat_div unat_ucast_up)
  then have "(ucast (push_bit 32 1000000000 div ucast ?f :: u128) :: u32) =
      of_nat (1000000000 * 2 ^ 32 div unat ?f)"
    by (metis of_nat_unat)
  with nz show "compute_mul_shift k = (of_nat (1000000000 * 2 ^ 32 div unat ?f), 32)"
    by (simp add: compute_mul_shift_def Let_def)
  have "1000000000 * 2 ^ 32 div unat ?f < 2 ^ 32"
    by (rule div_lt_if_faster [OF assms]) simp
  then show "unat (of_nat (1000000000 * 2 ^ 32 div unat ?f) :: u32) = 1000000000 * 2 ^ 32 div unat ?f"
    by (simp add: unat_of_nat)
qed

lemma scale_exact:
  assumes "unat (ref_freq_hz h) < unat (hv_tsc_freq_hz h)"
  shows "unat (compute_scale h) = unat (ref_freq_hz h) * 2 ^ 64 div unat (hv_tsc_freq_hz h)"
proof -
  let ?f = "hv_tsc_freq_hz h" and ?r = "ref_freq_hz h"
  have "unat ?r * 2 ^ 64 < 2 ^ 128" using unat_bound [of ?r] by simp
  then have p: "unat (push_bit 64 (ucast ?r) :: u128) = unat ?r * 2 ^ 64"
    by (subst unat_push_bit_no_wrap) (simp_all add: unat_ucast_up)
  have q: "unat (push_bit 64 (ucast ?r) div ucast ?f :: u128) = unat ?r * 2 ^ 64 div unat ?f"
    unfolding unat_div p by (simp add: unat_ucast_up)
  have "unat ?r * 2 ^ 64 div unat ?f < 2 ^ 64"
    by (rule div_lt_if_faster [OF assms]) simp
  moreover have "?f \<noteq> 0" using assms by auto
  ultimately show ?thesis by (simp add: compute_scale_def unat_ucast_down q)
qed

section \<open>The fields of the pages\<close>

text \<open>The fields at the offsets of the two page layouts.\<close>

definition page_u32 :: "nat \<Rightarrow> u8 list \<Rightarrow> u32" where
  "page_u32 off page = from_le_bytes (field_at off 4 page)"

definition page_u64 :: "nat \<Rightarrow> u8 list \<Rightarrow> u64" where
  "page_u64 off page = from_le_bytes (field_at off 8 page)"

lemma field_at_update [simp]:
  "k < o1 \<or> o1 + n \<le> k \<Longrightarrow> field_at o1 n (buf[k := v]) = field_at o1 n buf"
  by (auto simp: field_at_def intro!: nth_equalityI)

lemma kvm_page_fields:
  assumes "compute_mul_shift (k\<lparr>kvm_version := kvm_version k + 2\<rparr>) = (mul, sh)"
    and "kvm_update tsc ns k = (page, k')"
  shows "page_u32 0 page = kvm_version k + 2" "page_u64 8 page = tsc" "page_u64 16 page = ns"
    "page_u32 24 page = mul" "page ! 28 = sh" "kvm_version k' = kvm_version k + 2" "length page = 64"
  using assms
  by (auto simp: kvm_update_def Let_def page_u32_def page_u64_def field_at_same field_at_other
      from_le_to_le)

lemma hv_page_fields:
  assumes "hv_update off h = (page, h')"
  shows "page_u32 0 page = hv_sequence h + 1"
    "page_u64 8 page = compute_scale (h\<lparr>hv_sequence := hv_sequence h + 1\<rparr>)"
    "page_u64 16 page = off" "length page = 32"
  using assms
  by (auto simp: hv_update_def Let_def page_u32_def page_u64_def field_at_same field_at_other
      from_le_to_le)

text \<open>On a counter faster than 1 GHz the KVM page carries the counter and the time of the update, a version
  that stays even, the shift 32, and the exact number of nanoseconds per tick rounded down to a
  multiple of \<open>2 ^ -32\<close>.\<close>

lemma kvm_page_rate:
  assumes f: "1000000000 < unat (kvm_tsc_freq_hz k)" and even: "even (unat (kvm_version k))"
    and u: "kvm_update tsc ns k = (page, k')"
  shows "even (unat (page_u32 0 page))" "page_u64 8 page = tsc" "page_u64 16 page = ns" "page ! 28 = 32"
    "unat (page_u32 24 page) * unat (kvm_tsc_freq_hz k) \<le> 1000000000 * 2 ^ 32"
    "1000000000 * 2 ^ 32 < (unat (page_u32 24 page) + 1) * unat (kvm_tsc_freq_hz k)"
proof -
  let ?f = "unat (kvm_tsc_freq_hz k)" and ?m = "1000000000 * 2 ^ 32 div unat (kvm_tsc_freq_hz k)"
  have "compute_mul_shift (k\<lparr>kvm_version := kvm_version k + 2\<rparr>) = (of_nat ?m, 32)"
    and m: "unat (of_nat ?m :: u32) = ?m"
    using mul_shift_exact [of "k\<lparr>kvm_version := kvm_version k + 2\<rparr>"] f by simp_all
  note p = kvm_page_fields [OF this(1) u]
  show "even (unat (page_u32 0 page))"
    using even unat_word_ariths(1) [of "kvm_version k" 2] by (simp add: p dvd_mod_iff)
  have "0 < ?f" using f by simp
  from fixed_point_near [OF this, of 1000000000 "2 ^ 32"]
  show "unat (page_u32 24 page) * ?f \<le> 1000000000 * 2 ^ 32"
    "1000000000 * 2 ^ 32 < (unat (page_u32 24 page) + 1) * ?f"
    unfolding p(4) m by simp_all
qed (use kvm_page_fields(2,3,5) [OF _ u] mul_shift_exact(1) [of "k\<lparr>kvm_version := kvm_version k + 2\<rparr>"] f in simp_all)

text \<open>On a counter faster than the reference clock the Hyper-V page carries the offset, the next sequence
  number, and the exact number of reference ticks per tick rounded down to a multiple of \<open>2 ^ -64\<close>.\<close>

lemma hv_page_rate:
  assumes f: "unat (ref_freq_hz h) < unat (hv_tsc_freq_hz h)" and u: "hv_update off h = (page, h')"
  shows "page_u32 0 page = hv_sequence h + 1" "page_u64 16 page = off"
    "unat (page_u64 8 page) * unat (hv_tsc_freq_hz h) \<le> unat (ref_freq_hz h) * 2 ^ 64"
    "unat (ref_freq_hz h) * 2 ^ 64 < (unat (page_u64 8 page) + 1) * unat (hv_tsc_freq_hz h)"
proof -
  have "0 < unat (hv_tsc_freq_hz h)" using f by simp
  note near = fixed_point_near [OF this, of "unat (ref_freq_hz h)" "2 ^ 64"]
  have s: "unat (page_u64 8 page) = unat (ref_freq_hz h) * 2 ^ 64 div unat (hv_tsc_freq_hz h)"
    using scale_exact [of "h\<lparr>hv_sequence := hv_sequence h + 1\<rparr>"] f by (simp add: hv_page_fields [OF u])
  from near show "unat (page_u64 8 page) * unat (hv_tsc_freq_hz h) \<le> unat (ref_freq_hz h) * 2 ^ 64"
    "unat (ref_freq_hz h) * 2 ^ 64 < (unat (page_u64 8 page) + 1) * unat (hv_tsc_freq_hz h)"
    unfolding s by simp_all
qed (rule hv_page_fields [OF u])+

subsection \<open>Outside those ranges\<close>

text \<open>At or below 1 GHz the multiplier does not fit 32 bits: at exactly 1 GHz the page carries 0.  The sequence number wraps to 0, which marks a page invalid.\<close>

lemma kvm_clock_stops_at_1GHz: "compute_mul_shift (kvm_new gpa 1000000000) = (0, 32)"
  by (simp add: compute_mul_shift_def kvm_new_def Let_def)

lemma hv_sequence_wraps_to_invalid:
  "hv_sequence h = - 1 \<Longrightarrow> hv_update off h = (page, h') \<Longrightarrow> page_u32 0 page = 0"
  using hv_page_fields(1) [of off h page h'] by simp

end
