(* ===== verification/Pm_Timer.thy ===== *)
theory Pm_Timer
  imports Batched_Clock
begin

text \<open>
  The ACPI power-management timer (\<open>enlil-devices/src/timer/acpi_pm.rs\<close>): a free-running 32-bit
  counter that the run loop advances and the guest reads through a four-byte port window.
\<close>

unbundle bit_operations_syntax

definition PM_TIMER_FREQ_HZ :: u32 where "PM_TIMER_FREQ_HZ = 3579545"
definition PM_TIMER_PORT :: u16 where "PM_TIMER_PORT = 0x608"
definition PM_TIMER_PORTS :: u16 where "PM_TIMER_PORTS = 4"

record AcpiPmTimer =
  pm_counter :: u32

definition pm_new :: AcpiPmTimer where
  "pm_new = \<lparr>pm_counter = 0\<rparr>"

definition pm_read :: "AcpiPmTimer \<Rightarrow> u32" where
  "pm_read t = pm_counter t"

definition pm_advance :: "u32 \<Rightarrow> AcpiPmTimer \<Rightarrow> AcpiPmTimer" where
  "pm_advance ticks t = t\<lparr>pm_counter := pm_counter t + ticks\<rparr>"

definition ns_to_ticks :: "u64 \<Rightarrow> u32" where
  "ns_to_ticks ns =
     (let ticks = ucast ns * ucast PM_TIMER_FREQ_HZ div 1000000000 :: u128
      in ucast (ticks AND 0xFFFFFFFF))"

definition pm_pio_read :: "u16 \<Rightarrow> u8 \<Rightarrow> AcpiPmTimer \<Rightarrow> u32" where
  "pm_pio_read port sz t = drop_bit (unat (port - PM_TIMER_PORT) * 8) (pm_read t)"

definition pm_pio_write :: "u16 \<Rightarrow> u8 \<Rightarrow> u32 \<Rightarrow> AcpiPmTimer \<Rightarrow> AcpiPmTimer" where
  "pm_pio_write port sz dat t = t"

definition pm_port_range :: "u16 \<times> u16" where
  "pm_port_range = (PM_TIMER_PORT, PM_TIMER_PORT + PM_TIMER_PORTS)"

section \<open>Ticks and nanoseconds\<close>

lemma ns_to_ticks_eq: "ns_to_ticks ns = of_nat (unat ns * 3579545 div 1000000000)"
proof -
  have "unat (ucast ns * ucast PM_TIMER_FREQ_HZ :: u128) = unat ns * 3579545"
    using unat_wide_mul [of ns 3579545] by (simp add: PM_TIMER_FREQ_HZ_def)
  then have "unat (ucast ns * ucast PM_TIMER_FREQ_HZ div 1000000000 :: u128) = unat ns * 3579545 div 1000000000"
    by (simp add: unat_div)
  moreover have "ucast (w AND 0xFFFFFFFF) = (ucast w :: u32)" for w :: u128
  proof -
    have "w AND 0xFFFFFFFF = take_bit 32 w" by (simp add: take_bit_eq_mask mask_eq_exp_minus_1)
    then show ?thesis by (auto intro!: bit_word_eqI simp: bit_ucast_iff bit_take_bit_iff)
  qed
  ultimately show ?thesis
    by (simp only: ns_to_ticks_def Let_def) (metis of_nat_unat)
qed

interpretation pm_clock: batched_clock "\<lambda>_. True" "\<lambda>_. 2 ^ 32" "()" "\<lambda>_ _. ()"
  "\<lambda>n t. ((), pm_advance (of_nat n) t)"
  by unfold_locales (auto simp: pm_advance_def)

text \<open>One step of the platform's clock loop: the elapsed nanoseconds, converted and added.\<close>

definition pm_elapse :: "u64 \<Rightarrow> AcpiPmTimer \<Rightarrow> AcpiPmTimer" where
  "pm_elapse ns t = pm_advance (ns_to_ticks ns) t"

lemma pm_elapse_batches:
  "pm_counter (fold pm_elapse nss t) =
     pm_counter t + of_nat (\<Sum>ns\<leftarrow>nss. unat ns * 3579545 div 1000000000)"
  by (induction nss arbitrary: t) (simp_all add: pm_elapse_def pm_advance_def ns_to_ticks_eq)

lemma sum_div_near:
  fixes d :: nat
  assumes "0 < d"
  shows "(\<Sum>x\<leftarrow>xs. f x div d) * d \<le> (\<Sum>x\<leftarrow>xs. f x)"
    "(\<Sum>x\<leftarrow>xs. f x) \<le> ((\<Sum>x\<leftarrow>xs. f x div d) + length xs) * d"
proof (induction xs)
  case (Cons x xs)
  have "f x div d * d \<le> f x" "f x \<le> f x div d * d + d"
    using dividend_less_div_times [OF assms, of "f x"] by (simp_all add: div_times_less_eq_dividend)
  with Cons show "(\<Sum>x\<leftarrow>x # xs. f x div d) * d \<le> (\<Sum>x\<leftarrow>x # xs. f x)"
    "(\<Sum>x\<leftarrow>x # xs. f x) \<le> ((\<Sum>x\<leftarrow>x # xs. f x div d) + length (x # xs)) * d"
    by (simp_all add: algebra_simps add_mono)
qed simp_all

text \<open>The PM timer never runs ahead of guest time and loses at most one tick per call
  of the clock loop: after any sequence of elapsed times it reads its start value plus \<open>k\<close> ticks
  modulo \<open>2^32\<close>, with \<open>k\<close> at most the exact number of ticks of the total time and at least that number
  less the number of calls.\<close>

theorem pm_timer_drift:
  "\<exists>k. pm_read (fold pm_elapse nss t) = pm_read t + of_nat k \<and>
     k * 1000000000 \<le> (\<Sum>ns\<leftarrow>nss. unat ns) * 3579545 \<and>
     (\<Sum>ns\<leftarrow>nss. unat ns) * 3579545 \<le> (k + length nss) * 1000000000"
proof -
  let ?k = "\<Sum>ns\<leftarrow>nss. unat ns * 3579545 div 1000000000"
  have "(\<Sum>ns\<leftarrow>nss. unat ns * 3579545) = (\<Sum>ns\<leftarrow>nss. unat ns) * (3579545 :: nat)"
    by (induction nss) (simp_all add: algebra_simps)
  then show ?thesis
    using sum_div_near [of 1000000000 "\<lambda>ns. unat ns * 3579545" nss] pm_elapse_batches [of nss t]
    by (intro exI [of _ ?k]) (simp add: pm_read_def)
qed

end
