(* ===== verification/Hpet.thy ===== *)
theory Hpet
  imports Prelude
begin

text \<open>
  The high precision event timer (\<open>enlil-devices/src/timer/hpet.rs\<close>): the main counter, three
  comparators with one-shot and periodic mode, and the MMIO adapter for 32- and 64-bit accesses.
\<close>

unbundle bit_operations_syntax

definition NUM_TIMERS :: nat where "NUM_TIMERS = 3"
definition HPET_MMIO_BASE :: u64 where "HPET_MMIO_BASE = 0xFED00000"
definition HPET_MMIO_SIZE :: u64 where "HPET_MMIO_SIZE = 0x400"
definition HPET_CLK_PERIOD_FS :: u64 where "HPET_CLK_PERIOD_FS = 100000000"
definition HPET_TICK_NS :: u64 where "HPET_TICK_NS = HPET_CLK_PERIOD_FS div 1000000"
definition TIMER_ROUTE_CAP :: u32 where "TIMER_ROUTE_CAP = 0x000F0000"
definition HPET_VENDOR_ID :: u64 where "HPET_VENDOR_ID = 0x8086"
definition HPET_COUNT_SIZE_CAP :: u64 where "HPET_COUNT_SIZE_CAP = bitmask 13"
definition HPET_LEG_RT_CAP :: u64 where "HPET_LEG_RT_CAP = bitmask 15"

definition HPET_CAP_VALUE :: u64 where
  "HPET_CAP_VALUE =
     push_bit 32 HPET_CLK_PERIOD_FS OR push_bit 16 HPET_VENDOR_ID OR HPET_LEG_RT_CAP OR
     HPET_COUNT_SIZE_CAP OR push_bit 8 (of_nat NUM_TIMERS - 1) OR 0x01"

section \<open>Timers\<close>

record HpetTimer =
  t_config :: u64
  comparator :: u64
  fsb_route :: u64
  period :: u64
  t_index :: nat

definition hpet_timer_new :: "nat \<Rightarrow> HpetTimer" where
  "hpet_timer_new i =
     \<lparr>t_config = push_bit 32 (ucast TIMER_ROUTE_CAP) OR bitmask 4 OR bitmask 5,
      comparator = 0, fsb_route = 0, period = 0, t_index = i\<rparr>"

definition is_periodic :: "HpetTimer \<Rightarrow> bool" where
  "is_periodic t \<longleftrightarrow> t_config t AND bitmask 3 \<noteq> 0"

definition interrupt_enabled :: "HpetTimer \<Rightarrow> bool" where
  "interrupt_enabled t \<longleftrightarrow> t_config t AND bitmask 2 \<noteq> 0"

definition is_level_triggered :: "HpetTimer \<Rightarrow> bool" where
  "is_level_triggered t \<longleftrightarrow> t_config t AND bitmask 1 \<noteq> 0"

definition irq_route :: "HpetTimer \<Rightarrow> u8" where
  "irq_route t = ucast (drop_bit 9 (t_config t) AND 0x1F)"

record Hpet =
  config :: u64
  hpet_counter :: u64
  timers :: "HpetTimer list"
  interrupt_status :: u64

definition hpet_new :: Hpet where
  "hpet_new = \<lparr>config = 0, hpet_counter = 0, timers = map hpet_timer_new [0..<NUM_TIMERS],
     interrupt_status = 0\<rparr>"

definition hpet_enabled :: "Hpet \<Rightarrow> bool" where
  "hpet_enabled h \<longleftrightarrow> config h AND 1 \<noteq> 0"

definition legacy_routing :: "Hpet \<Rightarrow> bool" where
  "legacy_routing h \<longleftrightarrow> config h AND 2 \<noteq> 0"

section \<open>Registers\<close>

definition timer_read :: "u64 \<Rightarrow> HpetTimer \<Rightarrow> u64" where
  "timer_read reg_offset t =
     (if reg_offset = 0x00 then t_config t
      else if reg_offset = 0x08 then comparator t
      else if reg_offset = 0x10 then fsb_route t
      else 0)"

definition hpet_read :: "u64 \<Rightarrow> Hpet \<Rightarrow> u64" where
  "hpet_read offset h =
     (if offset = 0x000 then HPET_CAP_VALUE
      else if offset = 0x010 then config h
      else if offset = 0x020 then interrupt_status h
      else if offset = 0x0F0 then hpet_counter h
      else if 0x100 \<le> offset \<and> offset \<le> 0x1FF then
        let timer_idx = unat ((offset - 0x100) div 0x20); reg_offset = (offset - 0x100) mod 0x20
        in if timer_idx < length (timers h) then timer_read reg_offset (timers h ! timer_idx) else 0
      else 0)"

definition TIMER_CONFIG_WRITABLE_MASK :: u64 where
  "TIMER_CONFIG_WRITABLE_MASK = 0x7F4E"

definition timer_write :: "u64 \<Rightarrow> u64 \<Rightarrow> HpetTimer \<Rightarrow> HpetTimer" where
  "timer_write reg_offset value t =
     (if reg_offset = 0x00 then
        t\<lparr>t_config := (t_config t AND NOT TIMER_CONFIG_WRITABLE_MASK) OR
                       (value AND TIMER_CONFIG_WRITABLE_MASK)\<rparr>
      else if reg_offset = 0x08 then
        let t1 = (if \<not> is_periodic t \<or> t_config t AND bitmask 6 \<noteq> 0
                  then t\<lparr>comparator := value\<rparr> else t);
            t2 = (if is_periodic t1 then t1\<lparr>period := value\<rparr> else t1)
        in t2\<lparr>t_config := t_config t2 AND NOT (bitmask 6)\<rparr>
      else if reg_offset = 0x10 then t\<lparr>fsb_route := value\<rparr>
      else t)"

definition hpet_write :: "u64 \<Rightarrow> u64 \<Rightarrow> Hpet \<Rightarrow> Hpet" where
  "hpet_write offset value h =
     (if offset = 0x010 then h\<lparr>config := value AND 0x3\<rparr>
      else if offset = 0x020 then h\<lparr>interrupt_status := interrupt_status h AND NOT value\<rparr>
      else if offset = 0x0F0 \<and> \<not> hpet_enabled h then h\<lparr>hpet_counter := value\<rparr>
      else if 0x100 \<le> offset \<and> offset \<le> 0x1FF then
        let timer_idx = unat ((offset - 0x100) div 0x20); reg_offset = (offset - 0x100) mod 0x20
        in if timer_idx < length (timers h)
           then h\<lparr>timers := (timers h)[timer_idx := timer_write reg_offset value (timers h ! timer_idx)]\<rparr>
           else h
      else h)"

section \<open>Time\<close>

text \<open>One iteration of the loop of \<open>tick\<close>: whether the timer fires between the two counter values,
  and the timer after it.\<close>

definition timer_step :: "u64 \<Rightarrow> u64 \<Rightarrow> HpetTimer \<Rightarrow> bool \<times> HpetTimer" where
  "timer_step old_counter counter t =
     (if \<not> interrupt_enabled t then (False, t)
      else if is_periodic t then
        (if old_counter < comparator t \<and> counter \<ge> comparator t
         then (True, t\<lparr>comparator := comparator t + period t\<rparr>)
         else (False, t))
      else (old_counter < comparator t \<and> counter \<ge> comparator t, t))"

fun fire_timers :: "u64 \<Rightarrow> u64 \<Rightarrow> HpetTimer list \<Rightarrow> u64 \<Rightarrow> (nat \<times> u8) list \<times> HpetTimer list \<times> u64" where
  "fire_timers old_counter counter [] st = ([], [], st)"
| "fire_timers old_counter counter (t # ts) st =
     (case timer_step old_counter counter t of
        (did_fire, t') \<Rightarrow>
          let st' = (if did_fire \<and> is_level_triggered t' then st OR bitmask (t_index t') else st)
          in case fire_timers old_counter counter ts st' of
               (fired, ts', st'') \<Rightarrow>
                 ((if did_fire then (t_index t', irq_route t') # fired else fired), t' # ts', st''))"

definition hpet_tick :: "u64 \<Rightarrow> Hpet \<Rightarrow> (nat \<times> u8) list \<times> Hpet" where
  "hpet_tick ticks h =
     (if \<not> hpet_enabled h then ([], h)
      else
        let old_counter = hpet_counter h;
            h1 = h\<lparr>hpet_counter := hpet_counter h + ticks\<rparr>
        in case fire_timers old_counter (hpet_counter h1) (timers h1) (interrupt_status h1) of
             (fired, ts, st) \<Rightarrow> (fired, h1\<lparr>timers := ts, interrupt_status := st\<rparr>))"

definition clear_interrupt :: "nat \<Rightarrow> Hpet \<Rightarrow> Hpet" where
  "clear_interrupt timer_idx h =
     (if timer_idx < NUM_TIMERS
      then h\<lparr>interrupt_status := interrupt_status h AND NOT (bitmask timer_idx)\<rparr>
      else h)"

section \<open>The memory-mapped block\<close>

definition hpet_mmio_read :: "u64 \<Rightarrow> u8 \<Rightarrow> Hpet \<Rightarrow> u64" where
  "hpet_mmio_read offset sz h =
     (let full = hpet_read (offset AND NOT 0x7) h
      in if offset AND 0x4 \<noteq> 0 then drop_bit 32 full else full)"

definition hpet_mmio_write :: "u64 \<Rightarrow> u8 \<Rightarrow> u64 \<Rightarrow> Hpet \<Rightarrow> Hpet" where
  "hpet_mmio_write offset sz dat h =
     (let aligned = offset AND NOT 0x7 in
      if sz \<ge> 8 then hpet_write aligned dat h
      else
        let dword = dat AND 0xFFFFFFFF;
            current = hpet_read aligned h;
            merged = (if offset AND 0x4 \<noteq> 0
                      then (current AND 0xFFFFFFFF) OR push_bit 32 dword
                      else (current AND 0xFFFFFFFF00000000) OR dword)
        in hpet_write aligned merged h)"

definition hpet_mmio_range :: "u64 \<times> u64" where
  "hpet_mmio_range = (HPET_MMIO_BASE, HPET_MMIO_BASE + HPET_MMIO_SIZE)"

section \<open>The scan over the timers\<close>

lemma timer_step_frame [simp]:
  "t_index (snd (timer_step a b t)) = t_index t" "t_config (snd (timer_step a b t)) = t_config t"
  "period (snd (timer_step a b t)) = period t"
  by (simp_all add: timer_step_def)

lemma timer_modes_cong:
  "t_config t = t_config u \<Longrightarrow> is_periodic t = is_periodic u"
  "t_config t = t_config u \<Longrightarrow> interrupt_enabled t = interrupt_enabled u"
  "t_config t = t_config u \<Longrightarrow> irq_route t = irq_route u"
  by (simp_all add: is_periodic_def interrupt_enabled_def irq_route_def)

lemma fire_timers_eq:
  "fst (fire_timers a b ts st) =
     map (\<lambda>t. (t_index t, irq_route t)) (filter (\<lambda>t. fst (timer_step a b t)) ts)"
  "fst (snd (fire_timers a b ts st)) = map (\<lambda>t. snd (timer_step a b t)) ts"
  by (induction ts arbitrary: st) (simp_all add: split_beta Let_def timer_modes_cong(3) [OF timer_step_frame(2)])

lemma fire_timers_status:
  "bit (snd (snd (fire_timers a b ts st))) i \<Longrightarrow> bit st i \<or> (\<exists>t\<in>set ts. t_index t = i)"
proof (induction ts arbitrary: st)
  case (Cons t ts)
  let ?st = "if fst (timer_step a b t) \<and> is_level_triggered (snd (timer_step a b t))
    then st OR bitmask (t_index t) else st"
  have "bit (snd (snd (fire_timers a b ts ?st))) i"
    using Cons.prems by (auto simp: split_beta Let_def split: if_splits)
  from Cons.IH [OF this] show ?case by (auto split: if_splits)
qed simp

lemma hpet_tick_eq:
  assumes "hpet_enabled h"
  shows "fst (hpet_tick n h) = map (\<lambda>t. (t_index t, irq_route t))
      (filter (\<lambda>t. fst (timer_step (hpet_counter h) (hpet_counter h + n) t)) (timers h))"
    and "hpet_counter (snd (hpet_tick n h)) = hpet_counter h + n"
    and "config (snd (hpet_tick n h)) = config h"
    and "timers (snd (hpet_tick n h)) =
      map (\<lambda>t. snd (timer_step (hpet_counter h) (hpet_counter h + n) t)) (timers h)"
  using assms by (simp_all add: hpet_tick_def Let_def split_beta fire_timers_eq)

section \<open>Well-formed devices\<close>

definition timer_caps :: u64 where
  "timer_caps = 0x000F000000000030"

definition hpet_wf :: "Hpet \<Rightarrow> bool" where
  "hpet_wf h \<longleftrightarrow> length (timers h) = 3 \<and> map t_index (timers h) = [0..<3] \<and>
     (\<forall>t \<in> set (timers h). t_config t AND NOT TIMER_CONFIG_WRITABLE_MASK = timer_caps) \<and>
     take_bit 2 (config h) = config h \<and> take_bit 3 (interrupt_status h) = interrupt_status h"

datatype HpetOp = GuestWrite u64 u8 u64 | Elapse u64 | ClearInterrupt nat

fun hpet_op :: "HpetOp \<Rightarrow> Hpet \<Rightarrow> Hpet" where
  "hpet_op (GuestWrite offset sz dat) h = hpet_mmio_write offset sz dat h"
| "hpet_op (Elapse n) h = snd (hpet_tick n h)"
| "hpet_op (ClearInterrupt i) h = clear_interrupt i h"

inductive hpet_reachable :: "Hpet \<Rightarrow> bool" where
  reset: "hpet_reachable hpet_new"
| step: "hpet_reachable h \<Longrightarrow> hpet_reachable (hpet_op op h)"

lemma hpet_wf_new: "hpet_wf hpet_new"
  by code_simp

lemma timer_write_caps:
  "t_config (timer_write r v t) AND NOT TIMER_CONFIG_WRITABLE_MASK =
   t_config t AND NOT TIMER_CONFIG_WRITABLE_MASK"
  "t_index (timer_write r v t) = t_index t"
proof -
  have a: "((c AND NOT m) OR (v AND m)) AND NOT m = c AND NOT m" for c m :: u64
    by (rule bit_word_eqI) (auto simp: bit_simps)
  have "bit TIMER_CONFIG_WRITABLE_MASK 6" by (simp add: TIMER_CONFIG_WRITABLE_MASK_def)
  then have b: "(c AND NOT (bitmask 6)) AND NOT TIMER_CONFIG_WRITABLE_MASK =
      c AND NOT TIMER_CONFIG_WRITABLE_MASK" for c :: u64
    by (intro bit_word_eqI) (auto simp: bit_and_iff bit_not_iff)
  show "t_config (timer_write r v t) AND NOT TIMER_CONFIG_WRITABLE_MASK =
      t_config t AND NOT TIMER_CONFIG_WRITABLE_MASK"
    by (simp add: timer_write_def Let_def a b)
  show "t_index (timer_write r v t) = t_index t"
    by (simp add: timer_write_def Let_def)
qed

lemma take_bit_fix_iff: "take_bit n w = w \<longleftrightarrow> (\<forall>i. bit w i \<longrightarrow> i < n)" for w :: "'a::len word"
  by (auto simp: bit_eq_iff bit_take_bit_iff dest: bit_imp_le_length)

lemma hpet_wf_status_and:
  assumes "hpet_wf h"
  shows "hpet_wf (h\<lparr>interrupt_status := interrupt_status h AND x\<rparr>)"
proof -
  have "take_bit 3 (interrupt_status h AND x) = interrupt_status h AND x"
    using assms unfolding hpet_wf_def take_bit_fix_iff by (auto simp: bit_and_iff)
  with assms show ?thesis by (simp add: hpet_wf_def)
qed

lemma hpet_wf_write:
  assumes "hpet_wf h"
  shows "hpet_wf (hpet_write offset v h)"
proof -
  have upd: "hpet_wf (h\<lparr>timers := (timers h)[i := timer_write r v (timers h ! i)]\<rparr>)"
    if "i < length (timers h)" for i r
  proof -
    let ?t = "timer_write r v (timers h ! i)"
    have "map t_index ((timers h)[i := ?t]) = map t_index (timers h)"
      by (metis list_update_id map_update timer_write_caps(2))
    moreover have "t_config ?t AND NOT TIMER_CONFIG_WRITABLE_MASK = timer_caps"
      using assms that by (simp add: hpet_wf_def timer_write_caps)
    ultimately show ?thesis
      using assms by (auto simp: hpet_wf_def dest!: subsetD [OF set_update_subset_insert])
  qed
  have "v AND 3 = take_bit 2 v"
    by (simp add: take_bit_eq_mask mask_eq_exp_minus_1)
  then have "hpet_wf (h\<lparr>config := v AND 3\<rparr>)" "hpet_wf (h\<lparr>hpet_counter := v\<rparr>)"
    using assms by (simp_all add: hpet_wf_def)
  then show ?thesis using assms upd
    by (simp add: hpet_write_def hpet_wf_status_and [OF assms] Let_def)
qed

lemma hpet_wf_tick:
  assumes "hpet_wf h"
  shows "hpet_wf (snd (hpet_tick n h))"
proof (cases "hpet_enabled h")
  case True
  let ?st = "interrupt_status (snd (hpet_tick n h))"
  have "bit ?st i \<Longrightarrow> bit (interrupt_status h) i \<or> (\<exists>t\<in>set (timers h). t_index t = i)" for i
    using True fire_timers_status by (auto simp: hpet_tick_def Let_def split_beta)
  moreover have "t_index ` set (timers h) = {0..<3}"
    using assms unfolding hpet_wf_def by (metis list.set_map set_upt)
  ultimately have "take_bit 3 ?st = ?st"
    using assms unfolding hpet_wf_def take_bit_fix_iff by (metis atLeastLessThan_iff image_eqI)
  then show ?thesis using assms True
    by (auto simp: hpet_wf_def hpet_tick_eq comp_def)
qed (use assms in \<open>simp add: hpet_tick_def\<close>)

lemma hpet_wf_reachable: "hpet_reachable h \<Longrightarrow> hpet_wf h"
proof (induction rule: hpet_reachable.induct)
  case (step h op)
  then show ?case
    by (cases op)
       (simp_all add: hpet_mmio_write_def Let_def hpet_wf_write hpet_wf_tick clear_interrupt_def hpet_wf_status_and)
qed (rule hpet_wf_new)

section \<open>A timer over a sequence of ticks\<close>

fun hpet_ticks :: "u64 list \<Rightarrow> Hpet \<Rightarrow> (nat \<times> u8) list \<times> Hpet" where
  "hpet_ticks [] h = ([], h)"
| "hpet_ticks (n # ns) h =
     (case hpet_tick n h of (fired, h1) \<Rightarrow> case hpet_ticks ns h1 of (fired', h2) \<Rightarrow> (fired @ fired', h2))"

text \<open>One timer alone: how often it fires while the counter moves by \<open>ns\<close>, and the timer after.\<close>

fun timer_run :: "u64 list \<Rightarrow> u64 \<Rightarrow> HpetTimer \<Rightarrow> nat \<times> HpetTimer" where
  "timer_run [] c t = (0, t)"
| "timer_run (n # ns) c t =
     (case timer_step c (c + n) t of (f, t1) \<Rightarrow>
      case timer_run ns (c + n) t1 of (k, t2) \<Rightarrow> (of_bool f + k, t2))"

abbreviation fired_count :: "nat \<Rightarrow> (nat \<times> u8) list \<Rightarrow> nat" where
  "fired_count i fired \<equiv> length (filter (\<lambda>p. fst p = i) fired)"

lemma fired_count_step:
  assumes "map t_index ts = [0..<length ts]" "i < length ts"
  shows "fired_count i (map (\<lambda>t. (t_index t, irq_route t)) (filter P ts)) = of_bool (P (ts ! i))"
proof -
  have idx: "t_index (ts ! j) = j" if "j < length ts" for j
    using assms(1) that by (metis add_0 nth_map nth_upt)
  have "fired_count i (map (\<lambda>t. (t_index t, irq_route t)) (filter P ts)) =
      length (filter (\<lambda>t. t_index t = i \<and> P t) ts)"
    by (simp add: filter_map comp_def conj_commute)
  also have "\<dots> = card {j. j < length ts \<and> t_index (ts ! j) = i \<and> P (ts ! j)}"
    by (simp add: length_filter_conv_card)
  also have "{j. j < length ts \<and> t_index (ts ! j) = i \<and> P (ts ! j)} = (if P (ts ! i) then {i} else {})"
    using assms(2) by (auto simp: idx)
  finally show ?thesis by simp
qed

lemma hpet_ticks_timer:
  assumes "hpet_enabled h" "map t_index (timers h) = [0..<length (timers h)]" "i < length (timers h)"
  shows "fired_count i (fst (hpet_ticks ns h)) = fst (timer_run ns (hpet_counter h) (timers h ! i)) \<and>
    timers (snd (hpet_ticks ns h)) ! i = snd (timer_run ns (hpet_counter h) (timers h ! i)) \<and>
    hpet_counter (snd (hpet_ticks ns h)) = hpet_counter h + sum_list ns"
  using assms
proof (induction ns arbitrary: h)
  case (Cons n ns)
  let ?h = "snd (hpet_tick n h)"
  note e = hpet_tick_eq [OF Cons.prems(1), of n]
  have "hpet_enabled ?h" "map t_index (timers ?h) = [0..<length (timers ?h)]" "i < length (timers ?h)"
    using Cons.prems by (simp_all add: e hpet_enabled_def comp_def)
  note ih = Cons.IH [OF this]
  have "fired_count i (fst (hpet_tick n h)) =
      of_bool (fst (timer_step (hpet_counter h) (hpet_counter h + n) (timers h ! i)))"
    unfolding e(1) by (rule fired_count_step [OF Cons.prems(2,3)])
  then show ?case using ih Cons.prems(3) by (simp add: split_beta e)
qed simp

text \<open>A periodic timer whose comparator is ahead of the counter by at most its period keeps that
  phase, as long as no call is longer than the period.\<close>

definition in_phase :: "u64 \<Rightarrow> HpetTimer \<Rightarrow> bool" where
  "in_phase c t \<longleftrightarrow> unat c < unat (comparator t) \<and> unat (comparator t) \<le> unat c + unat (period t)"

lemma periodic_run:
  assumes "interrupt_enabled t" "is_periodic t" "in_phase c t"
    and "\<And>n. n \<in> set ns \<Longrightarrow> unat n \<le> unat (period t)"
    and "unat c + (\<Sum>n\<leftarrow>ns. unat n) + unat (period t) < 2 ^ 64"
  shows "fst (timer_run ns c t) =
      (unat c + (\<Sum>n\<leftarrow>ns. unat n) + unat (period t) - unat (comparator t)) div unat (period t) \<and>
    in_phase (c + sum_list ns) (snd (timer_run ns c t))"
  using assms
proof (induction ns arbitrary: c t)
  case Nil
  then have "unat c + unat (period t) - unat (comparator t) < unat (period t)"
    unfolding in_phase_def by linarith
  with Nil show ?case by simp
next
  case (Cons n ns)
  let ?t = "snd (timer_step c (c + n) t)" and ?P = "unat (period t)"
  have c': "unat (c + n) = unat c + unat n" using Cons.prems(5) by (simp add: unat_add_no_wrap)
  have n: "unat n \<le> ?P" using Cons.prems(4) by simp
  have cmp: "unat (comparator t + period t) = unat (comparator t) + ?P" if "comparator t \<le> c + n"
    using Cons.prems(5) that by (simp add: word_le_nat_alt c' unat_add_no_wrap)
  have fire: "fst (timer_step c (c + n) t) \<longleftrightarrow> comparator t \<le> c + n"
    using Cons.prems(1-3) by (simp add: timer_step_def in_phase_def word_less_nat_alt)
  have t: "comparator ?t = (if comparator t \<le> c + n then comparator t + period t else comparator t)"
    using Cons.prems(1-3) by (simp add: timer_step_def in_phase_def word_less_nat_alt)
  have "in_phase (c + n) ?t"
    using Cons.prems(3) n cmp by (auto simp: in_phase_def t c' word_le_nat_alt)
  then have ih: "fst (timer_run ns (c + n) ?t) =
      (unat (c + n) + (\<Sum>n\<leftarrow>ns. unat n) + ?P - unat (comparator ?t)) div ?P \<and>
      in_phase (c + n + sum_list ns) (snd (timer_run ns (c + n) ?t))"
    using Cons.IH [of ?t "c + n"] Cons.prems
    by (simp add: timer_modes_cong [OF timer_step_frame(2)] c')
  have P: "0 < ?P" using Cons.prems(3) by (simp add: in_phase_def)
  show ?case
  proof (cases "comparator t \<le> c + n")
    case True
    let ?y = "unat c + unat n + (\<Sum>n\<leftarrow>ns. unat n) - unat (comparator t)"
    have le: "unat (comparator t) \<le> unat c + unat n" using True by (simp add: word_le_nat_alt c')
    have "(?y + ?P) div ?P = Suc (?y div ?P)"
      using div_add_self2 [OF gr_implies_not0 [OF P], of ?y] by (simp only: Suc_eq_plus1)
    with True ih le show ?thesis by (simp add: split_beta fire t c' cmp add.assoc)
  next
    case False
    with ih show ?thesis by (simp add: split_beta fire t c' add.assoc)
  qed
qed

text \<open>A one-shot timer fires on the one call that crosses its comparator.\<close>

lemma one_shot_run:
  assumes "interrupt_enabled t" "\<not> is_periodic t" "unat c + (\<Sum>n\<leftarrow>ns. unat n) < 2 ^ 64"
  shows "fst (timer_run ns c t) =
      of_bool (unat c < unat (comparator t) \<and> unat (comparator t) \<le> unat c + (\<Sum>n\<leftarrow>ns. unat n)) \<and>
    snd (timer_run ns c t) = t"
  using assms
proof (induction ns arbitrary: c)
  case (Cons n ns)
  have c': "unat (c + n) = unat c + unat n" using Cons.prems(3) by (simp add: unat_add_no_wrap)
  have "timer_step c (c + n) t = (c < comparator t \<and> comparator t \<le> c + n, t)"
    using Cons.prems(1,2) by (simp add: timer_step_def)
  with Cons.IH [of "c + n"] Cons.prems show ?case
    by (auto simp: split_beta c' word_less_nat_alt word_le_nat_alt add.assoc)
qed simp

text \<open>A periodic timer left behind by the counter does not fire again before the counter wraps.\<close>

lemma periodic_stalls:
  assumes "comparator t \<le> c" "unat c + (\<Sum>n\<leftarrow>ns. unat n) < 2 ^ 64"
  shows "fst (timer_run ns c t) = 0"
  using assms
proof (induction ns arbitrary: c)
  case (Cons n ns)
  have c': "unat (c + n) = unat c + unat n" using Cons.prems(2) by (simp add: unat_add_no_wrap)
  have "timer_step c (c + n) t = (False, t)" using Cons.prems(1) by (auto simp: timer_step_def)
  with Cons.IH [of "c + n"] Cons.prems show ?case
    by (simp add: c' word_le_nat_alt add.assoc)
qed simp

section \<open>Correctness\<close>

text \<open>C24 (functional).  An in-phase periodic timer of an enabled HPET, advanced by calls none of
  which is longer than its period, fires exactly once per period: the number of firings is the
  number of multiples of the period from its comparator up to the final counter, however the
  elapsed ticks are cut into calls.\<close>

theorem hpet_periodic_rate:
  assumes "hpet_reachable h" "hpet_enabled h" "i < NUM_TIMERS"
    and "interrupt_enabled (timers h ! i)" "is_periodic (timers h ! i)"
    and "in_phase (hpet_counter h) (timers h ! i)"
    and "list_all (\<lambda>n. n \<le> period (timers h ! i)) ns"
    and "unat (hpet_counter h) + (\<Sum>n\<leftarrow>ns. unat n) + unat (period (timers h ! i)) < 2 ^ 64"
  shows "fired_count i (fst (hpet_ticks ns h)) =
    (unat (hpet_counter h) + (\<Sum>n\<leftarrow>ns. unat n) + unat (period (timers h ! i))
       - unat (comparator (timers h ! i))) div unat (period (timers h ! i))"
proof -
  have "length (timers h) = 3" "map t_index (timers h) = [0..<3]"
    using hpet_wf_reachable [OF assms(1)] by (simp_all add: hpet_wf_def)
  then have "fired_count i (fst (hpet_ticks ns h)) = fst (timer_run ns (hpet_counter h) (timers h ! i))"
    using hpet_ticks_timer [OF assms(2)] assms(3) by (simp add: NUM_TIMERS_def)
  then show ?thesis
    using periodic_run [OF assms(4-6) _ assms(8)] assms(7)
    by (simp add: list_all_iff word_le_nat_alt)
qed

definition hpet_periodic_100 :: Hpet where
  "hpet_periodic_100 = fold hpet_op [GuestWrite 0x100 8 0x4C, GuestWrite 0x108 8 100, GuestWrite 0x10 8 1] hpet_new"

theorem hpet_periodic_rate_witness:
  "fired_count 0 (fst (hpet_ticks [60, 100, 90, 100] hpet_periodic_100)) = 3"
proof -
  let ?h = hpet_periodic_100
  have r: "hpet_reachable ?h"
    unfolding hpet_periodic_100_def by (simp add: hpet_reachable.intros del: hpet_op.simps)
  have e: "timers ?h ! 0 = \<lparr>t_config = 0x000F00000000003C, comparator = 100, fsb_route = 0, period = 100, t_index = 0\<rparr>"
    "hpet_counter ?h = 0"
    by code_simp+
  have "hpet_enabled ?h" by code_simp
  from hpet_periodic_rate [OF r this, of 0 "[60, 100, 90, 100]"] show ?thesis
    unfolding e by (simp add: in_phase_def NUM_TIMERS_def interrupt_enabled_def is_periodic_def)
qed

text \<open>A store to a timer's configuration register, whatever its size, sets the writable bits.\<close>

lemma timer_config_store:
  assumes "length (timers h) = 3" "i < 3"
  shows "hpet_read (0x100 + 0x20 * of_nat i) h = t_config (timers h ! i)"
    and "hpet_read (0x100 + 0x20 * of_nat i) (hpet_mmio_write (0x100 + 0x20 * of_nat i) sz x h) =
      (t_config (timers h ! i) AND NOT TIMER_CONFIG_WRITABLE_MASK) OR (x AND TIMER_CONFIG_WRITABLE_MASK)"
proof -
  have i: "i = 0 \<or> i = 1 \<or> i = 2" using assms(2) by auto
  show "hpet_read (0x100 + 0x20 * of_nat i) h = t_config (timers h ! i)"
    using i assms(1) by (elim disjE) (simp_all add: hpet_read_def timer_read_def Let_def)
  have w: "hpet_read (0x100 + 0x20 * of_nat i) (hpet_write (0x100 + 0x20 * of_nat i) y h) =
      (t_config (timers h ! i) AND NOT TIMER_CONFIG_WRITABLE_MASK) OR (y AND TIMER_CONFIG_WRITABLE_MASK)" for y
    using i by (elim disjE) (simp_all add: assms(1) hpet_read_def hpet_write_def timer_read_def timer_write_def Let_def)
  have low: "((c AND 0xFFFFFFFF00000000) OR (x AND 0xFFFFFFFF)) AND TIMER_CONFIG_WRITABLE_MASK =
      x AND TIMER_CONFIG_WRITABLE_MASK" for c :: u64
    by (simp add: TIMER_CONFIG_WRITABLE_MASK_def bit.conj_disj_distrib2 and.assoc)
  have a: "(0x100 + 0x20 * of_nat i :: u64) AND NOT 7 = 0x100 + 0x20 * of_nat i"
    "(0x100 + 0x20 * of_nat i :: u64) AND 4 = 0"
    using i by (elim disjE; simp)+
  show "hpet_read (0x100 + 0x20 * of_nat i) (hpet_mmio_write (0x100 + 0x20 * of_nat i) sz x h) =
      (t_config (timers h ! i) AND NOT TIMER_CONFIG_WRITABLE_MASK) OR (x AND TIMER_CONFIG_WRITABLE_MASK)"
    unfolding hpet_mmio_write_def Let_def a by (simp add: w low)
qed

text \<open>C31 (type).  The HPET registers as the guest sees them, in every state the guest and the clock can
  bring the device to.  In the configuration register of a timer only the bits the architecture
  lets software set can vary (1 level trigger, 2 enable, 3 periodic, 6 value set, 8 32-bit mode,
  9 to 13 route, 14 FSB enable: \<open>0x7F4E\<close>); the periodic and 64-bit capabilities (4, 5) and the routes
  to the inputs 16 to 19 (48 to 51) always read as ones and every other bit as zero.  A store of any
  size and value reads back as its settable bits beside those constants.  The general configuration
  has only its two defined bits, the interrupt status only the bits of the three timers, and the
  capability register is constant: 100 ns per tick, vendor \<open>0x8086\<close>, legacy and 64-bit capable, three
  timers, revision 1.\<close>

theorem hpet_register_types:
  assumes "hpet_reachable h" "i < NUM_TIMERS"
  shows "hpet_read (0x100 + 0x20 * of_nat i) h AND NOT 0x7F4E = 0x000F000000000030 \<and>
    hpet_read (0x100 + 0x20 * of_nat i) (hpet_mmio_write (0x100 + 0x20 * of_nat i) sz x h) =
      (x AND 0x7F4E) OR 0x000F000000000030 \<and>
    hpet_read 0x010 h = take_bit 2 (hpet_read 0x010 h) \<and>
    hpet_read 0x020 h = take_bit 3 (hpet_read 0x020 h) \<and>
    hpet_read 0x000 h = 0x05F5E1008086A201"
proof -
  have wf: "hpet_wf h" by (rule hpet_wf_reachable [OF assms(1)])
  then have "length (timers h) = 3" "i < 3" using assms(2) by (simp_all add: hpet_wf_def NUM_TIMERS_def)
  note t = timer_config_store [OF this]
  have "timers h ! i \<in> set (timers h)" using wf assms(2) by (simp add: hpet_wf_def NUM_TIMERS_def)
  then have "t_config (timers h ! i) AND NOT 0x7F4E = 0x000F000000000030"
    using wf unfolding hpet_wf_def timer_caps_def TIMER_CONFIG_WRITABLE_MASK_def by blast
  moreover have "HPET_CAP_VALUE = 0x05F5E1008086A201" by code_simp
  ultimately show ?thesis
    using wf unfolding t TIMER_CONFIG_WRITABLE_MASK_def
    by (simp add: hpet_wf_def hpet_read_def or.commute)
qed

theorem hpet_register_types_witness:
  "hpet_read 0x120 (hpet_mmio_write 0x120 8 (- 1) (hpet_op (GuestWrite 0x100 4 (- 1)) hpet_new)) = 0x000F000000007F7E \<and>
   hpet_read 0x100 (hpet_op (GuestWrite 0x100 4 (- 1)) hpet_new) AND NOT 0x7F4E = 0x000F000000000030"
proof -
  have r: "hpet_reachable (hpet_op (GuestWrite 0x100 4 (- 1)) hpet_new)"
    by (rule hpet_reachable.intros)+
  note t = hpet_register_types [OF r, of _ 8 "- 1"]
  from t [of 0] t [of 1] show ?thesis by (simp add: NUM_TIMERS_def del: hpet_op.simps)
qed

subsection \<open>What the adapter and the batching lose\<close>

text \<open>A call longer than the period fires a periodic timer once and leaves its comparator behind the
  counter, where \<open>periodic_stalls\<close> applies.\<close>

lemma long_call_leaves_comparator_behind:
  assumes "interrupt_enabled t" "is_periodic t" "c < comparator t"
    and "unat (comparator t) + unat (period t) \<le> unat c + unat n" "unat c + unat n < 2 ^ 64"
  shows "timer_step c (c + n) t = (True, t\<lparr>comparator := comparator t + period t\<rparr>) \<and>
    comparator t + period t \<le> c + n"
  using assms by (simp add: timer_step_def word_le_nat_alt unat_add_no_wrap)

text \<open>A 32-bit store to the upper half of the write-1-to-clear status register writes the current low
  half back with it and so acknowledges every pending timer.\<close>

lemma status_high_store_acknowledges:
  assumes "hpet_reachable h"
  shows "interrupt_status (hpet_mmio_write 0x24 4 0 h) = 0"
proof -
  have st: "take_bit 3 (interrupt_status h) = interrupt_status h"
    using hpet_wf_reachable [OF assms] by (simp add: hpet_wf_def)
  have "interrupt_status h AND 0xFFFFFFFF = interrupt_status h"
  proof (rule bit_word_eqI)
    fix i
    have "bit (interrupt_status h) i \<Longrightarrow> i < 3" using st by (simp add: take_bit_fix_iff)
    moreover have "bit (0xFFFFFFFF :: u64) i" if "i < 3"
      using that by (auto simp: numeral_3_eq_3 less_Suc_eq)
    ultimately show "bit (interrupt_status h AND 0xFFFFFFFF) i = bit (interrupt_status h) i"
      by (auto simp: bit_and_iff)
  qed
  then show ?thesis by (simp add: hpet_mmio_write_def hpet_read_def hpet_write_def Let_def)
qed

end
