(* ===== verification/Calendar.thy ===== *)
theory Calendar
  imports Prelude
begin

text \<open>
  Civil dates by day number, over the natural numbers: the closed form that converts a count of days
  to a date through 400-year eras, the calendar rule for the day after a date, and the proof that
  the two agree.  The real-time clock uses the first to set its time and the second to advance it.
\<close>

section \<open>The calendar rule\<close>

definition leap :: "nat \<Rightarrow> bool" where
  "leap y \<longleftrightarrow> y mod 4 = 0 \<and> y mod 100 \<noteq> 0 \<or> y mod 400 = 0"

definition month_days :: "nat \<Rightarrow> nat \<Rightarrow> nat" where
  "month_days m y =
     (if m = 2 then (if leap y then 29 else 28) else if m \<in> {4, 6, 9, 11} then 30 else 31)"

fun next_day :: "nat \<times> nat \<times> nat \<Rightarrow> nat \<times> nat \<times> nat" where
  "next_day (y, m, d) =
     (if d + 1 \<le> month_days m y then (y, m, d + 1)
      else if m + 1 \<le> 12 then (y, m + 1, 1)
      else (y + 1, 1, 1))"

section \<open>Years within an era\<close>

text \<open>Years run from March to February.  Day \<open>year_start k\<close> of an era is the first of its year \<open>k\<close>.\<close>

definition year_start :: "nat \<Rightarrow> nat" where
  "year_start k = 365 * k + k div 4 - k div 100"

definition year_length :: "nat \<Rightarrow> nat" where
  "year_length k = (if leap (k + 1) then 366 else 365)"

definition adjusted_days :: "nat \<Rightarrow> nat" where
  "adjusted_days e = e - e div 1460 + e div 36524 - e div 146096"

definition year_of_era :: "nat \<Rightarrow> nat" where
  "year_of_era e = adjusted_days e div 365"

lemma adjusted_days_mono: "a \<le> b \<Longrightarrow> adjusted_days a \<le> adjusted_days b"
proof (rule lift_Suc_mono_le [of adjusted_days])
  fix n
  have s: "Suc n div d \<le> Suc (n div d)" "n div d \<le> Suc n div d" for d :: nat
    by (cases "d = 0"; simp add: div_Suc)+
  have q: "n div 146096 = n div 36524 div 4" "Suc n div 146096 = Suc n div 36524 div 4"
    by (simp_all add: div_mult2_eq [symmetric])
  have b: "Suc n div 36524 div 4 + n div 36524 \<le> Suc n div 36524 + n div 36524 div 4"
    using s(1,2) [of 36524] by (cases "Suc n div 36524 = n div 36524") (auto simp: div_Suc)
  have step: "A' \<le> Suc A \<Longrightarrow> C' + B \<le> B' + C \<Longrightarrow> A \<le> n \<Longrightarrow> n - A + B - C \<le> Suc n - A' + B' - C'"
    for A A' B B' C C' :: nat by linarith
  show "adjusted_days n \<le> adjusted_days (Suc n)"
    unfolding adjusted_days_def q by (rule step [OF s(1) b]) simp
qed

text \<open>The first and the last day of each of the 400 years, evaluated in integer arithmetic.\<close>

definition year_ends_ok :: "int \<Rightarrow> bool" where
  "year_ends_ok k =
     (let s = 365 * k + k div 4 - k div 100;
          l = s + (if (k + 1) mod 4 = 0 \<and> (k + 1) mod 100 \<noteq> 0 \<or> (k + 1) mod 400 = 0 then 365 else 364);
          g = (\<lambda>e. (e - e div 1460 + e div 36524 - e div 146096) div 365)
      in g s = k \<and> g l = k)"

lemma year_ends_checked: "list_all year_ends_ok [0..399]"
  by code_simp

lemma year_ends:
  assumes "k < 400"
  shows "year_of_era (year_start k) = k" "year_of_era (year_start k + year_length k - 1) = k"
proof -
  have "int k \<in> set [0..399]" using assms by simp
  then have ok: "year_ends_ok (int k)" using year_ends_checked by (simp only: list_all_iff)
  have sub: "k div 100 \<le> 365 * k + k div 4" by (simp add: trans_le_add1)
  have st: "int (year_start k) = 365 * int k + int k div 4 - int k div 100"
    using sub by (simp add: year_start_def of_nat_diff zdiv_int)
  have lp: "leap (k + 1) \<longleftrightarrow>
      (int k + 1) mod 4 = 0 \<and> (int k + 1) mod 100 \<noteq> 0 \<or> (int k + 1) mod 400 = 0"
  proof -
    have "(int k + 1) mod int n = int ((k + 1) mod n)" for n by (simp add: zmod_int add.commute)
    from this [of 4] this [of 100] this [of 400] show ?thesis by (simp add: leap_def)
  qed
  have adj: "int (adjusted_days e) = int e - int e div 1460 + int e div 36524 - int e div 146096" for e
  proof -
    have "e div 1460 \<le> e" "e div 146096 \<le> e div 36524" by (simp_all add: div_le_mono2)
    then show ?thesis by (simp add: adjusted_days_def of_nat_diff zdiv_int trans_le_add2)
  qed
  have yoe: "int (year_of_era e) = (int e - int e div 1460 + int e div 36524 - int e div 146096) div 365" for e
    by (simp add: year_of_era_def zdiv_int adj)
  note ends = ok [unfolded year_ends_ok_def Let_def, folded lp]
  have "int (year_of_era (year_start k)) = int k"
    unfolding yoe st by (rule ends [THEN conjunct1])
  then show "year_of_era (year_start k) = k" by simp
  have l: "int (year_start k + year_length k - 1) =
      365 * int k + int k div 4 - int k div 100 + (if leap (k + 1) then 365 else 364)"
    unfolding st [symmetric] by (simp add: year_length_def)
  have "int (year_of_era (year_start k + year_length k - 1)) = int k"
    unfolding yoe l by (rule ends [THEN conjunct2])
  then show "year_of_era (year_start k + year_length k - 1) = k" by simp
qed

lemma year_of_era_eq:
  assumes "k < 400" "j < year_length k"
  shows "year_of_era (year_start k + j) = k"
proof -
  have mono: "a \<le> b \<Longrightarrow> year_of_era a \<le> year_of_era b" for a b
    unfolding year_of_era_def by (intro div_le_mono adjusted_days_mono)
  have "year_of_era (year_start k) \<le> year_of_era (year_start k + j)" by (rule mono) simp
  moreover have "year_of_era (year_start k + j) \<le> year_of_era (year_start k + year_length k - 1)"
    using assms(2) by (intro mono) simp
  ultimately show ?thesis using year_ends [OF assms(1)] by simp
qed

text \<open>Consecutive years adjoin, and the 400 of them make up an era of 146097 days.\<close>

lemma year_start_Suc: "k < 399 \<Longrightarrow> year_start (Suc k) = year_start k + year_length k"
proof -
  assume k: "k < 399"
  have d: "Suc k div 4 = k div 4 + of_bool (Suc k mod 4 = 0)" "Suc k div 100 = k div 100 + of_bool (Suc k mod 100 = 0)"
    by (simp_all add: div_Suc)
  have "Suc k mod 400 \<noteq> 0" using k by simp
  moreover have "Suc k mod 100 = 0 \<Longrightarrow> Suc k mod 4 = 0" by presburger
  ultimately have l: "year_length k + of_bool (Suc k mod 100 = 0) = 365 + of_bool (Suc k mod 4 = 0)"
    unfolding year_length_def leap_def Suc_eq_plus1
    by (cases "(k + 1) mod 4 = 0"; cases "(k + 1) mod 100 = 0") simp_all
  have step: "b \<le> a \<Longrightarrow> L + y = 365 + x \<Longrightarrow> 365 * Suc k + (a + x) - (b + y) = 365 * k + a - b + L"
    for a b L x y :: nat unfolding mult_Suc_right by linarith
  show ?thesis
    unfolding year_start_def d by (rule step [OF _ l]) (simp add: div_le_mono2)
qed

lemma era_end: "year_start 399 + year_length 399 = 146097"
  by (simp add: year_start_def year_length_def leap_def)

lemma year_containing:
  "K < 400 \<Longrightarrow> e < year_start K + year_length K \<Longrightarrow>
   \<exists>k<400. year_start k \<le> e \<and> e < year_start k + year_length k"
proof (induction K)
  case 0
  then show ?case by (intro exI [of _ 0]) (simp add: year_start_def)
next
  case (Suc K)
  show ?case
  proof (cases "year_start (Suc K) \<le> e")
    case True
    with Suc.prems show ?thesis by blast
  next
    case False
    then have "e < year_start K + year_length K" using year_start_Suc [of K] Suc.prems(1) by simp
    with Suc show ?thesis by simp
  qed
qed

lemma year_within_era: "k < 400 \<Longrightarrow> year_start k + year_length k \<le> 146097"
proof -
  have le: "year_start k \<le> year_start 399" if "k \<le> 399" for k
    using that
  proof (induction rule: inc_induct)
    case (step n)
    then show ?case using year_start_Suc [of n] by simp
  qed simp
  assume "k < 400"
  then show ?thesis
    using le [of "Suc k"] year_start_Suc [of k] era_end by (cases "k = 399") simp_all
qed

lemma day_of_era_split:
  assumes "e < 146097"
  obtains k j where "k < 400" "j < year_length k" "e = year_start k + j"
proof -
  obtain k where "k < 400" "year_start k \<le> e" "e < year_start k + year_length k"
    using year_containing [of 399 e] era_end assms by auto
  then show ?thesis using that [of k "e - year_start k"] by simp
qed

section \<open>Months within a year\<close>

text \<open>The month index counts from March; day \<open>j\<close> of such a year falls in month \<open>month_index j\<close>.\<close>

definition month_index :: "nat \<Rightarrow> nat" where
  "month_index j = (5 * j + 2) div 153"

definition day_in_month :: "nat \<Rightarrow> nat" where
  "day_in_month j = j - (153 * month_index j + 2) div 5 + 1"

definition civil_month :: "nat \<Rightarrow> nat" where
  "civil_month mp = (if mp < 10 then mp + 3 else mp - 9)"

text \<open>The first day of a month; the closed form inverts it.\<close>

definition month_start :: "nat \<Rightarrow> nat" where
  "month_start mp = (153 * mp + 2) div 5"

lemma month_index_iff: "month_index j = mp \<longleftrightarrow> month_start mp \<le> j \<and> j < month_start (Suc mp)"
proof -
  have "(5 * j + 2) div 153 = mp \<longleftrightarrow> 153 * mp \<le> 5 * j + 2 \<and> 5 * j + 2 < 153 * Suc mp"
    by (auto simp: div_nat_eqI mult.commute dividend_less_times_div intro!: div_nat_eqI)
  moreover have "x div 5 \<le> j \<longleftrightarrow> x \<le> 5 * j + 4" for x by linarith
  moreover have "j < x div 5 \<longleftrightarrow> 5 * j + 5 \<le> x" for x by linarith
  ultimately show ?thesis by (auto simp: month_index_def month_start_def)
qed

lemma month_starts:
  "month_start 0 = 0" "month_start 1 = 31" "month_start 2 = 61" "month_start 3 = 92"
  "month_start 4 = 122" "month_start 5 = 153" "month_start 6 = 184" "month_start 7 = 214"
  "month_start 8 = 245" "month_start 9 = 275" "month_start 10 = 306" "month_start 11 = 337"
  "month_start 12 = 367"
  by (simp_all add: month_start_def)

lemma month_lengths:
  "mp < 11 \<Longrightarrow> month_start (Suc mp) - month_start mp = month_days (civil_month mp) y"
proof -
  assume "mp < 11"
  then have "mp \<in> {0, 1, 2, 3, 4, 5, 6, 7, 8, 9, 10}"
    by (simp only: insert_iff empty_iff numeral_eq_Suc pred_numeral_simps less_Suc_eq) auto
  then show ?thesis
    by (auto simp: month_start_def month_days_def civil_month_def)
qed

lemma month_index_le_11: "j < 366 \<Longrightarrow> month_index j \<le> 11"
  by (simp add: month_index_def)

text \<open>The step from day \<open>j\<close> to day \<open>j + 1\<close> of a year.\<close>

lemma month_step:
  "j + 1 < month_start (Suc (month_index j)) \<Longrightarrow>
     month_index (j + 1) = month_index j \<and> day_in_month (j + 1) = day_in_month j + 1"
  "j + 1 = month_start (Suc (month_index j)) \<Longrightarrow>
     month_index (j + 1) = Suc (month_index j) \<and> day_in_month (j + 1) = 1"
  "day_in_month j = j - month_start (month_index j) + 1"
  "month_start (month_index j) \<le> j" "j < month_start (Suc (month_index j))"
proof -
  have m: "month_start (month_index j) \<le> j \<and> j < month_start (Suc (month_index j))"
    using month_index_iff [of j "month_index j"] by simp
  then show "month_start (month_index j) \<le> j" "j < month_start (Suc (month_index j))" by simp_all
  have d: "day_in_month i = i - month_start (month_index i) + 1" for i
    by (simp add: day_in_month_def month_start_def)
  then show "day_in_month j = j - month_start (month_index j) + 1" .
  show "month_index (j + 1) = month_index j \<and> day_in_month (j + 1) = day_in_month j + 1"
    if "j + 1 < month_start (Suc (month_index j))"
  proof -
    have "month_index (j + 1) = month_index j" using that m by (subst month_index_iff) simp
    then show ?thesis using m by (simp add: d Suc_diff_le)
  qed
  show "month_index (j + 1) = Suc (month_index j) \<and> day_in_month (j + 1) = 1"
    if "j + 1 = month_start (Suc (month_index j))"
  proof -
    have "month_start mp < month_start (Suc mp)" for mp by (simp add: month_start_def)
    then have "month_index (j + 1) = Suc (month_index j)" using that by (subst month_index_iff) simp
    then show ?thesis using that by (simp add: d)
  qed
qed

section \<open>Dates\<close>

text \<open>Day \<open>j\<close> of the year that starts in March of \<open>Y\<close>.\<close>

definition date_of :: "nat \<Rightarrow> nat \<Rightarrow> nat \<times> nat \<times> nat" where
  "date_of Y j =
     (let m = civil_month (month_index j) in ((if m \<le> 2 then Y + 1 else Y), m, day_in_month j))"

lemma next_date:
  assumes "j < year_length Y"
  shows "next_day (date_of Y j) = (if j + 1 < year_length Y then date_of Y (j + 1) else date_of (Y + 1) 0)"
proof -
  let ?mp = "month_index j"
  have j: "j < 366" using assms by (simp add: year_length_def split: if_splits)
  note m = month_step [of j]
  have mp: "?mp \<le> 11" by (rule month_index_le_11 [OF j])
  consider (month_end) "j + 1 = month_start (Suc ?mp)" | (inside) "j + 1 < month_start (Suc ?mp)" "?mp < 11"
    | (february) "j + 1 < month_start (Suc ?mp)" "?mp = 11"
    using m(5) mp by linarith
  then show ?thesis
  proof cases
    case month_end
    have lt: "?mp < 11"
    proof (rule ccontr)
      assume "\<not> ?mp < 11"
      then have "?mp = 11" using mp by simp
      then show False using month_end j month_starts(13) by simp
    qed
    have "Suc ?mp \<le> 11" using lt by simp
    then have "month_start (Suc ?mp) \<le> month_start 11" unfolding month_start_def by (intro div_le_mono) simp
    then have "j + 1 < year_length Y" using month_end month_starts(12) by (simp add: year_length_def)
    moreover have "day_in_month j = month_days (civil_month ?mp) y" for y
      using m(3,4) month_end month_lengths [OF lt, of y] by simp
    moreover have "month_index (j + 1) = Suc ?mp" "day_in_month (j + 1) = 1" using m(2) [OF month_end] by simp_all
    ultimately show ?thesis using lt by (auto simp: date_of_def Let_def civil_month_def)
  next
    case inside
    have "month_start (Suc ?mp) \<le> month_start 11" using inside(2) unfolding month_start_def by (intro div_le_mono) simp
    then have "j + 1 < year_length Y" using inside(1) month_starts(12) by (simp add: year_length_def)
    moreover have "day_in_month j + 1 \<le> month_days (civil_month ?mp) y" for y
      using m(3,4) inside(1) month_lengths [OF inside(2), of y] by simp
    moreover have "month_index (j + 1) = ?mp" "day_in_month (j + 1) = day_in_month j + 1"
      using m(1) [OF inside(1)] by simp_all
    ultimately show ?thesis by (simp add: date_of_def Let_def)
  next
    case february
    have d: "day_in_month j = j - 336" "337 \<le> j" using m(3,4) february(2) month_starts(12) by simp_all
    have "month_index (j + 1) = 11" "day_in_month (j + 1) = day_in_month j + 1"
      using m(1) [OF february(1)] february(2) by simp_all
    moreover have "month_index 0 = 0" "day_in_month 0 = 1" by (simp_all add: month_index_def day_in_month_def)
    moreover have "d + 1 \<le> month_days 2 (Suc Y) \<longleftrightarrow> d + 337 < year_length Y" for d
      by (auto simp: month_days_def year_length_def)
    moreover have "j + 1 = day_in_month j + 337" using d by simp
    ultimately show ?thesis using february(2) by (simp add: date_of_def civil_month_def)
  qed
qed

section \<open>The closed form\<close>

definition civil_from_days :: "nat \<Rightarrow> nat \<times> nat \<times> nat" where
  "civil_from_days days =
     (let z = days + 719468; era = z div 146097; doe = z - era * 146097;
          yoe = (doe - doe div 1460 + doe div 36524 - doe div 146096) div 365;
          y = yoe + era * 400; doy = doe - (365 * yoe + yoe div 4 - yoe div 100);
          mp = (5 * doy + 2) div 153; d = doy - (153 * mp + 2) div 5 + 1;
          m = (if mp < 10 then mp + 3 else mp - 9)
      in ((if m \<le> 2 then y + 1 else y), m, d))"

lemma civil_eq_date:
  assumes "days + 719468 = era * 146097 + year_start k + j" "k < 400" "j < year_length k"
  shows "civil_from_days days = date_of (k + era * 400) j"
proof -
  have "year_start k + j < 146097" using year_within_era [OF assms(2)] assms(3) by linarith
  then have era: "(days + 719468) div 146097 = era"
    using assms(1) by (intro div_nat_eqI) simp_all
  have doe: "days + 719468 - era * 146097 = year_start k + j" using assms(1) by simp
  have yoe: "(year_start k + j - (year_start k + j) div 1460 + (year_start k + j) div 36524
      - (year_start k + j) div 146096) div 365 = k"
    using year_of_era_eq [OF assms(2,3)] by (simp only: year_of_era_def adjusted_days_def)
  have doy: "year_start k + j - (365 * k + k div 4 - k div 100) = j" by (simp add: year_start_def)
  show ?thesis
    unfolding civil_from_days_def Let_def era doe yoe doy date_of_def civil_month_def month_index_def
      day_in_month_def ..
qed

lemma year_length_era: "year_length (k + era * 400) = year_length k"
proof -
  have "(Suc k + era * 400) mod 400 = Suc k mod 400" by (rule mod_mult_self1)
  moreover have "(Suc k + era * 400) mod 4 = Suc k mod 4"
    using mod_mult_self1 [of "Suc k" "era * 100" 4] by (simp add: mult.assoc)
  moreover have "(Suc k + era * 400) mod 100 = Suc k mod 100"
    using mod_mult_self1 [of "Suc k" "era * 4" 100] by (simp add: mult.assoc)
  ultimately show ?thesis by (simp only: year_length_def leap_def Suc_eq_plus1 add.assoc add.commute)
qed

text \<open>The closed form follows the calendar rule, day by day.\<close>

theorem civil_from_days_Suc: "civil_from_days (Suc days) = next_day (civil_from_days days)"
proof -
  let ?z = "days + 719468"
  obtain k j where kj: "k < 400" "j < year_length k" "?z mod 146097 = year_start k + j"
    using day_of_era_split [of "?z mod 146097"] by auto
  obtain era where z: "?z = era * 146097 + year_start k + j"
    using that [of "?z div 146097"] div_mult_mod_eq [of ?z 146097] unfolding kj(3) add.assoc by simp
  have len: "year_length (k + era * 400) = year_length k" by (rule year_length_era)
  have now: "civil_from_days days = date_of (k + era * 400) j" by (rule civil_eq_date [OF z kj(1,2)])
  have s: "Suc days + 719468 = era * 146097 + year_start k + (j + 1)" using z by linarith
  consider (same) "j + 1 < year_length k" | (next_year) "j + 1 = year_length k" "k < 399"
    | (next_era) "j + 1 = year_length k" "k = 399"
    using kj(1,2) by linarith
  then have "civil_from_days (Suc days) =
      (if j + 1 < year_length k then date_of (k + era * 400) (j + 1) else date_of (k + era * 400 + 1) 0)"
  proof cases
    case same
    then show ?thesis using civil_eq_date [OF s kj(1)] by simp
  next
    case next_year
    have "Suc days + 719468 = era * 146097 + year_start (Suc k) + 0"
      using s year_start_Suc [OF next_year(2)] next_year(1) by linarith
    from civil_eq_date [OF this] next_year show ?thesis by (simp add: year_length_def)
  next
    case next_era
    have "Suc days + 719468 = Suc era * 146097 + year_start 0 + 0"
      using s next_era era_end by (simp add: year_start_def)
    from civil_eq_date [OF this] next_era show ?thesis by (simp add: year_length_def)
  qed
  then show ?thesis using next_date [of j "k + era * 400"] kj(2) by (simp only: now len)
qed

lemma civil_epoch: "civil_from_days 0 = (1970, 1, 1)"
proof -
  have "civil_from_days 0 = date_of (369 + 4 * 400) 306"
    by (rule civil_eq_date) (simp_all add: year_start_def year_length_def leap_def)
  then show ?thesis by (simp add: date_of_def civil_month_def month_index_def day_in_month_def)
qed

end
