(* ===== verification/Rtc.thy ===== *)
theory Rtc
  imports Calendar
begin

text \<open>
  The MC146818 real-time clock and CMOS memory (\<open>enlil-devices/src/timer/rtc.rs\<close>): the index and data
  ports, the data modes of register B, the calendar, the update, alarm and periodic interrupts.  The
  optional interrupt sink is a flag; each operation that may drive it returns the levels it drives.
  Additions wrap, as in the release profile.
\<close>

unbundle bit_operations_syntax

section \<open>Registers\<close>

definition RTC_INDEX :: u16 where "RTC_INDEX = 0x70"
definition RTC_DATA :: u16 where "RTC_DATA = 0x71"
definition RTC_IRQ :: u8 where "RTC_IRQ = 8"

definition REG_SECONDS :: u8 where "REG_SECONDS = 0x00"
definition REG_SECONDS_ALARM :: u8 where "REG_SECONDS_ALARM = 0x01"
definition REG_MINUTES :: u8 where "REG_MINUTES = 0x02"
definition REG_MINUTES_ALARM :: u8 where "REG_MINUTES_ALARM = 0x03"
definition REG_HOURS :: u8 where "REG_HOURS = 0x04"
definition REG_HOURS_ALARM :: u8 where "REG_HOURS_ALARM = 0x05"
definition REG_WEEKDAY :: u8 where "REG_WEEKDAY = 0x06"
definition REG_DAY :: u8 where "REG_DAY = 0x07"
definition REG_MONTH :: u8 where "REG_MONTH = 0x08"
definition REG_YEAR :: u8 where "REG_YEAR = 0x09"
definition REG_A :: u8 where "REG_A = 0x0A"
definition REG_B :: u8 where "REG_B = 0x0B"
definition REG_C :: u8 where "REG_C = 0x0C"
definition REG_D :: u8 where "REG_D = 0x0D"
definition REG_CENTURY :: u8 where "REG_CENTURY = 0x32"
definition REG_A_UIP :: u8 where "REG_A_UIP = 0x80"
definition REG_B_SET :: u8 where "REG_B_SET = 0x80"
definition REG_B_PIE :: u8 where "REG_B_PIE = 0x40"
definition REG_B_AIE :: u8 where "REG_B_AIE = 0x20"
definition REG_B_UIE :: u8 where "REG_B_UIE = 0x10"
definition REG_B_DM :: u8 where "REG_B_DM = 0x04"
definition REG_B_24H :: u8 where "REG_B_24H = 0x02"
definition REG_C_IRQF :: u8 where "REG_C_IRQF = 0x80"
definition REG_C_PF :: u8 where "REG_C_PF = 0x40"
definition REG_C_AF :: u8 where "REG_C_AF = 0x20"
definition REG_C_UF :: u8 where "REG_C_UF = 0x10"
definition REG_D_VRT :: u8 where "REG_D_VRT = 0x80"
definition CMOS_SIZE :: nat where "CMOS_SIZE = 128"

lemmas reg_defs = REG_SECONDS_def REG_SECONDS_ALARM_def REG_MINUTES_def REG_MINUTES_ALARM_def
  REG_HOURS_def REG_HOURS_ALARM_def REG_WEEKDAY_def REG_DAY_def REG_MONTH_def REG_YEAR_def REG_A_def
  REG_B_def REG_C_def REG_D_def REG_CENTURY_def

section \<open>Wall-clock time\<close>

record RtcTime =
  second :: u8
  minute :: u8
  hour :: u8
  weekday :: u8
  day :: u8
  month :: u8
  year :: u16

definition from_unix :: "u64 \<Rightarrow> RtcTime" where
  "from_unix secs =
     (let days = secs div 86400;
          rem = secs mod 86400;
          hour = ucast (rem div 3600);
          minute = ucast (rem mod 3600 div 60);
          second = ucast (rem mod 60);
          weekday = ucast ((days + 4) mod 7 + 1);
          z = days + 719468;
          era = z div 146097;
          doe = z - era * 146097;
          yoe = (doe - doe div 1460 + doe div 36524 - doe div 146096) div 365;
          y = yoe + era * 400;
          doy = doe - (365 * yoe + yoe div 4 - yoe div 100);
          mp = (5 * doy + 2) div 153;
          day = ucast (doy - (153 * mp + 2) div 5 + 1);
          month = ucast (if mp < 10 then mp + 3 else mp - 9) :: u8;
          year = ucast (if month \<le> 2 then y + 1 else y)
      in \<lparr>second = second, minute = minute, hour = hour, weekday = weekday, day = day,
          month = month, year = year\<rparr>)"

definition encode :: "u8 \<Rightarrow> bool \<Rightarrow> u8" where
  "encode val binary = (if binary then val else push_bit 4 (val div 10) OR val mod 10)"

definition decode :: "u8 \<Rightarrow> bool \<Rightarrow> u8" where
  "decode val binary = (if binary then val else drop_bit 4 val * 10 + (val AND 0x0F))"

definition days_in_month :: "u8 \<Rightarrow> u16 \<Rightarrow> u8" where
  "days_in_month m y =
     (if m = 2 then (if y mod 4 = 0 \<and> y mod 100 \<noteq> 0 \<or> y mod 400 = 0 then 29 else 28)
      else if m = 4 \<or> m = 6 \<or> m = 9 \<or> m = 11 then 30
      else 31)"

text \<open>The calendar carry of \<open>advance_one_second\<close>; each early return is one branch.\<close>

definition advance_time :: "RtcTime \<Rightarrow> RtcTime" where
  "advance_time t =
     (let t = t\<lparr>second := second t + 1\<rparr> in
      if second t < 60 then t else
      let t = t\<lparr>second := 0, minute := minute t + 1\<rparr> in
      if minute t < 60 then t else
      let t = t\<lparr>minute := 0, hour := hour t + 1\<rparr> in
      if hour t < 24 then t else
      let t = t\<lparr>hour := 0, weekday := (if weekday t \<ge> 7 then 1 else weekday t + 1), day := day t + 1\<rparr> in
      if day t \<le> days_in_month (month t) (year t) then t else
      let t = t\<lparr>day := 1, month := month t + 1\<rparr> in
      if month t \<le> 12 then t else
      t\<lparr>month := 1, year := year t + 1\<rparr>)"

section \<open>The device\<close>

record Rtc146818 =
  ram :: "u8 list"
  rtc_index :: u8
  nmi_disabled :: bool
  rtc_time :: RtcTime
  rtc_irq :: bool
  periodic_accum_ns :: u64

definition rtc_new :: "RtcTime \<Rightarrow> Rtc146818" where
  "rtc_new t =
     \<lparr>ram = (replicate CMOS_SIZE 0)[unat REG_B := REG_B_DM OR REG_B_24H, unat REG_D := REG_D_VRT,
        unat REG_A := 0x26],
      rtc_index = 0, nmi_disabled = False, rtc_time = t, rtc_irq = False, periodic_accum_ns = 0\<rparr>"

definition attach_irq :: "Rtc146818 \<Rightarrow> Rtc146818" where
  "attach_irq r = r\<lparr>rtc_irq := True\<rparr>"

definition set_time :: "RtcTime \<Rightarrow> Rtc146818 \<Rightarrow> Rtc146818" where
  "set_time t r = r\<lparr>rtc_time := t\<rparr>"

definition ram_at :: "Rtc146818 \<Rightarrow> u8 \<Rightarrow> u8" where
  "ram_at r i = ram r ! unat i"

definition ram_put :: "u8 \<Rightarrow> u8 \<Rightarrow> Rtc146818 \<Rightarrow> Rtc146818" where
  "ram_put i v r = r\<lparr>ram := (ram r)[unat i := v]\<rparr>"

definition reg_b :: "Rtc146818 \<Rightarrow> u8" where
  "reg_b r = ram_at r REG_B"

definition binary_mode :: "Rtc146818 \<Rightarrow> bool" where
  "binary_mode r \<longleftrightarrow> reg_b r AND REG_B_DM \<noteq> 0"

definition read_hours :: "Rtc146818 \<Rightarrow> u8" where
  "read_hours r =
     (let binary = binary_mode r in
      if reg_b r AND REG_B_24H \<noteq> 0 then encode (hour (rtc_time r)) binary
      else
        let pm = (hour (rtc_time r) \<ge> 12);
            h = hour (rtc_time r) mod 12;
            h = (if h = 0 then 12 else h)
        in encode h binary OR (if pm then 0x80 else 0))"

definition write_hours :: "u8 \<Rightarrow> Rtc146818 \<Rightarrow> Rtc146818" where
  "write_hours val r =
     (let binary = binary_mode r in
      if reg_b r AND REG_B_24H \<noteq> 0
      then r\<lparr>rtc_time := (rtc_time r)\<lparr>hour := decode val binary\<rparr>\<rparr>
      else
        let pm = (val AND 0x80 \<noteq> 0);
            h = decode (val AND 0x7F) binary mod 12;
            h = (if pm then h + 12 else h)
        in r\<lparr>rtc_time := (rtc_time r)\<lparr>hour := h\<rparr>\<rparr>)"

definition rtc_read_data :: "Rtc146818 \<Rightarrow> (u8 \<times> bool list) \<times> Rtc146818" where
  "rtc_read_data r =
     (let binary = binary_mode r; t = rtc_time r; i = rtc_index r in
      if i = REG_SECONDS then ((encode (second t) binary, []), r)
      else if i = REG_MINUTES then ((encode (minute t) binary, []), r)
      else if i = REG_HOURS then ((read_hours r, []), r)
      else if i = REG_WEEKDAY then ((encode (weekday t) binary, []), r)
      else if i = REG_DAY then ((encode (day t) binary, []), r)
      else if i = REG_MONTH then ((encode (month t) binary, []), r)
      else if i = REG_YEAR then ((encode (ucast (year t mod 100)) binary, []), r)
      else if i = REG_CENTURY then ((encode (ucast (year t div 100)) binary, []), r)
      else if i = REG_A then ((ram_at r REG_A, []), r)
      else if i = REG_C then
        ((ram_at r REG_C, (if rtc_irq r then [False] else [])), ram_put REG_C 0 r)
      else ((ram_at r i, []), r))"

definition rtc_write_data :: "u8 \<Rightarrow> Rtc146818 \<Rightarrow> Rtc146818" where
  "rtc_write_data val r =
     (let binary = binary_mode r; t = rtc_time r; i = rtc_index r in
      if i = REG_SECONDS then r\<lparr>rtc_time := t\<lparr>second := decode val binary\<rparr>\<rparr>
      else if i = REG_MINUTES then r\<lparr>rtc_time := t\<lparr>minute := decode val binary\<rparr>\<rparr>
      else if i = REG_HOURS then write_hours val r
      else if i = REG_WEEKDAY then r\<lparr>rtc_time := t\<lparr>weekday := decode val binary\<rparr>\<rparr>
      else if i = REG_DAY then r\<lparr>rtc_time := t\<lparr>day := decode val binary\<rparr>\<rparr>
      else if i = REG_MONTH then r\<lparr>rtc_time := t\<lparr>month := decode val binary\<rparr>\<rparr>
      else if i = REG_YEAR then
        let century = year t div 100
        in r\<lparr>rtc_time := t\<lparr>year := century * 100 + ucast (decode val binary)\<rparr>\<rparr>
      else if i = REG_CENTURY then
        let y = year t mod 100
        in r\<lparr>rtc_time := t\<lparr>year := ucast (decode val binary) * 100 + y\<rparr>\<rparr>
      else if i = REG_A then ram_put REG_A (val AND NOT REG_A_UIP) r
      else if i = REG_C \<or> i = REG_D then r
      else ram_put i val r)"

definition write_index :: "u8 \<Rightarrow> Rtc146818 \<Rightarrow> Rtc146818" where
  "write_index val r = r\<lparr>nmi_disabled := (val AND 0x80 \<noteq> 0), rtc_index := val AND 0x7F\<rparr>"

section \<open>Time and interrupts\<close>

definition advance_one_second :: "Rtc146818 \<Rightarrow> Rtc146818" where
  "advance_one_second r = r\<lparr>rtc_time := advance_time (rtc_time r)\<rparr>"

definition alarm_field :: "Rtc146818 \<Rightarrow> u8 \<Rightarrow> u8 \<Rightarrow> bool" where
  "alarm_field r stored alarm_idx =
     (let alarm = ram_at r alarm_idx
      in alarm AND 0xC0 = 0xC0 \<or> decode alarm (binary_mode r) = stored)"

definition alarm_matches :: "Rtc146818 \<Rightarrow> bool" where
  "alarm_matches r \<longleftrightarrow>
     alarm_field r (second (rtc_time r)) REG_SECONDS_ALARM \<and>
     alarm_field r (minute (rtc_time r)) REG_MINUTES_ALARM \<and>
     alarm_field r (hour (rtc_time r)) REG_HOURS_ALARM"

definition tick_second :: "Rtc146818 \<Rightarrow> (bool \<times> bool list) \<times> Rtc146818" where
  "tick_second r0 =
     (if reg_b r0 AND REG_B_SET \<noteq> 0 then ((False, []), r0)
      else
        let r = advance_one_second r0;
            flags = REG_C_UF;
            flags = (if alarm_matches r then flags OR REG_C_AF else flags);
            enables = reg_b r;
            c = ram_at r REG_C OR flags;
            asserted = (enables AND REG_B_UIE \<noteq> 0 \<and> flags AND REG_C_UF \<noteq> 0 \<or>
                        enables AND REG_B_AIE \<noteq> 0 \<and> flags AND REG_C_AF \<noteq> 0);
            c = (if asserted then c OR REG_C_IRQF else c)
        in ((asserted, (if asserted \<and> rtc_irq r then [True] else [])), ram_put REG_C c r))"

definition periodic_rate_hz :: "Rtc146818 \<Rightarrow> u32 option" where
  "periodic_rate_hz r =
     (let n = ram_at r REG_A AND 0x0F in
      if n = 0 then None
      else if n = 1 then Some 256
      else if n = 2 then Some 128
      else Some (drop_bit (unat (n - 1)) 32768))"

definition tick_periodic :: "Rtc146818 \<Rightarrow> (bool \<times> bool list) \<times> Rtc146818" where
  "tick_periodic r =
     (if periodic_rate_hz r = None then ((False, []), r)
      else
        let asserted = (reg_b r AND REG_B_PIE \<noteq> 0);
            c = ram_at r REG_C OR REG_C_PF;
            c = (if asserted then c OR REG_C_IRQF else c)
        in ((asserted, (if asserted \<and> rtc_irq r then [True] else [])), ram_put REG_C c r))"

definition advance_periodic :: "u64 \<Rightarrow> Rtc146818 \<Rightarrow> (bool \<times> bool list) \<times> Rtc146818" where
  "advance_periodic ns r =
     (case periodic_rate_hz r of
        None \<Rightarrow> ((False, []), r\<lparr>periodic_accum_ns := 0\<rparr>)
      | Some rate32 \<Rightarrow>
          let accum = saturating_add (periodic_accum_ns r) ns;
              r1 = r\<lparr>periodic_accum_ns := accum\<rparr>;
              rate = ucast rate32 :: u128;
              due = ucast accum * rate div 1000000000
          in if due = 0 then ((False, []), r1)
             else
               let consumed128 = due * 1000000000 div rate;
                   consumed = (if consumed128 \<le> 0xFFFFFFFFFFFFFFFF then ucast consumed128 else - 1)
               in tick_periodic (r1\<lparr>periodic_accum_ns := saturating_sub accum consumed\<rparr>))"

section \<open>The ports\<close>

definition rtc_pio_read :: "u16 \<Rightarrow> u8 \<Rightarrow> Rtc146818 \<Rightarrow> (u32 \<times> bool list) \<times> Rtc146818" where
  "rtc_pio_read port sz r =
     (if port = RTC_DATA then
        (case rtc_read_data r of ((v, tr), r') \<Rightarrow> ((ucast v, tr), r'))
      else ((0xFF, []), r))"

definition rtc_pio_write :: "u16 \<Rightarrow> u8 \<Rightarrow> u32 \<Rightarrow> Rtc146818 \<Rightarrow> Rtc146818" where
  "rtc_pio_write port sz dat r =
     (let byte = ucast dat in
      if port = RTC_INDEX then write_index byte r
      else if port = RTC_DATA then rtc_write_data byte r
      else r)"

definition rtc_port_range :: "u16 \<times> u16" where
  "rtc_port_range = (RTC_INDEX, RTC_DATA + 1)"

section \<open>Conversion from seconds\<close>

text \<open>A time given by natural numbers.\<close>

fun time_of :: "nat \<times> nat \<times> nat \<Rightarrow> nat \<Rightarrow> nat \<Rightarrow> nat \<Rightarrow> nat \<Rightarrow> RtcTime" where
  "time_of (y, m, d) wd h mi s =
     \<lparr>second = of_nat s, minute = of_nat mi, hour = of_nat h, weekday = of_nat wd, day = of_nat d,
      month = of_nat m, year = of_nat y\<rparr>"

definition unix_time :: "nat \<Rightarrow> RtcTime" where
  "unix_time n =
     time_of (civil_from_days (n div 86400)) ((n div 86400 + 4) mod 7 + 1)
       (n mod 86400 div 3600) (n mod 86400 mod 3600 div 60) (n mod 86400 mod 60)"

lemma u64_div_numeral: "a < 2 ^ 64 \<Longrightarrow> of_nat a div numeral k = (of_nat (a div numeral k) :: u64)"
  if "(numeral k :: nat) < 2 ^ 64"
  using word_of_nat_div [of a "numeral k", where 'a = 64] that by simp

lemma u64_mod_numeral: "a < 2 ^ 64 \<Longrightarrow> of_nat a mod numeral k = (of_nat (a mod numeral k) :: u64)"
  if "(numeral k :: nat) < 2 ^ 64"
  using word_of_nat_mod [of a "numeral k", where 'a = 64] that by simp

lemma ucast_of_nat_u64:
  "ucast (of_nat a :: u64) = (of_nat a :: u8)" "ucast (of_nat a :: u64) = (of_nat a :: u16)"
  by (simp_all add: unsigned_of_nat word_of_nat_eq_iff)

text \<open>The steps of the closed form in \<open>u64\<close> arithmetic compute those of \<open>Calendar\<close>.\<close>

lemma year_of_era_word:
  assumes "e < 146097"
  shows "(of_nat e - of_nat e div 1460 + of_nat e div 36524 - of_nat e div 146096) div 365 =
    (of_nat (year_of_era e) :: u64)"
proof -
  have le: "e div 1460 \<le> e" "e div 146096 \<le> e - e div 1460 + e div 36524"
    by (simp_all add: div_le_mono2 trans_le_add2)
  have a: "of_nat e - of_nat e div 1460 + of_nat e div 36524 - of_nat e div 146096 =
      (of_nat (adjusted_days e) :: u64)"
    unfolding adjusted_days_def of_nat_diff [OF le(2)] of_nat_add of_nat_diff [OF le(1)]
    using assms by (simp add: u64_div_numeral)
  have "a \<le> b \<Longrightarrow> b < 146097 \<Longrightarrow> b - c + a - d < 2 ^ 64" for a b c d :: nat by simp
  from this [OF div_le_dividend assms] have b: "adjusted_days e < 2 ^ 64" unfolding adjusted_days_def .
  show ?thesis unfolding a year_of_era_def by (rule u64_div_numeral [OF _ b]) simp
qed

lemma year_start_word:
  assumes "k < 400"
  shows "365 * of_nat k + of_nat k div 4 - of_nat k div 100 = (of_nat (year_start k) :: u64)"
proof -
  have le: "k div 100 \<le> 365 * k + k div 4" by (simp add: trans_le_add1)
  show ?thesis unfolding year_start_def of_nat_diff [OF le] using assms by (simp add: u64_div_numeral)
qed

lemma month_words:
  assumes "j < 366"
  shows "(5 * of_nat j + 2) div 153 = (of_nat (month_index j) :: u64)"
    and "of_nat j - (153 * of_nat (month_index j) + 2) div 5 + 1 = (of_nat (day_in_month j) :: u64)"
    and "(if of_nat (month_index j) < (10 :: u64) then of_nat (month_index j) + 3 else of_nat (month_index j) - 9) =
      (of_nat (civil_month (month_index j)) :: u64)"
    and "(of_nat (civil_month (month_index j)) :: u8) \<le> 2 \<longleftrightarrow> civil_month (month_index j) \<le> 2"
proof -
  let ?mp = "month_index j"
  have mp: "?mp \<le> 11" by (rule month_index_le_11 [OF assms])
  have ms: "(153 * ?mp + 2) div 5 \<le> j" using month_step(4) [of j] by (simp add: month_start_def)
  have "of_nat (5 * j + 2) div 153 = (of_nat ((5 * j + 2) div 153) :: u64)"
    by (rule u64_div_numeral) (use assms in simp_all)
  then show "(5 * of_nat j + 2) div 153 = (of_nat ?mp :: u64)"
    by (simp add: month_index_def add.commute)
  have "of_nat (153 * ?mp + 2) div 5 = (of_nat ((153 * ?mp + 2) div 5) :: u64)"
    by (rule u64_div_numeral) (use mp in simp_all)
  then show "of_nat j - (153 * of_nat ?mp + 2) div 5 + 1 = (of_nat (day_in_month j) :: u64)"
    unfolding day_in_month_def of_nat_add of_nat_diff [OF ms] by (simp add: add.commute)
  show "(if of_nat ?mp < (10 :: u64) then of_nat ?mp + 3 else of_nat ?mp - 9) = (of_nat (civil_month ?mp) :: u64)"
    using small_of_nat_less [of ?mp 10, where 'a = 64] mp by (simp add: civil_month_def of_nat_diff)
  have "civil_month ?mp < 256" using mp unfolding civil_month_def by auto
  then show "(of_nat (civil_month ?mp) :: u8) \<le> 2 \<longleftrightarrow> civil_month ?mp \<le> 2"
    using small_of_nat_le [of "civil_month ?mp" 2, where 'a = 8] by simp
qed

lemma time_of_day_words:
  assumes "n < 2 ^ 64"
  shows "of_nat n mod 86400 div 3600 = (of_nat (n mod 86400 div 3600) :: u64)"
    and "of_nat n mod 86400 mod 3600 div 60 = (of_nat (n mod 86400 mod 3600 div 60) :: u64)"
    and "of_nat n mod 86400 mod 60 = (of_nat (n mod 86400 mod 60) :: u64)"
proof -
  have "n mod 86400 < 2 ^ 64" "n mod 86400 mod 3600 < 2 ^ 64"
    by (rule order_less_trans [OF mod_less_divisor]; simp)+
  then show "of_nat n mod 86400 div 3600 = (of_nat (n mod 86400 div 3600) :: u64)"
    "of_nat n mod 86400 mod 3600 div 60 = (of_nat (n mod 86400 mod 3600 div 60) :: u64)"
    "of_nat n mod 86400 mod 60 = (of_nat (n mod 86400 mod 60) :: u64)"
    using assms by (simp_all add: u64_div_numeral u64_mod_numeral)
qed

lemma weekday_word:
  assumes "d < 2 ^ 60"
  shows "(of_nat d + 4) mod 7 + 1 = (of_nat ((d + 4) mod 7 + 1) :: u64)"
proof -
  have "of_nat (d + 4) mod 7 = (of_nat ((d + 4) mod 7) :: u64)"
    by (rule u64_mod_numeral) (use assms in simp_all)
  then show ?thesis by simp
qed

lemma from_unix_of_nat:
  assumes "n < 2 ^ 60"
  shows "from_unix (of_nat n) = unix_time n"
proof -
  define D where "D = n div 86400"
  define E where "E = (D + 719468) div 146097"
  have D: "D < 2 ^ 60" using assms unfolding D_def by (simp add: le_less_trans [OF div_le_dividend])
  obtain k j where kj: "k < 400" "j < year_length k" "(D + 719468) mod 146097 = year_start k + j"
    using day_of_era_split [of "(D + 719468) mod 146097"] by auto
  have z: "D + 719468 = E * 146097 + year_start k + j"
    unfolding E_def kj(3) [symmetric] add.assoc by simp
  have e: "year_start k + j < 146097" unfolding kj(3) [symmetric] by simp
  have j: "j < 366" using kj(2) by (simp add: year_length_def split: if_splits)
  have days: "of_nat n div 86400 = (of_nat D :: u64)"
    unfolding D_def by (rule u64_div_numeral) (use assms in simp_all)
  have era: "(of_nat D + 719468) div 146097 = (of_nat E :: u64)"
  proof -
    have "of_nat (D + 719468) div 146097 = (of_nat E :: u64)"
      unfolding E_def by (rule u64_div_numeral) (use D in simp_all)
    then show ?thesis by simp
  qed
  have doe: "of_nat D + 719468 - of_nat E * 146097 = (of_nat (year_start k + j) :: u64)"
    using arg_cong [OF z, of "of_nat :: nat \<Rightarrow> u64"] by simp
  have doy: "of_nat (year_start k + j) - of_nat (year_start k) = (of_nat j :: u64)" by simp
  have y: "of_nat k + of_nat E * 400 = (of_nat (k + E * 400) :: u64)"
    "(if b then of_nat x + 1 else of_nat x) = (of_nat (if b then x + 1 else x) :: u64)" for b x by simp_all
  have "civil_from_days D = date_of (k + E * 400) j" by (rule civil_eq_date [OF z kj(1,2)])
  then have "unix_time n = time_of (date_of (k + E * 400) j) ((D + 4) mod 7 + 1)
      (n mod 86400 div 3600) (n mod 86400 mod 3600 div 60) (n mod 86400 mod 60)"
    by (simp only: unix_time_def D_def [symmetric])
  moreover have "n < 2 ^ 64" using assms by simp
  ultimately show ?thesis
    by (simp only: from_unix_def Let_def days weekday_word [OF D] era doe year_of_era_word [OF e]
        year_of_era_eq [OF kj(1,2)] year_start_word [OF kj(1)] doy month_words [OF j] y
        ucast_of_nat_u64 date_of_def time_of.simps time_of_day_words)
qed

section \<open>The calendar carry\<close>

definition date_ok :: "nat \<times> nat \<times> nat \<Rightarrow> bool" where
  "date_ok dt \<longleftrightarrow> (case dt of (y, m, d) \<Rightarrow> 1 \<le> m \<and> m \<le> 12 \<and> 1 \<le> d \<and> d \<le> month_days m y)"

lemma civil_date_ok: "date_ok (civil_from_days n)"
proof (induction n)
  case 0
  then show ?case by (simp add: civil_epoch date_ok_def month_days_def)
next
  case (Suc n)
  have "date_ok dt \<Longrightarrow> date_ok (next_day dt)" for dt
    by (cases dt) (auto simp: date_ok_def month_days_def)
  with Suc show ?case by (simp add: civil_from_days_Suc)
qed

lemma u8_of_nat_simps:
  "a < 256 \<Longrightarrow> of_nat a < (numeral k :: u8) \<longleftrightarrow> a < numeral k"
  "a < 256 \<Longrightarrow> of_nat a \<le> (numeral k :: u8) \<longleftrightarrow> a \<le> numeral k"
  "a < 256 \<Longrightarrow> (numeral k :: u8) \<le> of_nat a \<longleftrightarrow> numeral k \<le> a"
  "a < 256 \<Longrightarrow> of_nat a = (numeral k :: u8) \<longleftrightarrow> a = numeral k"
  if "(numeral k :: nat) < 256"
  using small_of_nat_less [of a "numeral k", where 'a = 8] small_of_nat_le [of a "numeral k", where 'a = 8]
    small_of_nat_le [of "numeral k" a, where 'a = 8] small_of_nat_eq [of a "numeral k", where 'a = 8] that
  by simp_all

lemma u16_mod_of_nat:
  "a < 65536 \<Longrightarrow> of_nat a mod (numeral k :: u16) = 0 \<longleftrightarrow> a mod numeral k = 0"
  if "(numeral k :: nat) < 65536"
proof -
  assume a: "a < 65536"
  have "a mod numeral k < 65536" using a mod_less_eq_dividend le_less_trans by blast
  then show ?thesis
    using word_of_nat_mod [of a "numeral k", where 'a = 16] a that small_of_nat_eq [of "a mod numeral k" 0, where 'a = 16]
    by simp
qed

lemma days_in_month_of_nat:
  assumes "m < 256" "y < 65536"
  shows "days_in_month (of_nat m) (of_nat y) = of_nat (month_days m y)"
  using assms by (auto simp: days_in_month_def month_days_def leap_def u8_of_nat_simps u16_mod_of_nat)

lemma advance_time_of:
  assumes dt: "date_ok dt" "fst dt < 65536" and t: "s < 60" "mi < 60" "h < 24" "1 \<le> wd" "wd \<le> 7"
  shows "advance_time (time_of dt wd h mi s) =
    (if s + 1 < 60 then time_of dt wd h mi (s + 1)
     else if mi + 1 < 60 then time_of dt wd h (mi + 1) 0
     else if h + 1 < 24 then time_of dt wd (h + 1) 0 0
     else time_of (next_day dt) (wd mod 7 + 1) 0 0 0)"
proof -
  obtain y m d where d: "dt = (y, m, d)" by (cases dt)
  have md: "month_days m y < 32" by (simp add: month_days_def)
  then have r: "1 \<le> m" "m \<le> 12" "d < 32" using dt by (auto simp: date_ok_def d)
  have succ: "of_nat a + 1 = (of_nat (a + 1) :: u8)" "of_nat y + 1 = (of_nat (y + 1) :: u16)" for a by simp_all
  have wd: "(if (7 :: u8) \<le> of_nat wd then 1 else of_nat (wd + 1)) = (of_nat (wd mod 7 + 1) :: u8)"
  proof (cases "wd = 7")
    case False
    then show ?thesis using t u8_of_nat_simps(3) [of _ wd] by (simp add: mod_less)
  qed simp
  have cmp: "of_nat (s + 1) < (60 :: u8) \<longleftrightarrow> s + 1 < 60" "of_nat (mi + 1) < (60 :: u8) \<longleftrightarrow> mi + 1 < 60"
    "of_nat (h + 1) < (24 :: u8) \<longleftrightarrow> h + 1 < 24" "of_nat (m + 1) \<le> (12 :: u8) \<longleftrightarrow> m + 1 \<le> 12"
    using t r by (simp_all only: u8_of_nat_simps)
  have day: "of_nat (d + 1) \<le> days_in_month (of_nat m) (of_nat y) \<longleftrightarrow> d + 1 \<le> month_days m y"
    using r md dt(2) days_in_month_of_nat [of m y] small_of_nat_le [of "d + 1" "month_days m y", where 'a = 8]
    by (simp add: d)
  show ?thesis
    by (cases "s + 1 < 60"; cases "mi + 1 < 60"; cases "h + 1 < 24"; cases "d + 1 \<le> month_days m y"; cases "m + 1 \<le> 12")
       (simp_all only: advance_time_def Let_def d time_of.simps next_day.simps RtcTime.select_convs
          RtcTime.update_convs succ cmp day wd if_True if_False not_False_eq_True not_True_eq_False
          semiring_1_class.of_nat_0 semiring_1_class.of_nat_1)
qed

text \<open>A time of day by its parts, and the parts of the next second.\<close>

lemma hms:
  fixes h mi s :: nat
  assumes "mi < 60" "s < 60"
  shows "(h * 3600 + mi * 60 + s) div 3600 = h" "(h * 3600 + mi * 60 + s) mod 3600 div 60 = mi"
    "(h * 3600 + mi * 60 + s) mod 60 = s"
proof -
  have lt: "mi * 60 + s < 3600" using assms by simp
  have "(h * 3600 + mi * 60 + s) mod 3600 = (mi * 60 + s + h * 3600) mod 3600" by (simp only: ac_simps)
  also have "\<dots> = mi * 60 + s" using lt by (simp only: mod_mult_self1 mod_less)
  finally have "(h * 3600 + mi * 60 + s) mod 3600 = mi * 60 + s" .
  moreover have "(mi * 60 + s) div 60 = mi" using assms(2) by simp
  ultimately show "(h * 3600 + mi * 60 + s) mod 3600 div 60 = mi" by (simp only:)
  show "(h * 3600 + mi * 60 + s) div 3600 = h" using lt by (intro div_nat_eqI) simp_all
  have "(h * 3600 + mi * 60 + s) mod 60 = (s + (h * 60 + mi) * 60) mod 60" by (simp add: algebra_simps)
  then show "(h * 3600 + mi * 60 + s) mod 60 = s" using assms(2) by (simp only: mod_mult_self1 mod_less)
qed

lemma unix_time_hms:
  assumes "h < 24" "mi < 60" "s < 60"
  shows "unix_time (d * 86400 + (h * 3600 + mi * 60 + s)) =
    time_of (civil_from_days d) ((d + 4) mod 7 + 1) h mi s"
proof -
  have lt: "h * 3600 + mi * 60 + s < 86400" using assms by simp
  then have "(d * 86400 + (h * 3600 + mi * 60 + s)) div 86400 = d" by (intro div_nat_eqI) simp_all
  moreover have "(d * 86400 + (h * 3600 + mi * 60 + s)) mod 86400 = h * 3600 + mi * 60 + s"
    using lt mod_mult_self3 [of d 86400 "h * 3600 + mi * 60 + s"] by (simp only: mod_less)
  ultimately show ?thesis unfolding unix_time_def by (simp only: hms [OF assms(2,3)])
qed

lemma unix_time_split:
  fixes n :: nat
  obtains d h mi s where "n = d * 86400 + (h * 3600 + mi * 60 + s)" "h < 24" "mi < 60" "s < 60"
proof -
  let ?r = "n mod 86400"
  have r: "?r < 86400" by simp
  have "n = n div 86400 * 86400 + (?r div 3600 * 3600 + ?r mod 3600 div 60 * 60 + ?r mod 3600 mod 60)"
    by (simp only: div_mult_mod_eq add.assoc)
  moreover have "?r div 3600 < 24" using r by (simp add: div_less_iff_less_mult)
  moreover have "?r mod 3600 div 60 < 60" by (simp add: div_less_iff_less_mult)
  ultimately show ?thesis using that [of "n div 86400" "?r div 3600" "?r mod 3600 div 60" "?r mod 3600 mod 60"] by simp
qed

lemma unix_time_Suc:
  assumes "fst (civil_from_days (n div 86400)) < 65536"
  shows "unix_time (Suc n) = advance_time (unix_time n)"
proof -
  obtain d h mi s where n: "n = d * 86400 + (h * 3600 + mi * 60 + s)" and b: "h < 24" "mi < 60" "s < 60"
    by (rule unix_time_split)
  have "n div 86400 = d" unfolding n using b by (intro div_nat_eqI) simp_all
  then have y: "fst (civil_from_days d) < 65536" using assms by simp
  have wd: "((d + 4) mod 7 + 1) mod 7 + 1 = (Suc d + 4) mod 7 + 1" by (simp add: mod_Suc_eq)
  have wd7: "(d + 4) mod 7 + 1 \<le> 7" using mod_less_divisor [of 7 "d + 4"] by linarith
  note adv = advance_time_of [OF civil_date_ok y b(3,2,1) _ wd7, unfolded wd]
  note u = unix_time_hms [OF b, of d, folded n]
  consider (s) "s + 1 < 60" | (mi) "s = 59" "mi + 1 < 60" | (h) "s = 59" "mi = 59" "h + 1 < 24"
    | (d) "s = 59" "mi = 59" "h = 23"
    using b by linarith
  then show ?thesis
  proof cases
    case s
    have e: "Suc n = d * 86400 + (h * 3600 + mi * 60 + (s + 1))" by (simp add: n)
    show ?thesis unfolding u unfolding e using unix_time_hms [of h mi "s + 1" d] adv s b by simp
  next
    case mi
    have e: "Suc n = d * 86400 + (h * 3600 + (mi + 1) * 60 + 0)" using mi by (simp add: n)
    show ?thesis unfolding u unfolding e using unix_time_hms [of h "mi + 1" 0 d] adv mi b by simp
  next
    case h
    have e: "Suc n = d * 86400 + ((h + 1) * 3600 + 0 * 60 + 0)" using h by (simp add: n)
    show ?thesis unfolding u unfolding e using unix_time_hms [of "h + 1" 0 0 d] adv h b by simp
  next
    case d
    have e: "Suc n = Suc d * 86400 + (0 * 3600 + 0 * 60 + 0)" using d by (simp add: n)
    show ?thesis unfolding u unfolding e
      using unix_time_hms [of 0 0 0 "Suc d"] adv d by (simp add: civil_from_days_Suc)
  qed
qed

lemma civil_year_bound: "d < 23217004 \<Longrightarrow> fst (civil_from_days d) < 65536"
proof -
  assume "d < 23217004"
  have "fst dt \<le> fst (next_day dt)" for dt by (cases dt) simp
  then have mono: "fst (civil_from_days a) \<le> fst (civil_from_days b)" if "a \<le> b" for a b
    by (intro lift_Suc_mono_le [of "\<lambda>n. fst (civil_from_days n)", OF _ that]) (simp add: civil_from_days_Suc)
  have last: "civil_from_days 23217003 = date_of (335 + 163 * 400) 305"
    by (rule civil_eq_date) (simp_all add: year_start_def year_length_def leap_def)
  have y: "fst (date_of (335 + 163 * 400) 305) = 65535"
    by (simp add: date_of_def civil_month_def month_index_def)
  have "d \<le> 23217003" using \<open>d < 23217004\<close> by simp
  from mono [OF this] show ?thesis unfolding last y by simp
qed

section \<open>Correctness\<close>

text \<open>C21 (equivalence).  The two ways the clock computes dates agree: advancing the broken-down time
  of any Unix time by one second with the calendar carry gives the conversion of the next second, up
  to the end of the year 65535, the last the year field holds.\<close>

theorem rtc_calendar:
  assumes "secs < 2005949145600"
  shows "advance_time (from_unix secs) = from_unix (secs + 1)"
proof -
  let ?n = "unat secs"
  have n: "?n < 2005949145600" using assms by (simp add: word_less_nat_alt)
  then have "?n div 86400 < 23217004" by (simp add: div_less_iff_less_mult)
  then have "unix_time (Suc ?n) = advance_time (unix_time ?n)"
    by (intro unix_time_Suc civil_year_bound)
  moreover have "from_unix secs = unix_time ?n" using from_unix_of_nat [of ?n] n by simp
  moreover have "from_unix (secs + 1) = unix_time (Suc ?n)"
    using from_unix_of_nat [of "Suc ?n"] n by (simp add: add.commute)
  ultimately show ?thesis by simp
qed

theorem rtc_calendar_witness:
  "advance_time (from_unix 951782399) = from_unix 951782400"
  using rtc_calendar [of 951782399] by simp

section \<open>The interrupt line\<close>

datatype RtcOp = PortRead u16 u8 | PortWrite u16 u8 u32 | TickSecond | ElapsePeriodic u64 | SetTime RtcTime

text \<open>One operation on the device: the levels it drives and the device after it.\<close>

fun rtc_op :: "RtcOp \<Rightarrow> Rtc146818 \<Rightarrow> bool list \<times> Rtc146818" where
  "rtc_op (PortRead port sz) r = (case rtc_pio_read port sz r of ((v, tr), r') \<Rightarrow> (tr, r'))"
| "rtc_op (PortWrite port sz dat) r = ([], rtc_pio_write port sz dat r)"
| "rtc_op TickSecond r = (case tick_second r of ((a, tr), r') \<Rightarrow> (tr, r'))"
| "rtc_op (ElapsePeriodic ns) r = (case advance_periodic ns r of ((a, tr), r') \<Rightarrow> (tr, r'))"
| "rtc_op (SetTime t) r = ([], set_time t r)"

fun rtc_ops :: "RtcOp list \<Rightarrow> Rtc146818 \<Rightarrow> bool list \<times> Rtc146818" where
  "rtc_ops [] r = ([], r)"
| "rtc_ops (op # ops) r =
     (case rtc_op op r of (tr, r1) \<Rightarrow> case rtc_ops ops r1 of (tr', r2) \<Rightarrow> (tr @ tr', r2))"

definition irqf :: "Rtc146818 \<Rightarrow> bool" where
  "irqf r \<longleftrightarrow> bit (ram_at r REG_C) 7"

definition rtc_wf :: "Rtc146818 \<Rightarrow> bool" where
  "rtc_wf r \<longleftrightarrow> length (ram r) = CMOS_SIZE \<and> rtc_irq r"

lemma rtc_wf_simps [simp]:
  "rtc_wf (ram_put i v r) = rtc_wf r" "rtc_wf (r\<lparr>rtc_time := t\<rparr>) = rtc_wf r"
  "rtc_wf (r\<lparr>periodic_accum_ns := a\<rparr>) = rtc_wf r" "rtc_wf (r\<lparr>nmi_disabled := b, rtc_index := x\<rparr>) = rtc_wf r"
  by (simp_all add: rtc_wf_def ram_put_def)

lemma ram_at_simps [simp]:
  "ram_at (r\<lparr>rtc_time := t\<rparr>) i = ram_at r i" "ram_at (r\<lparr>periodic_accum_ns := a\<rparr>) i = ram_at r i"
  "ram_at (r\<lparr>nmi_disabled := b, rtc_index := x\<rparr>) i = ram_at r i"
  "i \<noteq> j \<Longrightarrow> ram_at (ram_put i v r) j = ram_at r j"
  by (auto simp: ram_at_def ram_put_def nth_list_update word_unat_eq_iff)

lemma ram_at_put_C [simp]: "rtc_wf r \<Longrightarrow> ram_at (ram_put REG_C v r) REG_C = v"
  by (simp add: ram_at_def ram_put_def rtc_wf_def CMOS_SIZE_def REG_C_def)

lemma rtc_irq_simps [simp]: "rtc_wf r \<Longrightarrow> rtc_irq r"
  by (simp add: rtc_wf_def)

lemma irqf_flags:
  "bit (c OR REG_C_IRQF) 7" "bit (c OR REG_C_UF) 7 = bit c 7" "bit (c OR (REG_C_UF OR REG_C_AF)) 7 = bit c 7"
  "bit (c OR REG_C_PF) 7 = bit c 7" "bit (c OR REG_C_AF) 7 = bit c 7"
  by (simp_all add: bit_or_iff REG_C_IRQF_def REG_C_UF_def REG_C_AF_def REG_C_PF_def)

lemma tick_periodic_line:
  assumes "rtc_wf r" "tick_periodic r = ((a, tr), r')"
  shows "rtc_wf r'" "last (irqf r # tr) = irqf r'"
  using assms by (auto simp: tick_periodic_def irqf_def Let_def irqf_flags split: if_splits)

lemma write_data_line: "rtc_wf r \<Longrightarrow> rtc_wf (rtc_write_data v r) \<and> ram_at (rtc_write_data v r) REG_C = ram_at r REG_C"
proof -
  assume "rtc_wf r"
  moreover have "REG_A \<noteq> REG_C" by (simp add: reg_defs)
  ultimately show ?thesis by (simp add: rtc_write_data_def write_hours_def Let_def)
qed

lemma rtc_op_line:
  assumes "rtc_wf r" "rtc_op op r = (tr, r')"
  shows "rtc_wf r' \<and> last (irqf r # tr) = irqf r'"
proof (cases op)
  case (PortRead port sz)
  then show ?thesis using assms
    by (auto simp: rtc_pio_read_def rtc_read_data_def irqf_def Let_def split: prod.splits if_splits)
next
  case (PortWrite port sz dat)
  then show ?thesis using assms write_data_line [OF assms(1)]
    by (auto simp: rtc_pio_write_def write_index_def irqf_def Let_def split: if_splits)
next
  case TickSecond
  then show ?thesis using assms
    by (auto simp: tick_second_def advance_one_second_def irqf_def Let_def irqf_flags split: if_splits)
next
  case (ElapsePeriodic ns)
  have irqf: "irqf (r\<lparr>periodic_accum_ns := x\<rparr>) = irqf r" for x by (simp add: irqf_def)
  show ?thesis using assms ElapsePeriodic
    by (auto simp: advance_periodic_def Let_def irqf split: option.splits if_splits prod.splits
        dest: tick_periodic_line(1) [rotated] tick_periodic_line(2) [rotated, symmetric])
next
  case (SetTime t)
  then show ?thesis using assms by (auto simp: set_time_def irqf_def)
qed

text \<open>IRQ8 is the IRQF flag: whatever sequence of port accesses, seconds, elapsed
  time and host time changes reaches a clock with an attached line, the last level it drove (low
  when it drove none) is the IRQF bit of register C.\<close>

theorem rtc_line_is_irqf:
  assumes "rtc_ops ops (attach_irq (rtc_new t)) = (tr, r)"
  shows "last (False # tr) \<longleftrightarrow> ram r ! 0x0C AND 0x80 \<noteq> 0"
proof -
  have step: "rtc_wf q \<Longrightarrow> rtc_ops ops q = (tr, r) \<Longrightarrow> last (irqf q # tr) = irqf r" for q
  proof (induction ops arbitrary: q tr)
    case (Cons op ops)
    obtain tr1 q1 where 1: "rtc_op op q = (tr1, q1)" by (metis prod.exhaust)
    obtain tr2 where 2: "rtc_ops ops q1 = (tr2, r)" "tr = tr1 @ tr2"
      using Cons.prems(2) 1 by (auto split: prod.splits)
    have "rtc_wf q1" "last (irqf q # tr1) = irqf q1" using rtc_op_line [OF Cons.prems(1) 1] by auto
    with Cons.IH [OF _ 2(1)] show ?case by (cases tr2) (auto simp: 2(2))
  qed simp
  have "rtc_wf (attach_irq (rtc_new t))" by (simp add: rtc_wf_def attach_irq_def rtc_new_def)
  moreover have "\<not> irqf (attach_irq (rtc_new t))"
    by (simp add: irqf_def ram_at_def attach_irq_def rtc_new_def CMOS_SIZE_def reg_defs)
  moreover have "w AND 0x80 \<noteq> 0 \<longleftrightarrow> bit w 7" for w :: u8
    using and_bitmask_eq_0 [of w 7] by (simp add: bitmask_numeral)
  ultimately show ?thesis using step [OF _ assms] by (simp add: irqf_def ram_at_def REG_C_def)
qed

theorem rtc_line_is_irqf_witness:
  "ram (snd (rtc_ops [PortWrite 0x70 1 0x0B, PortWrite 0x71 1 0x16, TickSecond]
     (attach_irq (rtc_new (from_unix 0))))) ! 0x0C AND 0x80 \<noteq> 0"
proof -
  let ?x = "rtc_ops [PortWrite 0x70 1 0x0B, PortWrite 0x71 1 0x16, TickSecond] (attach_irq (rtc_new (from_unix 0)))"
  have "?x = (fst ?x, snd ?x)" by simp
  from rtc_line_is_irqf [OF this] have "last (False # fst ?x) \<longleftrightarrow> ram (snd ?x) ! 0x0C AND 0x80 \<noteq> 0" .
  moreover have "fst ?x = [True]" by code_simp
  ultimately show ?thesis by simp
qed

section \<open>Setting the clock\<close>

definition time_valid :: "RtcTime \<Rightarrow> bool" where
  "time_valid t \<longleftrightarrow> second t < 60 \<and> minute t < 60 \<and> hour t < 24 \<and> 1 \<le> weekday t \<and> weekday t \<le> 7 \<and>
     1 \<le> day t \<and> day t \<le> 31 \<and> 1 \<le> month t \<and> month t \<le> 12 \<and> year t < 10000"

text \<open>Guest accesses to one register through the two ports.\<close>

definition get_reg :: "u8 \<Rightarrow> Rtc146818 \<Rightarrow> u32" where
  "get_reg i r = fst (fst (rtc_pio_read RTC_DATA 1 (rtc_pio_write RTC_INDEX 1 (ucast i) r)))"

definition put_reg :: "u8 \<Rightarrow> u32 \<Rightarrow> Rtc146818 \<Rightarrow> Rtc146818" where
  "put_reg i v r = rtc_pio_write RTC_DATA 1 v (rtc_pio_write RTC_INDEX 1 (ucast i) r)"

definition clock_regs :: "u8 list" where
  "clock_regs = [REG_SECONDS, REG_MINUTES, REG_HOURS, REG_WEEKDAY, REG_DAY, REG_MONTH, REG_CENTURY, REG_YEAR]"

lemma u8_all_below:
  assumes "list_all P (map of_nat [0..<k])" "x < of_nat k" "k < 256"
  shows "P (x :: u8)"
proof -
  have "unat x < k" using assms(2,3) by (simp add: word_less_nat_alt unat_of_nat)
  moreover have "P (of_nat i)" if "i < k" for i using assms(1) that by (simp add: list_all_iff)
  ultimately have "P (of_nat (unat x))" by blast
  then show ?thesis by simp
qed

lemma decode_encode: "x < 100 \<Longrightarrow> decode (encode x binary) binary = x"
proof (cases binary)
  case False
  assume "x < 100"
  moreover have "list_all (\<lambda>x. decode (encode x False) False = x) (map of_nat [0..<100])" by code_simp
  ultimately show ?thesis using u8_all_below [of _ 100 x] False by simp
qed (simp add: decode_def encode_def)

lemma hours_12_roundtrip:
  assumes "x < 24"
  shows "(let h = x mod 12; h = (if h = 0 then 12 else h); v = encode h binary OR (if x \<ge> 12 then 0x80 else 0);
        h' = decode (v AND 0x7F) binary mod 12
      in if v AND 0x80 \<noteq> 0 then h' + 12 else h') = x"
proof -
  have "list_all (\<lambda>x. (let h = x mod 12; h = (if h = 0 then 12 else h); v = encode h b OR (if x \<ge> 12 then 0x80 else 0);
        h' = decode (v AND 0x7F) b mod 12
      in if v AND 0x80 \<noteq> 0 then h' + 12 else h') = x) (map of_nat [0..<24])" for b
    by (cases b; simp only:; code_simp)
  from u8_all_below [OF this, of x] assms show ?thesis by simp
qed

lemma write_read_hours:
  assumes "hour (rtc_time r) < 24" "reg_b q = reg_b r"
  shows "write_hours (read_hours r) q = q\<lparr>rtc_time := (rtc_time q)\<lparr>hour := hour (rtc_time r)\<rparr>\<rparr>"
proof -
  have "binary_mode q = binary_mode r" by (simp add: binary_mode_def assms(2))
  moreover have "hour (rtc_time r) < 100" using assms(1) order_less_trans by fastforce
  ultimately show ?thesis
    using hours_12_roundtrip [OF assms(1), of "binary_mode r"] assms(2)
    by (auto simp: write_hours_def read_hours_def Let_def decode_encode)
qed

lemma year_split:
  fixes y z :: u16
  assumes "y < 10000"
  shows "ucast (ucast (y div 100) :: u8) = y div 100" "ucast (ucast (y mod 100) :: u8) = (y mod 100 :: u16)"
    "ucast (y div 100) < (100 :: u8)" "ucast (y mod 100) < (100 :: u8)"
    "(y div 100 * 100 + z mod 100) div 100 = y div 100" "y div 100 * 100 + y mod 100 = y"
proof -
  have y: "unat y < 10000" using assms by (simp add: word_less_nat_alt)
  have d: "unat (y div 100) = unat y div 100" "unat (z mod 100) = unat z mod 100"
    "unat (y mod 100) = unat y mod 100"
    by (simp_all add: unat_div unat_mod)
  have c: "unat y div 100 < 100" "unat y mod 100 < 100" using y by (simp_all add: div_less_iff_less_mult)
  have b: "unat (ucast (y div 100) :: u8) = unat y div 100" "unat (ucast (y mod 100) :: u8) = unat y mod 100"
    using c by (simp_all add: unat_ucast_down d)
  then show "ucast (y div 100) < (100 :: u8)" "ucast (y mod 100) < (100 :: u8)"
    using c by (simp_all add: word_less_nat_alt)
  show "ucast (ucast (y div 100) :: u8) = y div 100" "ucast (ucast (y mod 100) :: u8) = (y mod 100 :: u16)"
    using b by (simp_all add: word_unat_eq_iff unat_ucast_up d)
  have "unat (y div 100 * 100) = unat y div 100 * 100" using c by (simp add: unat_mul_no_wrap d)
  then have m: "unat (y div 100 * 100 + z mod 100) = unat y div 100 * 100 + unat z mod 100"
    using c mod_less_divisor [of 100 "unat z"] by (subst unat_add_no_wrap) (simp_all add: d)
  then have "unat ((y div 100 * 100 + z mod 100) div 100) = unat y div 100"
    by (simp add: unat_div)
  then show "(y div 100 * 100 + z mod 100) div 100 = y div 100" by (simp add: word_unat_eq_iff d)
  show "y div 100 * 100 + y mod 100 = y" by (rule div_mult_mod_eq)
qed

lemma select_reg: "rtc_pio_write RTC_INDEX 1 (ucast i) r = r\<lparr>nmi_disabled := (i AND 0x80 \<noteq> 0), rtc_index := i AND 0x7F\<rparr>"
  by (simp add: rtc_pio_write_def write_index_def ucast_ucast_up)

lemma mode_select [simp]:
  "reg_b (r\<lparr>nmi_disabled := b, rtc_index := x\<rparr>) = reg_b r" "reg_b (r\<lparr>rtc_time := t\<rparr>) = reg_b r"
  "binary_mode (r\<lparr>nmi_disabled := b, rtc_index := x\<rparr>) = binary_mode r"
  "read_hours (r\<lparr>nmi_disabled := b, rtc_index := x\<rparr>) = read_hours r"
  by (simp_all add: reg_b_def binary_mode_def read_hours_def Let_def)

lemma get_reg_values:
  "get_reg REG_SECONDS r = ucast (encode (second (rtc_time r)) (binary_mode r))"
  "get_reg REG_MINUTES r = ucast (encode (minute (rtc_time r)) (binary_mode r))"
  "get_reg REG_HOURS r = ucast (read_hours r)"
  "get_reg REG_WEEKDAY r = ucast (encode (weekday (rtc_time r)) (binary_mode r))"
  "get_reg REG_DAY r = ucast (encode (day (rtc_time r)) (binary_mode r))"
  "get_reg REG_MONTH r = ucast (encode (month (rtc_time r)) (binary_mode r))"
  "get_reg REG_CENTURY r = ucast (encode (ucast (year (rtc_time r) div 100)) (binary_mode r))"
  "get_reg REG_YEAR r = ucast (encode (ucast (year (rtc_time r) mod 100)) (binary_mode r))"
  unfolding get_reg_def select_reg
  by (simp_all add: rtc_pio_read_def rtc_read_data_def reg_defs Let_def)

lemma put_reg_time:
  "rtc_time (put_reg REG_SECONDS (ucast v) q) = (rtc_time q)\<lparr>second := decode v (binary_mode q)\<rparr>"
  "rtc_time (put_reg REG_MINUTES (ucast v) q) = (rtc_time q)\<lparr>minute := decode v (binary_mode q)\<rparr>"
  "rtc_time (put_reg REG_HOURS (ucast v) q) = rtc_time (write_hours v q)"
  "rtc_time (put_reg REG_WEEKDAY (ucast v) q) = (rtc_time q)\<lparr>weekday := decode v (binary_mode q)\<rparr>"
  "rtc_time (put_reg REG_DAY (ucast v) q) = (rtc_time q)\<lparr>day := decode v (binary_mode q)\<rparr>"
  "rtc_time (put_reg REG_MONTH (ucast v) q) = (rtc_time q)\<lparr>month := decode v (binary_mode q)\<rparr>"
  "rtc_time (put_reg REG_CENTURY (ucast v) q) =
     (rtc_time q)\<lparr>year := ucast (decode v (binary_mode q)) * 100 + year (rtc_time q) mod 100\<rparr>"
  "rtc_time (put_reg REG_YEAR (ucast v) q) =
     (rtc_time q)\<lparr>year := year (rtc_time q) div 100 * 100 + ucast (decode v (binary_mode q))\<rparr>"
  for v :: u8
  unfolding put_reg_def select_reg
  by (simp_all add: rtc_pio_write_def rtc_write_data_def RTC_DATA_def RTC_INDEX_def reg_defs ucast_ucast_up Let_def
      write_hours_def)

lemma put_reg_mode: "i \<in> set clock_regs \<Longrightarrow> reg_b (put_reg i v q) = reg_b q"
  unfolding put_reg_def select_reg
  by (auto simp: clock_regs_def rtc_pio_write_def rtc_write_data_def RTC_DATA_def RTC_INDEX_def
      reg_defs Let_def write_hours_def)

definition copy_clock :: "Rtc146818 \<Rightarrow> Rtc146818 \<Rightarrow> Rtc146818" where
  "copy_clock r q = fold (\<lambda>i q. put_reg i (get_reg i r) q) clock_regs q"

lemma time_valid_bounds:
  assumes "time_valid t"
  shows "second t < 100" "minute t < 100" "hour t < 24" "weekday t < 100" "day t < 100" "month t < 100"
    "year t < 10000"
  using assms unfolding time_valid_def by (auto elim: order_less_trans order_le_less_trans)

lemma same_mode: "reg_b p = reg_b r \<Longrightarrow> binary_mode p = binary_mode r"
  by (simp add: binary_mode_def)

lemma copy_reg:
  assumes "time_valid (rtc_time r)" "reg_b p = reg_b r"
  shows "rtc_time (put_reg REG_SECONDS (get_reg REG_SECONDS r) p) = (rtc_time p)\<lparr>second := second (rtc_time r)\<rparr>"
    "rtc_time (put_reg REG_MINUTES (get_reg REG_MINUTES r) p) = (rtc_time p)\<lparr>minute := minute (rtc_time r)\<rparr>"
    "rtc_time (put_reg REG_HOURS (get_reg REG_HOURS r) p) = (rtc_time p)\<lparr>hour := hour (rtc_time r)\<rparr>"
    "rtc_time (put_reg REG_WEEKDAY (get_reg REG_WEEKDAY r) p) = (rtc_time p)\<lparr>weekday := weekday (rtc_time r)\<rparr>"
    "rtc_time (put_reg REG_DAY (get_reg REG_DAY r) p) = (rtc_time p)\<lparr>day := day (rtc_time r)\<rparr>"
    "rtc_time (put_reg REG_MONTH (get_reg REG_MONTH r) p) = (rtc_time p)\<lparr>month := month (rtc_time r)\<rparr>"
    "rtc_time (put_reg REG_CENTURY (get_reg REG_CENTURY r) p) =
      (rtc_time p)\<lparr>year := year (rtc_time r) div 100 * 100 + year (rtc_time p) mod 100\<rparr>"
    "rtc_time (put_reg REG_YEAR (get_reg REG_YEAR r) p) =
      (rtc_time p)\<lparr>year := year (rtc_time p) div 100 * 100 + year (rtc_time r) mod 100\<rparr>"
  by (simp_all only: get_reg_values put_reg_time same_mode [OF assms(2)] decode_encode
      time_valid_bounds [OF assms(1)] year_split(1-4) [OF time_valid_bounds(7) [OF assms(1)]]
      write_read_hours [OF time_valid_bounds(3) [OF assms(1)] assms(2)])
     simp

text \<open>C32 (roundtrip).  What a guest reads from the clock it can write back: reading the eight date and
  time registers of one clock and writing the values to another in the same data mode, BCD or binary
  and 12- or 24-hour, gives the second clock exactly the time of the first.\<close>

theorem rtc_copy_clock:
  assumes "time_valid (rtc_time r)" "reg_b q = reg_b r"
  shows "rtc_time (copy_clock r q) = rtc_time r"
proof -
  have mode: "reg_b (put_reg i v p) = reg_b r" if "reg_b p = reg_b r" "i \<in> set clock_regs" for i v p
    using that by (simp add: put_reg_mode)
  note y = year_split [OF time_valid_bounds(7) [OF assms(1)]]
  show ?thesis
    unfolding copy_clock_def
    by (simp add: clock_regs_def copy_reg [OF assms(1)] mode [unfolded clock_regs_def] assms(2) y)
qed

theorem rtc_copy_clock_witness:
  "rtc_time (copy_clock (rtc_new (from_unix 951782399)) (rtc_new (from_unix 0))) = from_unix 951782399"
proof -
  have "time_valid (rtc_time (rtc_new (from_unix 951782399)))"
    "reg_b (rtc_new (from_unix 0)) = reg_b (rtc_new (from_unix 951782399))"
    "rtc_time (rtc_new (from_unix 951782399)) = from_unix 951782399"
    by code_simp+
  with rtc_copy_clock show ?thesis by metis
qed

section \<open>The periodic interrupt\<close>

lemma periodic_rate_pos: "periodic_rate_hz r = Some f \<Longrightarrow> 0 < unat f"
proof -
  assume "periodic_rate_hz r = Some f"
  moreover have "list_all (\<lambda>n :: u8. n = 0 \<or> 0 < (drop_bit (unat (n - 1)) 32768 :: u32)) (map of_nat [0..<16])"
    by code_simp
  then have "n < 16 \<Longrightarrow> n = 0 \<or> 0 < (drop_bit (unat (n - 1)) 32768 :: u32)" for n :: u8
    using u8_all_below [of _ 16 n] by simp
  moreover have "ram_at r REG_A AND 0x0F < 16"
    using word_and_le1 [of "ram_at r REG_A" "0x0F"] by (rule order_le_less_trans) simp
  ultimately have "0 < f" by (auto simp: periodic_rate_hz_def Let_def split: if_splits)
  then show ?thesis by (simp add: word_less_nat_alt)
qed

lemma tick_periodic_frame:
  "periodic_accum_ns (snd (tick_periodic r)) = periodic_accum_ns r"
  "periodic_rate_hz r = Some f \<Longrightarrow> fst (fst (tick_periodic r)) \<longleftrightarrow> reg_b r AND REG_B_PIE \<noteq> 0"
  by (simp_all add: tick_periodic_def ram_put_def Let_def)

text \<open>The whole periods in \<open>a\<close> nanoseconds at \<open>f\<close> Hz, and the nanoseconds they take.\<close>

definition periods_due :: "nat \<Rightarrow> nat \<Rightarrow> nat" where
  "periods_due a f = a * f div 10 ^ 9"

definition periods_ns :: "nat \<Rightarrow> nat \<Rightarrow> nat" where
  "periods_ns a f = periods_due a f * 10 ^ 9 div f"

lemma periods_ns_bounds:
  assumes "0 < f"
  shows "periods_ns a f * f \<le> periods_due a f * 10 ^ 9"
    "periods_due a f * 10 ^ 9 < (periods_ns a f + 1) * f" "periods_ns a f \<le> a"
proof -
  show u: "periods_ns a f * f \<le> periods_due a f * 10 ^ 9" "periods_due a f * 10 ^ 9 < (periods_ns a f + 1) * f"
    using dividend_less_div_times [OF assms, of "periods_due a f * 10 ^ 9"]
    by (simp_all add: periods_ns_def div_times_less_eq_dividend)
  have "periods_due a f * 10 ^ 9 \<le> a * f" unfolding periods_due_def by (rule div_times_less_eq_dividend)
  with u(1) have "periods_ns a f * f \<le> a * f" by linarith
  with assms show "periods_ns a f \<le> a" by simp
qed

text \<open>The 128-bit arithmetic of \<open>advance_periodic\<close> computes these without wrapping.\<close>

lemma periods_words:
  fixes acc :: u64 and f :: u32
  assumes "0 < unat f"
  defines "due \<equiv> ucast acc * ucast f div 1000000000 :: u128"
  shows "unat due = periods_due (unat acc) (unat f)"
    and "unat (due * 1000000000 div ucast f) = periods_ns (unat acc) (unat f)"
    and "due * 1000000000 div ucast f \<le> 0xFFFFFFFFFFFFFFFF"
    and "unat (ucast (due * 1000000000 div ucast f) :: u64) = periods_ns (unat acc) (unat f)"
proof -
  let ?a = "unat acc" and ?f = "unat f"
  have "?a * ?f < 2 ^ 64 * 2 ^ 32"
    using unat_bound [of acc] unat_bound [of f] assms(1) by (intro mult_strict_mono) simp_all
  then have lt: "?a * ?f < 2 ^ 128" "periods_due ?a ?f * 10 ^ 9 < 2 ^ 128"
    using div_times_less_eq_dividend [of "?a * ?f" "10 ^ 9"] by (simp_all add: periods_due_def)
  have "unat (ucast acc * ucast f :: u128) = ?a * ?f"
    using lt(1) by (subst unat_mul_no_wrap) (simp_all add: unat_ucast_up)
  then show due: "unat due = periods_due ?a ?f"
    unfolding due_def unat_div periods_due_def by simp
  show ns: "unat (due * 1000000000 div ucast f) = periods_ns ?a ?f"
    unfolding unat_div periods_ns_def using lt(2)
    by (subst unat_mul_no_wrap) (simp_all add: due unat_ucast_up)
  have "periods_ns ?a ?f < 2 ^ 64"
    using periods_ns_bounds(3) [OF assms(1), of ?a] unat_bound [of acc] by simp
  then show "due * 1000000000 div ucast f \<le> 0xFFFFFFFFFFFFFFFF"
    "unat (ucast (due * 1000000000 div ucast f) :: u64) = periods_ns ?a ?f"
    by (simp_all add: word_le_nat_alt unat_ucast_down ns)
qed

text \<open>The periodic clock keeps its phase: a call with \<open>ns\<close> elapsed nanoseconds raises the
  interrupt exactly when it is enabled and the time accumulated since the last tick covers at least
  one period of the selected rate; the accumulator then gives up the time of the \<open>k\<close> whole periods it
  covers, rounded down by less than a nanosecond, and never goes below zero.\<close>

theorem rtc_periodic_phase:
  assumes rate: "periodic_rate_hz r = Some f"
    and room: "unat (periodic_accum_ns r) + unat ns < 2 ^ 64"
    and call: "advance_periodic ns r = ((asserted, tr), r')"
  shows "\<exists>k used. k = (unat (periodic_accum_ns r) + unat ns) * unat f div 10 ^ 9 \<and>
    unat (periodic_accum_ns r') + used = unat (periodic_accum_ns r) + unat ns \<and>
    used * unat f \<le> k * 10 ^ 9 \<and> k * 10 ^ 9 < (used + 1) * unat f \<and>
    (asserted \<longleftrightarrow> 0 < k \<and> reg_b r AND REG_B_PIE \<noteq> 0)"
proof -
  let ?acc = "saturating_add (periodic_accum_ns r) ns"
  let ?due = "ucast ?acc * ucast f div 1000000000 :: u128"
  let ?left = "saturating_sub ?acc (ucast (?due * 1000000000 div ucast f))"
  let ?A = "unat (periodic_accum_ns r) + unat ns" and ?F = "unat f"
  have acc: "unat ?acc = ?A" using room by (simp add: unat_saturating_add)
  have F: "0 < ?F" by (rule periodic_rate_pos [OF rate])
  note w = periods_words [OF F, of ?acc, unfolded acc] and b = periods_ns_bounds [OF F, of ?A]
  have left: "unat ?left + periods_ns ?A ?F = ?A"
    using b(3) by (simp add: saturating_sub_def word_le_nat_alt unat_diff w(4) acc)
  have "unat (periodic_accum_ns r') + periods_ns ?A ?F = ?A \<and>
      (asserted \<longleftrightarrow> 0 < periods_due ?A ?F \<and> reg_b r AND REG_B_PIE \<noteq> 0)"
  proof (cases "?due = 0")
    case True
    then have "periods_due ?A ?F = 0" "periods_ns ?A ?F = 0" using w(1) by (simp_all add: periods_ns_def)
    then show ?thesis using call True rate by (auto simp: advance_periodic_def Let_def acc)
  next
    case False
    then have due: "0 < periods_due ?A ?F" using w(1) by (metis gr0I unat_0_iff)
    have "tick_periodic (r\<lparr>periodic_accum_ns := ?left\<rparr>) = ((asserted, tr), r')"
      using call False w(3) rate by (simp add: advance_periodic_def Let_def)
    then have "periodic_accum_ns r' = ?left" "asserted \<longleftrightarrow> reg_b r AND REG_B_PIE \<noteq> 0"
      using tick_periodic_frame [of "r\<lparr>periodic_accum_ns := ?left\<rparr>"] rate
      by (simp_all add: periodic_rate_hz_def reg_b_def)
    with due left show ?thesis by simp
  qed
  with b show ?thesis
    by (intro exI [of _ "periods_due ?A ?F"] exI [of _ "periods_ns ?A ?F"]) (simp add: periods_due_def)
qed

theorem rtc_periodic_phase_witness:
  "\<exists>asserted tr r'. advance_periodic 2000000 (rtc_new (from_unix 0)) = ((asserted, tr), r') \<and>
     unat (periodic_accum_ns r') = 46875"
proof -
  let ?r = "rtc_new (from_unix 0)"
  obtain a tr r' where c: "advance_periodic 2000000 ?r = ((a, tr), r')" by (metis prod.exhaust)
  have rate: "periodic_rate_hz ?r = Some 1024" and acc: "periodic_accum_ns ?r = 0" by code_simp+
  from rtc_periodic_phase [OF rate _ c] acc obtain used where
    "unat (periodic_accum_ns r') + used = 2000000" "used * 1024 \<le> 2 * 10 ^ 9" "2 * 10 ^ 9 < (used + 1) * 1024"
    by auto
  then have "unat (periodic_accum_ns r') = 46875" by simp
  with c show ?thesis by blast
qed

text \<open>In 12-hour mode the alarm's hour byte carries a PM flag which \<open>alarm_matches\<close> does not decode, so
  an afternoon alarm never matches.\<close>

lemma pm_alarm_never_matches:
  assumes "time_valid (rtc_time r)" "bit (ram_at r REG_HOURS_ALARM) 7" "\<not> bit (ram_at r REG_HOURS_ALARM) 6"
  shows "\<not> alarm_matches r"
proof -
  let ?a = "ram_at r REG_HOURS_ALARM"
  have "?a AND 0xC0 \<noteq> 0xC0"
  proof
    assume "?a AND 0xC0 = 0xC0"
    then have "bit (?a AND 0xC0) 6" by simp
    with assms(3) show False by (simp add: bit_and_iff)
  qed
  moreover have "80 \<le> decode ?a b" for b
  proof -
    have a: "128 \<le> unat ?a"
    proof (rule ccontr)
      assume "\<not> 128 \<le> unat ?a"
      then have "unat ?a < 2 ^ 7" by simp
      from bit_index_less [OF assms(2) this] show False by simp
    qed
    have "unat ?a < 256" using unat_bound [of ?a] by simp
    then have d: "8 \<le> unat ?a div 16" "unat ?a div 16 < 16" using a by simp_all
    have lo: "unat (?a AND 0x0F) \<le> 15" using word_and_le1 [of ?a "0x0F"] by (simp add: word_le_nat_alt)
    have m: "unat (drop_bit 4 ?a * 10) = unat ?a div 16 * 10"
      using d by (subst unat_mul_no_wrap) (simp_all add: unat_drop_bit)
    have "unat (drop_bit 4 ?a * 10 + (?a AND 0x0F)) = unat ?a div 16 * 10 + unat (?a AND 0x0F)"
      using d lo by (subst unat_add_no_wrap) (simp_all add: m)
    then show ?thesis using a d by (simp add: decode_def word_le_nat_alt)
  qed
  moreover have "hour (rtc_time r) < 80"
    using time_valid_bounds(3) [OF assms(1)] by (rule order_less_trans) simp
  ultimately have "decode ?a (binary_mode r) \<noteq> hour (rtc_time r)" by (metis leD)
  with \<open>?a AND 0xC0 \<noteq> 0xC0\<close> show ?thesis by (simp add: alarm_matches_def alarm_field_def Let_def)
qed

end
