(* ===== verification/Platform.thy ===== *)
theory Platform
  imports Pic Pirq Controller Pit Pm_Timer Hpet Rtc
begin

text \<open>
  The assembled platform (\<open>StandardPc\<close> of \<open>enlil-core/src/device_bus.rs\<close>): the clock loop that advances
  every timer from one time base and delivers what fires into both interrupt controllers, the
  TSC-deadline checks of the run loop, and the routing of PCI interrupts through the chipset router.
  The state holds the devices these operations touch; the shared handles of the source are the
  fields of one record, and the closures wired into the devices are applied to the levels the device
  models report.
\<close>

definition IRQ_PIT :: u8 where "IRQ_PIT = 0"
definition LAPIC_TIMER_INPUT_HZ :: u64 where "LAPIC_TIMER_INPUT_HZ = 1000000000"
definition RTC_MAX_CATCHUP_SECONDS :: u64 where "RTC_MAX_CATCHUP_SECONDS = 86400"

text \<open>\<open>lpc_rout\<close>: the four PIRQ routing bytes in the configuration space of the LPC bridge, when the
  bridge is on the bus.\<close>

record StandardPc =
  pc_pit :: Pit
  pc_pm_timer :: AcpiPmTimer
  pc_hpet :: Hpet
  pc_rtc :: Rtc146818
  pc_pic :: DualPic
  pc_ioapic :: InterruptController
  lpc_rout :: "u8 list option"

section \<open>Device lines\<close>

definition pic_line :: "u8 \<Rightarrow> bool \<Rightarrow> DualPic \<Rightarrow> DualPic" where
  "pic_line irq level d = set_irq_level (unat irq) level d"

definition dual_irq_line :: "u8 \<Rightarrow> bool \<Rightarrow> StandardPc \<Rightarrow> StandardPc" where
  "dual_irq_line irq level pc =
     pc\<lparr>pc_pic := pic_line irq level (pc_pic pc), pc_ioapic := isa_line irq level (pc_ioapic pc)\<rparr>"

section \<open>The clock loop\<close>

definition deliver_hpet :: "bool \<Rightarrow> nat \<times> u8 \<Rightarrow> StandardPc \<Rightarrow> StandardPc" where
  "deliver_hpet legacy fired pc =
     (case fired of (timer, gsi) \<Rightarrow>
        if legacy \<and> timer \<le> 1 then
          let isa = (if timer = 0 then IRQ_PIT else RTC_IRQ)
          in pc\<lparr>pc_pic := pic_line isa False (pic_line isa True (pc_pic pc)),
                pc_ioapic := isa_line isa False (isa_line isa True (pc_ioapic pc))\<rparr>
        else pc\<lparr>pc_ioapic := ctl_line gsi False (ctl_line gsi True (pc_ioapic pc))\<rparr>)"

definition tick_lapics :: "u32 \<Rightarrow> InterruptController \<Rightarrow> InterruptController" where
  "tick_lapics clocks c =
     c\<lparr>lapics := map (\<lambda>l. if enabled l then snd (timer_tick clocks l) else l) (lapics c)\<rparr>"

definition lapic_clocks :: "u64 \<Rightarrow> u32" where
  "lapic_clocks ns =
     (let n = ucast ns * ucast LAPIC_TIMER_INPUT_HZ div 1000000000 :: u128
      in if n \<le> 0xFFFFFFFF then ucast n else - 1)"

definition advance_clocks :: "u64 \<Rightarrow> StandardPc \<Rightarrow> (nat \<times> u8) list \<times> StandardPc" where
  "advance_clocks ns pc0 =
     (case pit_tick ns (pc_pit pc0) of ((irq, trace), pit) \<Rightarrow>
      let pc = drive_trace (dual_irq_line IRQ_PIT) trace (pc0\<lparr>pc_pit := pit\<rparr>);
          pc = pc\<lparr>pc_pm_timer := pm_advance (ns_to_ticks ns) (pc_pm_timer pc)\<rparr>
      in case hpet_tick (ns div HPET_TICK_NS) (pc_hpet pc) of (fired, hpet) \<Rightarrow>
      let pc = pc\<lparr>pc_hpet := hpet\<rparr>;
          legacy = legacy_routing hpet;
          pc = fold (deliver_hpet legacy) fired pc;
          clocks = lapic_clocks ns;
          pc = (if clocks > 0 then pc\<lparr>pc_ioapic := tick_lapics clocks (pc_ioapic pc)\<rparr> else pc)
      in case advance_periodic ns (pc_rtc pc) of ((asserted, rtc_trace), rtc) \<Rightarrow>
      (fired, drive_trace (dual_irq_line RTC_IRQ) rtc_trace (pc\<lparr>pc_rtc := rtc\<rparr>)))"

fun rtc_seconds :: "nat \<Rightarrow> StandardPc \<Rightarrow> bool \<times> StandardPc" where
  "rtc_seconds 0 pc = (False, pc)"
| "rtc_seconds (Suc n) pc =
     (case tick_second (pc_rtc pc) of ((fired, trace), rtc) \<Rightarrow>
      case rtc_seconds n (drive_trace (dual_irq_line RTC_IRQ) trace (pc\<lparr>pc_rtc := rtc\<rparr>)) of
        (fired', pc') \<Rightarrow> (fired \<or> fired', pc'))"

definition advance_rtc_seconds :: "u64 \<Rightarrow> StandardPc \<Rightarrow> bool \<times> StandardPc" where
  "advance_rtc_seconds seconds pc = rtc_seconds (unat (min seconds RTC_MAX_CATCHUP_SECONDS)) pc"

section \<open>TSC deadlines\<close>

text \<open>The loop over the LAPICs, with the index of the next one.\<close>

fun check_deadlines :: "u64 \<Rightarrow> nat \<Rightarrow> LocalApic list \<Rightarrow> nat list \<times> LocalApic list" where
  "check_deadlines tsc idx [] = ([], [])"
| "check_deadlines tsc idx (l # ls) =
     (case (if enabled l then check_tsc_deadline tsc l else (False, l)) of (fired, l') \<Rightarrow>
      case check_deadlines tsc (Suc idx) ls of (is, ls') \<Rightarrow>
        ((if fired then idx # is else is), l' # ls'))"

definition check_lapic_tsc_deadlines :: "u64 \<Rightarrow> StandardPc \<Rightarrow> nat list \<times> StandardPc" where
  "check_lapic_tsc_deadlines tsc pc =
     (case check_deadlines tsc 0 (lapics (pc_ioapic pc)) of
        (fired, ls) \<Rightarrow> (fired, pc\<lparr>pc_ioapic := (pc_ioapic pc)\<lparr>lapics := ls\<rparr>\<rparr>))"

definition any_lapic_tsc_deadline_armed :: "StandardPc \<Rightarrow> bool" where
  "any_lapic_tsc_deadline_armed pc \<longleftrightarrow>
     list_ex (\<lambda>l. enabled l \<and> tsc_deadline l \<noteq> 0) (lapics (pc_ioapic pc))"

definition adopt_kvm_tsc_deadline :: "u8 \<Rightarrow> u64 \<Rightarrow> StandardPc \<Rightarrow> StandardPc" where
  "adopt_kvm_tsc_deadline lapic_id value pc =
     pc\<lparr>pc_ioapic := update_lapic lapic_id (write_tsc_deadline_msr value) (pc_ioapic pc)\<rparr>"

definition disarm_kvm_tsc_deadline :: "u8 \<Rightarrow> StandardPc \<Rightarrow> StandardPc" where
  "disarm_kvm_tsc_deadline lapic_id pc =
     pc\<lparr>pc_ioapic := update_lapic lapic_id (set_tsc_deadline 0) (pc_ioapic pc)\<rparr>"

section \<open>PCI interrupts\<close>

definition route_pci_intx :: "u8 \<Rightarrow> u8 \<Rightarrow> bool \<Rightarrow> StandardPc \<Rightarrow> StandardPc" where
  "route_pci_intx slot pin level pc =
     (case lpc_rout pc of
        None \<Rightarrow> pc
      | Some regs \<Rightarrow>
          let router = sync_from_config regs pirq_new;
              pc1 = (case device_isa_irq slot pin router of
                       Some irq \<Rightarrow> pc\<lparr>pc_pic := pic_line irq level (pc_pic pc)\<rparr>
                     | None \<Rightarrow> pc)
          in case device_gsi slot pin of
               Some gsi \<Rightarrow> pc1\<lparr>pc_ioapic := ctl_line gsi level (pc_ioapic pc1)\<rparr>
             | None \<Rightarrow> pc1)"

definition assert_pci_intx :: "u8 \<Rightarrow> u8 \<Rightarrow> bool \<Rightarrow> StandardPc \<Rightarrow> StandardPc" where
  "assert_pci_intx slot pin level pc = route_pci_intx slot pin level pc"

section \<open>Lines into both controllers\<close>

text \<open>The I/O APIC input of an ISA interrupt.\<close>

definition gsi_of :: "u8 \<Rightarrow> u8" where
  "gsi_of isa = (let gsi = isa_to_gsi isa in if gsi < 256 then ucast gsi else isa)"

lemma isa_line_eq: "isa_line isa = ctl_line (gsi_of isa)"
  by (simp add: isa_line_def gsi_of_def Let_def)

text \<open>An edge input of the PIC keeps its latch under activity on any line.\<close>

lemma pic_line_keeps:
  assumes "pic_edge_input i d"
  shows "pic_edge_input i (pic_line j l d)" "pic_latched i d \<Longrightarrow> pic_latched i (pic_line j l d)"
proof -
  have e: "elcr (master (pic_line j l d)) = elcr (master d)" "elcr (slave (pic_line j l d)) = elcr (slave d)"
    by (simp_all add: pic_line_def set_irq_level_def)
  then show "pic_edge_input i (pic_line j l d)" using assms by (auto simp: pic_edge_input_def pic_chip_def split: if_splits)
  have bit: "bit (irr (pic_set_line k l p)) n" if "bit (irr p) n" "\<not> bit (elcr p) n" for k p n
    using that by (auto simp: pic_set_line_def Let_def)
  show "pic_latched i (pic_line j l d)" if "pic_latched i d"
    using assms that by (auto simp: pic_latched_def pic_edge_input_def pic_chip_def pic_line_def set_irq_level_def
        intro!: bit split: if_splits)
qed

lemma grows_timer_tick: "grows l (snd (timer_tick n l))"
proof -
  have acc: "grows l (snd (accept_interrupt e l))" for e by (rule grows_accept)
  have fire: "grows l (fire_lvt_timer l)" for l
    by (simp add: fire_lvt_timer_def grows_accept)
  have upd: "grows l (l'\<lparr>timer_divide_residual := r\<rparr>) = grows l l'"
    "grows l (l'\<lparr>timer_current := x\<rparr>) = grows l l'" for l l' r x
    by (simp_all add: grows_def lapic_wf_def)
  have "grows l (l\<lparr>timer_divide_residual := r\<rparr>)" for r by (simp add: upd)
  then have "grows l (fire_lvt_timer (l\<lparr>timer_divide_residual := r\<rparr>))" for r
    by (rule grows_trans [OF _ fire])
  then show ?thesis by (simp add: timer_tick_def Let_def upd)
qed

lemma tick_lapics_grows: "all_grow (lapics c) (lapics (tick_lapics n c))"
  by (simp add: tick_lapics_def list_all2_map2 list.rel_refl grows_timer_tick)

lemma edge_pin_grow:
  assumes "edge_pin i d v c" "all_grow (lapics c) (lapics c')" "ioapic_wf (ioapic c')"
    and "entries (ioapic c') ! unat i = entries (ioapic c) ! unat i"
  shows "edge_pin i d v c'" "lapic_requests d v c \<Longrightarrow> lapic_requests d v c'"
proof -
  have wf: "list_all lapic_wf (lapics c)" using assms(1) by (simp add: edge_pin_def ctl_wf_def)
  show "edge_pin i d v c'"
    using assms all_grow_wf [OF assms(2) wf] all_grow_requests(2) [OF assms(2) wf]
    by (simp add: edge_pin_def ctl_wf_def pin_routes_def Let_def)
  show "lapic_requests d v c'" if "lapic_requests d v c"
    by (rule all_grow_requests(1) [OF assms(2) wf that])
qed

lemma ctl_line_keeps:
  assumes "edge_pin i d v c"
  shows "edge_pin i d v (ctl_line j l c)" "lapic_requests d v c \<Longrightarrow> lapic_requests d v (ctl_line j l c)"
proof -
  let ?c = "ctl_line j l c"
  have wf: "ioapic_wf (ioapic c)" using assms by (simp add: edge_pin_def ctl_wf_def)
  have "all_grow (lapics c) (lapics (deliver_route r (c\<lparr>ioapic := a\<rparr>)))" for r a
    using deliver_route_grows [of "c\<lparr>ioapic := a\<rparr>" r] by simp
  then have grow: "all_grow (lapics c) (lapics ?c)"
    by (auto simp: ctl_line_def deliver_irq_def clear_irq_def split: prod.splits option.splits)
  have io: "ioapic ?c = (if l then snd (ioapic_set_irq (unat j) (ioapic c)) else ioapic_clear_irq (unat j) (ioapic c))"
    by (auto simp: ctl_line_def deliver_irq_def clear_irq_def split: prod.splits option.splits)
  have "entries (ioapic ?c) ! unat i = entries (ioapic c) ! unat i"
  proof -
    have "\<not> level_triggered (entries (ioapic c) ! unat i)" using assms by (simp add: edge_pin_def)
    then show ?thesis
      by (cases "unat i = unat j") (auto simp: io ioapic_set_irq_def ioapic_clear_irq_def Let_def)
  qed
  moreover have "ioapic_wf (ioapic ?c)" using wf by (simp add: io ioapic_set_irq_wf ioapic_clear_irq_wf)
  ultimately show "edge_pin i d v ?c" "lapic_requests d v c \<Longrightarrow> lapic_requests d v ?c"
    using edge_pin_grow [OF assms grow] by simp_all
qed

lemma tick_lapics_keeps:
  assumes "edge_pin i d v c"
  shows "edge_pin i d v (tick_lapics n c)" "lapic_requests d v c \<Longrightarrow> lapic_requests d v (tick_lapics n c)"
proof -
  have "ioapic (tick_lapics n c) = ioapic c" by (simp add: tick_lapics_def)
  then show "edge_pin i d v (tick_lapics n c)" "lapic_requests d v c \<Longrightarrow> lapic_requests d v (tick_lapics n c)"
    using edge_pin_grow [OF assms tick_lapics_grows, of n] assms by (simp_all add: edge_pin_def ctl_wf_def)
qed

section \<open>An interrupt of the PC/AT wiring\<close>

text \<open>ISA interrupt \<open>irq\<close> as the guest has set it up: an edge input of the PIC, and an unmasked
  edge-triggered I/O APIC pin that sends vector \<open>v\<close> to the enabled LAPIC \<open>d\<close>.\<close>

definition pc_ready :: "u8 \<Rightarrow> u8 \<Rightarrow> u8 \<Rightarrow> StandardPc \<Rightarrow> bool" where
  "pc_ready irq d v pc \<longleftrightarrow> pic_edge_input (unat irq) (pc_pic pc) \<and> edge_pin (gsi_of irq) d v (pc_ioapic pc)"

text \<open>It is requested in both controllers.\<close>

definition pc_requested :: "u8 \<Rightarrow> u8 \<Rightarrow> u8 \<Rightarrow> StandardPc \<Rightarrow> bool" where
  "pc_requested irq d v pc \<longleftrightarrow> pic_latched (unat irq) (pc_pic pc) \<and> lapic_requests d v (pc_ioapic pc)"

text \<open>An operation keeps an interrupt when it neither unconfigures it nor withdraws its request.\<close>

definition keeps_irq :: "u8 \<Rightarrow> u8 \<Rightarrow> u8 \<Rightarrow> (StandardPc \<Rightarrow> StandardPc) \<Rightarrow> bool" where
  "keeps_irq irq d v f \<longleftrightarrow>
     (\<forall>pc. pc_ready irq d v pc \<longrightarrow>
        pc_ready irq d v (f pc) \<and> (pc_requested irq d v pc \<longrightarrow> pc_requested irq d v (f pc)))"

lemma keeps_fold: "(\<And>x. keeps_irq irq d v (f x)) \<Longrightarrow> keeps_irq irq d v (fold f xs)"
  by (induction xs) (simp_all add: keeps_irq_def)

lemma keeps_dual: "keeps_irq irq d v (dual_irq_line j l)"
  by (auto simp: keeps_irq_def dual_irq_line_def pc_ready_def pc_requested_def isa_line_eq
      intro: pic_line_keeps ctl_line_keeps)

lemma keeps_trace: "keeps_irq irq d v (drive_trace (dual_irq_line j) ls)"
proof -
  have "keeps_irq irq d v (fold (dual_irq_line j) ls)" by (rule keeps_fold) (rule keeps_dual)
  then show ?thesis by (simp add: keeps_irq_def drive_trace_def)
qed

lemma keeps_deliver_hpet: "keeps_irq irq d v (deliver_hpet legacy x)"
  by (cases x) (auto simp: keeps_irq_def deliver_hpet_def pc_ready_def pc_requested_def isa_line_eq Let_def
      intro: pic_line_keeps ctl_line_keeps)

interpretation isa_irq: edge_line "pc_ready irq d v" "pc_requested irq d v" "dual_irq_line irq" for irq d v
proof
  fix pc l assume r: "pc_ready irq d v pc"
  then show "pc_ready irq d v (dual_irq_line irq l pc)"
    and "pc_requested irq d v pc \<Longrightarrow> pc_requested irq d v (dual_irq_line irq l pc)"
    using keeps_dual [of irq d v irq l] by (simp_all add: keeps_irq_def)
  show "pc_requested irq d v (dual_irq_line irq True pc)"
    using r pic_input.rise_latches [of "unat irq" "pc_pic pc"] ioapic_pin.rise_latches [of "gsi_of irq" d v "pc_ioapic pc"]
    by (simp add: pc_ready_def pc_requested_def dual_irq_line_def isa_line_eq pic_line_def)
qed

text \<open>The stages of the clock loop, and that each keeps every interrupt.\<close>

definition pit_stage :: "u64 \<Rightarrow> StandardPc \<Rightarrow> StandardPc" where
  "pit_stage ns pc =
     drive_trace (dual_irq_line IRQ_PIT) (snd (fst (pit_tick ns (pc_pit pc))))
       (pc\<lparr>pc_pit := snd (pit_tick ns (pc_pit pc))\<rparr>)"

definition hpet_stage :: "u64 \<Rightarrow> StandardPc \<Rightarrow> StandardPc" where
  "hpet_stage ns pc =
     (let r = hpet_tick (ns div HPET_TICK_NS) (pc_hpet pc)
      in fold (deliver_hpet (legacy_routing (snd r))) (fst r)
           (pc\<lparr>pc_pm_timer := pm_advance (ns_to_ticks ns) (pc_pm_timer pc), pc_hpet := snd r\<rparr>))"

definition lapic_stage :: "u64 \<Rightarrow> StandardPc \<Rightarrow> StandardPc" where
  "lapic_stage ns pc =
     (if lapic_clocks ns > 0 then pc\<lparr>pc_ioapic := tick_lapics (lapic_clocks ns) (pc_ioapic pc)\<rparr> else pc)"

definition rtc_stage :: "u64 \<Rightarrow> StandardPc \<Rightarrow> StandardPc" where
  "rtc_stage ns pc =
     (let r = advance_periodic ns (pc_rtc pc)
      in drive_trace (dual_irq_line RTC_IRQ) (snd (fst r)) (pc\<lparr>pc_rtc := snd r\<rparr>))"

lemma advance_clocks_stages:
  "snd (advance_clocks ns pc) = rtc_stage ns (lapic_stage ns (hpet_stage ns (pit_stage ns pc)))"
  by (simp add: advance_clocks_def pit_stage_def hpet_stage_def lapic_stage_def rtc_stage_def split_beta Let_def)

lemma pc_fields_irrelevant [simp]:
  "pc_ready irq d v (pc\<lparr>pc_pit := p\<rparr>) = pc_ready irq d v pc" "pc_requested irq d v (pc\<lparr>pc_pit := p\<rparr>) = pc_requested irq d v pc"
  "pc_ready irq d v (pc\<lparr>pc_rtc := r\<rparr>) = pc_ready irq d v pc" "pc_requested irq d v (pc\<lparr>pc_rtc := r\<rparr>) = pc_requested irq d v pc"
  "pc_ready irq d v (pc\<lparr>pc_pm_timer := t, pc_hpet := h\<rparr>) = pc_ready irq d v pc"
  "pc_requested irq d v (pc\<lparr>pc_pm_timer := t, pc_hpet := h\<rparr>) = pc_requested irq d v pc"
  by (simp_all add: pc_ready_def pc_requested_def)

lemma keeps_stages:
  "keeps_irq irq d v (pit_stage ns)" "keeps_irq irq d v (hpet_stage ns)"
  "keeps_irq irq d v (lapic_stage ns)" "keeps_irq irq d v (rtc_stage ns)"
proof -
  show "keeps_irq irq d v (pit_stage ns)" "keeps_irq irq d v (rtc_stage ns)"
    using keeps_trace [of irq d v] by (simp_all add: keeps_irq_def pit_stage_def rtc_stage_def Let_def)
  have "keeps_irq irq d v (fold (deliver_hpet b) xs)" for b xs by (rule keeps_fold) (rule keeps_deliver_hpet)
  then show "keeps_irq irq d v (hpet_stage ns)" by (simp add: keeps_irq_def hpet_stage_def Let_def)
  show "keeps_irq irq d v (lapic_stage ns)"
    by (auto simp: keeps_irq_def lapic_stage_def pc_ready_def pc_requested_def intro: tick_lapics_keeps)
qed

lemma keeps_advance_clocks: "keeps_irq irq d v (\<lambda>pc. snd (advance_clocks ns pc))"
  using keeps_stages [of irq d v ns] by (simp add: keeps_irq_def advance_clocks_stages)

text \<open>No stage but the first touches the PIT.\<close>

lemma fold_pit: "(\<And>x pc. pc_pit (f x pc) = pc_pit pc) \<Longrightarrow> pc_pit (fold f xs pc) = pc_pit pc"
  by (induction xs arbitrary: pc) simp_all

lemma advance_clocks_pit: "pc_pit (snd (advance_clocks ns pc)) = snd (pit_tick ns (pc_pit pc))"
proof -
  have "pc_pit (dual_irq_line j l pc) = pc_pit pc" for j l pc by (simp add: dual_irq_line_def)
  then have trace: "pc_pit (drive_trace (dual_irq_line j) ls pc) = pc_pit pc" for j ls pc
    unfolding drive_trace_def by (rule fold_pit)
  have "pc_pit (deliver_hpet b x pc) = pc_pit pc" for b x pc
    by (cases x) (simp add: deliver_hpet_def Let_def)
  then have "pc_pit (fold (deliver_hpet b) xs pc) = pc_pit pc" for b xs pc by (rule fold_pit)
  then show ?thesis
    by (simp add: advance_clocks_stages pit_stage_def hpet_stage_def lapic_stage_def rtc_stage_def trace Let_def)
qed

lemma advance_clocks_requests:
  assumes "pc_ready IRQ_PIT d v pc" "True \<in> set (snd (fst (pit_tick ns (pc_pit pc))))"
  shows "pc_requested IRQ_PIT d v (snd (advance_clocks ns pc))"
proof -
  have "pc_ready IRQ_PIT d v (pit_stage ns pc)"
    using assms(1) keeps_stages(1) [of IRQ_PIT d v ns] by (simp add: keeps_irq_def)
  moreover have "pc_requested IRQ_PIT d v (pit_stage ns pc)"
    unfolding pit_stage_def using assms by (intro isa_irq.trace_latches) simp_all
  moreover have "keeps_irq IRQ_PIT d v (\<lambda>pc. rtc_stage ns (lapic_stage ns (hpet_stage ns pc)))"
    using keeps_stages [of IRQ_PIT d v ns] by (simp add: keeps_irq_def)
  ultimately show ?thesis by (simp add: keeps_irq_def advance_clocks_stages)
qed

section \<open>Correctness\<close>

text \<open>The platform after a sequence of calls of the clock loop.\<close>

definition run_clocks :: "u64 list \<Rightarrow> StandardPc \<Rightarrow> StandardPc" where
  "run_clocks nss pc = fold (\<lambda>ns pc. snd (advance_clocks ns pc)) nss pc"

lemma run_clocks_requests:
  "pc_ready IRQ_PIT d v pc \<Longrightarrow>
   pc_requested IRQ_PIT d v pc \<or>
     True \<in> set (snd (fst (run_batches (False, []) pit_join pit_ns (map unat nss) (pc_pit pc)))) \<Longrightarrow>
   pc_requested IRQ_PIT d v (run_clocks nss pc)"
proof (induction nss arbitrary: pc)
  case (Cons ns nss)
  let ?pc = "snd (advance_clocks ns pc)"
  have ready: "pc_ready IRQ_PIT d v ?pc" and keep: "pc_requested IRQ_PIT d v pc \<Longrightarrow> pc_requested IRQ_PIT d v ?pc"
    using keeps_advance_clocks [of IRQ_PIT d v ns] Cons.prems(1) by (simp_all add: keeps_irq_def)
  have "pc_requested IRQ_PIT d v ?pc \<or>
      True \<in> set (snd (fst (run_batches (False, []) pit_join pit_ns (map unat nss) (pc_pit ?pc))))"
  proof -
    have "pit_ns (unat ns) p = pit_tick ns p" "snd (pit_join a b) = snd a @ snd b" for p a b
      by (simp_all add: pit_ns_def pit_join_def)
    with Cons.prems(2) keep advance_clocks_requests [OF Cons.prems(1), of ns] show ?thesis
      by (auto simp: advance_clocks_pit split_beta)
  qed
  from Cons.IH [OF ready this] show ?case by (simp add: run_clocks_def)
qed (simp add: run_clocks_def)

text \<open>C6 (liveness).  The timer interrupt arrives.  On a platform whose guest has programmed PIT
  channel 0 as a rate generator and set up interrupt 0 in both controllers, once the elapsed time
  reaches the end of the current period, however the clock loop slices it into calls, IRQ0 is
  latched in the PIC and the vector of I/O APIC pin 2 is requested in its LAPIC.\<close>

theorem timer_interrupt_arrives:
  assumes "rate_running (channels (pc_pit pc) ! 0)"
    and "clocks_of (pit_count (channels (pc_pit pc) ! 0)) \<le> clocks_of (reload (channels (pc_pit pc) ! 0))"
    and "length (channels (pc_pit pc)) = 3" "irq0 (pc_pit pc)" "pit_ok (pc_pit pc)"
    and "pic_edge_input 0 (pc_pic pc)" "edge_pin 2 d v (pc_ioapic pc)"
    and "sum_list (map unat nss) \<le> pit_room (pc_pit pc)"
    and "clocks_of (pit_count (channels (pc_pit pc) ! 0)) \<le>
      (unat (accumulator_ns (pc_pit pc)) + sum_list (map unat nss)) div 838"
  shows "pic_latched 0 (pc_pic (run_clocks nss pc)) \<and> lapic_requests d v (pc_ioapic (run_clocks nss pc))"
proof -
  let ?p = "pc_pit pc" and ?ns = "sum_list (map unat nss)"
  let ?ch = "channels ?p ! 0"
  have gsi: "gsi_of IRQ_PIT = 2" by (simp add: gsi_of_def isa_to_gsi_def IRQ_PIT_def)
  have ready: "pc_ready IRQ_PIT d v pc" using assms(6,7) gsi by (simp add: pc_ready_def IRQ_PIT_def)
  have lt: "unat (accumulator_ns ?p) + ?ns < 2 ^ 64"
    using assms(8) unat_bound [of "accumulator_ns ?p"] unfolding pit_room_def by (simp add: le_diff_conv2)
  then have ns: "unat (of_nat ?ns :: u64) = ?ns" by (simp add: unat_of_nat_small)
  have "run_batches (False, []) pit_join pit_ns (map unat nss) ?p = pit_tick (of_nat ?ns) ?p"
    using pit_clock.run_batches_sum [OF assms(5,8)] by (simp add: pit_ns_def)
  moreover have "snd (fst (pit_tick (of_nat ?ns) ?p)) = concat (replicate
      ((clocks_of (reload ?ch) - clocks_of (pit_count ?ch) + (unat (accumulator_ns ?p) + ?ns) div 838)
        div clocks_of (reload ?ch)) [True, False])"
    using rate_generator_trace [OF assms(1-4), of "of_nat ?ns"] lt by (simp only: ns)
  moreover have "0 < (clocks_of (reload ?ch) - clocks_of (pit_count ?ch) + (unat (accumulator_ns ?p) + ?ns) div 838)
      div clocks_of (reload ?ch)"
    using assms(2,9) clocks_of_bounds(1) [of "reload ?ch"] by (simp add: div_greater_zero_iff)
  ultimately have "True \<in> set (snd (fst (run_batches (False, []) pit_join pit_ns (map unat nss) ?p)))"
    by simp
  from run_clocks_requests [OF ready disjI2 [OF this]] show ?thesis
    by (simp add: pc_requested_def IRQ_PIT_def)
qed

text \<open>A platform whose guest runs channel 0 with divisor 100 and sends pin 2 as vector 0x30 to CPU 0.\<close>

definition clock_pc :: StandardPc where
  "clock_pc =
     \<lparr>pc_pit = program_lohi 0x34 100 0 (attach_irq0 pit_new), pc_pm_timer = pm_new, pc_hpet = hpet_new,
      pc_rtc = rtc_new \<lparr>second = 0, minute = 0, hour = 0, weekday = 5, day = 1, month = 1, year = 2026\<rparr>,
      pc_pic = dual_new,
      pc_ioapic = ioapic_page_write IOWIN 0x30 (ioapic_page_write IOREGSEL 0x14
        (lapic_page_write 0 0xF0 0x1FF (ctl_new 1))),
      lpc_rout = None\<rparr>"

theorem timer_interrupt_arrives_witness:
  "edge_pin 2 0 0x30 (pc_ioapic clock_pc) \<and>
   pic_latched 0 (pc_pic (run_clocks [40000, 43800] clock_pc)) \<and>
   lapic_requests 0 0x30 (pc_ioapic (run_clocks [40000, 43800] clock_pc))"
proof -
  have "map_option enabled (lapic_of 0 (pc_ioapic clock_pc)) = Some True" by code_simp
  then have "lapic_listens 0 (pc_ioapic clock_pc)" by (auto simp: lapic_listens_def)
  moreover have "ctl_wf (pc_ioapic clock_pc)" "pin_routes 2 0 0x30 (ioapic (pc_ioapic clock_pc))"
    "\<not> level_triggered (entries (ioapic (pc_ioapic clock_pc)) ! 2)" by code_simp+
  ultimately have pin: "edge_pin 2 0 0x30 (pc_ioapic clock_pc)" by (simp add: edge_pin_def)
  have run: "rate_running (channels (pc_pit clock_pc) ! 0)" by code_simp
  have c: "pit_count (channels (pc_pit clock_pc) ! 0) = 100" "reload (channels (pc_pit clock_pc) ! 0) = 100"
    "accumulator_ns (pc_pit clock_pc) = 0" "length (channels (pc_pit clock_pc)) = 3" "irq0 (pc_pit clock_pc)"
    by code_simp+
  have pic: "pic_edge_input 0 (pc_pic clock_pc)" by code_simp
  show ?thesis
    using pin timer_interrupt_arrives [OF run _ c(4,5) _ pic pin, of "[40000, 43800]"]
    by (simp add: c clocks_of_def pit_ok_def pit_room_def)
qed

end
