(* ===== verification/Memory_Map.thy ===== *)
theory Memory_Map
  imports Prelude "HOL-Library.While_Combinator"
begin

text \<open>
  The physical memory map and the carving of the hypervisor's boot-time regions
  (\<open>enlil-platform/src/memory/map.rs\<close>, \<open>PhysAddr::align_up\<close> of \<open>memory/mod.rs\<close>).  A map is the list of
  its regions in ascending order of their base; addresses and sizes are \<open>u64\<close>, with the wrap-around of
  a release build.  The assertion on the alignment is the only panic: operations that make it return
  \<open>Inl NotPowerOfTwo\<close> there.  The loop of \<open>reserve_span\<close> is a \<open>while_option\<close>, so that its termination is
  a theorem.
\<close>

type_synonym PhysAddr = u64

datatype panic = NotPowerOfTwo

section \<open>Regions\<close>

datatype MemoryKind = Usable | Reserved | AcpiReclaimable | AcpiNvs | Bad | Mmio

definition is_allocatable :: "MemoryKind \<Rightarrow> bool" where
  "is_allocatable k \<longleftrightarrow> k = Usable"

record MemoryRegion =
  rg_base :: PhysAddr
  rg_size :: u64
  rg_kind :: MemoryKind

definition region_new :: "PhysAddr \<Rightarrow> u64 \<Rightarrow> MemoryKind \<Rightarrow> MemoryRegion" where
  "region_new b s k = \<lparr>rg_base = b, rg_size = s, rg_kind = k\<rparr>"

definition region_end :: "MemoryRegion \<Rightarrow> u64" where
  "region_end r = rg_base r + rg_size r"

definition region_is_empty :: "MemoryRegion \<Rightarrow> bool" where
  "region_is_empty r \<longleftrightarrow> rg_size r = 0"

definition region_contains :: "u64 \<Rightarrow> MemoryRegion \<Rightarrow> bool" where
  "region_contains addr r \<longleftrightarrow> addr \<ge> rg_base r \<and> addr < region_end r"

definition region_overlaps :: "MemoryRegion \<Rightarrow> MemoryRegion \<Rightarrow> bool" where
  "region_overlaps r other \<longleftrightarrow> rg_base r < region_end other \<and> rg_base other < region_end r"

section \<open>Firmware maps\<close>

record E820Entry =
  e820_base :: u64
  e820_length :: u64
  e820_kind :: u32

definition E820_USABLE :: u32 where "E820_USABLE = 1"
definition E820_RESERVED :: u32 where "E820_RESERVED = 2"
definition E820_ACPI_RECLAIMABLE :: u32 where "E820_ACPI_RECLAIMABLE = 3"
definition E820_ACPI_NVS :: u32 where "E820_ACPI_NVS = 4"
definition E820_BAD :: u32 where "E820_BAD = 5"

record UefiMemoryDescriptor =
  efi_kind :: u32
  phys_start :: u64
  page_count :: u64

definition UEFI_PAGE_SIZE :: u64 where "UEFI_PAGE_SIZE = 4096"

definition memory_kind :: "UefiMemoryDescriptor \<Rightarrow> MemoryKind" where
  "memory_kind d =
     (if efi_kind d \<in> {1, 2, 3, 4, 7} then Usable
      else if efi_kind d = 8 then Bad
      else if efi_kind d = 9 then AcpiReclaimable
      else if efi_kind d = 10 then AcpiNvs
      else Reserved)"

definition length_bytes :: "UefiMemoryDescriptor \<Rightarrow> u64" where
  "length_bytes d = page_count d * UEFI_PAGE_SIZE"

definition EFI_CONVENTIONAL_MEMORY :: u32 where "EFI_CONVENTIONAL_MEMORY = 7"

text \<open>\<open>max_by_key\<close>: the last element of greatest key.\<close>

fun max_by_key :: "('a \<Rightarrow> 'k::linorder) \<Rightarrow> 'a list \<Rightarrow> 'a option" where
  "max_by_key k [] = None"
| "max_by_key k (x # xs) =
     (case max_by_key k xs of None \<Rightarrow> Some x | Some y \<Rightarrow> Some (if k x \<le> k y then y else x))"

definition select_bootstrap_heap_region :: "UefiMemoryDescriptor list \<Rightarrow> u64 \<Rightarrow> MemoryRegion option" where
  "select_bootstrap_heap_region descriptors min_size =
     max_by_key rg_size
       (filter (\<lambda>r. rg_size r \<ge> min_size)
         (map (\<lambda>d. region_new (phys_start d) (length_bytes d) Usable)
           (filter (\<lambda>d. page_count d \<noteq> 0 \<and> efi_kind d = EFI_CONVENTIONAL_MEMORY) descriptors)))"

section \<open>The map\<close>

record MemoryMap =
  regions :: "MemoryRegion list"

definition mm_new :: MemoryMap where
  "mm_new = \<lparr>regions = []\<rparr>"

definition from_regions :: "MemoryRegion list \<Rightarrow> MemoryMap" where
  "from_regions rs = \<lparr>regions = sort_key rg_base rs\<rparr>"

definition e820_memory_kind :: "u32 \<Rightarrow> MemoryKind" where
  "e820_memory_kind k =
     (if k = E820_USABLE then Usable
      else if k = E820_ACPI_RECLAIMABLE then AcpiReclaimable
      else if k = E820_ACPI_NVS then AcpiNvs
      else if k = E820_BAD then Bad
      else Reserved)"

definition from_e820 :: "E820Entry list \<Rightarrow> MemoryMap" where
  "from_e820 entries =
     from_regions (map (\<lambda>e. region_new (e820_base e) (e820_length e) (e820_memory_kind (e820_kind e)))
       (filter (\<lambda>e. e820_length e \<noteq> 0) entries))"

definition from_uefi :: "UefiMemoryDescriptor list \<Rightarrow> MemoryMap" where
  "from_uefi descriptors =
     from_regions (map (\<lambda>d. region_new (phys_start d) (length_bytes d) (memory_kind d))
       (filter (\<lambda>d. page_count d \<noteq> 0) descriptors))"

definition mm_add :: "MemoryRegion \<Rightarrow> MemoryMap \<Rightarrow> MemoryMap" where
  "mm_add region m =
     (let pos = length (takeWhile (\<lambda>r. rg_base r \<le> rg_base region) (regions m))
      in m\<lparr>regions := take pos (regions m) @ region # drop pos (regions m)\<rparr>)"

definition usable :: "MemoryMap \<Rightarrow> MemoryRegion list" where
  "usable m = filter (\<lambda>r. is_allocatable (rg_kind r)) (regions m)"

definition total_usable :: "MemoryMap \<Rightarrow> u64" where
  "total_usable m = sum_list (map rg_size (usable m))"

definition largest_usable :: "MemoryMap \<Rightarrow> MemoryRegion option" where
  "largest_usable m = max_by_key rg_size (usable m)"

definition is_consistent :: "MemoryMap \<Rightarrow> bool" where
  "is_consistent m \<longleftrightarrow>
     list_all (\<lambda>(r, s). region_end r \<le> rg_base s) (zip (regions m) (tl (regions m)))"

definition coalesce_step :: "MemoryRegion \<Rightarrow> MemoryRegion list \<Rightarrow> MemoryRegion list" where
  "coalesce_step region merged =
     (if merged \<noteq> [] \<and> rg_kind (last merged) = rg_kind region \<and> region_end (last merged) = rg_base region
      then butlast merged @ [(last merged)\<lparr>rg_size := rg_size (last merged) + rg_size region\<rparr>]
      else merged @ [region])"

definition coalesce :: "MemoryMap \<Rightarrow> MemoryMap" where
  "coalesce m = m\<lparr>regions := fold coalesce_step (regions m) []\<rparr>"

section \<open>Carving\<close>

definition is_power_of_two :: "u64 \<Rightarrow> bool" where
  "is_power_of_two a \<longleftrightarrow> list_ex (\<lambda>n. a = bitmask n) [0..<64]"

definition align_up :: "u64 \<Rightarrow> PhysAddr \<Rightarrow> panic + PhysAddr" where
  "align_up align a =
     (if is_power_of_two align then Inr ((a + align - 1) AND NOT (align - 1)) else Inl NotPowerOfTwo)"

definition split_reserve :: "nat \<Rightarrow> u64 \<Rightarrow> u64 \<Rightarrow> MemoryMap \<Rightarrow> MemoryMap" where
  "split_reserve idx start sz m =
     (let region = regions m ! idx;
          fin = start + sz;
          replacement =
            (if start > rg_base region then [region_new (rg_base region) (start - rg_base region) (rg_kind region)] else [])
            @ [region_new start sz Reserved]
            @ (if fin < region_end region then [region_new fin (region_end region - fin) (rg_kind region)] else [])
      in m\<lparr>regions := take idx (regions m) @ replacement @ drop (Suc idx) (regions m)\<rparr>)"

text \<open>The scan of \<open>carve_below\<close>: the index of the first region that can satisfy the request and the
  aligned start in it.\<close>

fun carve_scan :: "u64 \<Rightarrow> u64 \<Rightarrow> u64 \<Rightarrow> nat \<Rightarrow> MemoryRegion list \<Rightarrow> panic + (nat \<times> u64) option" where
  "carve_scan sz align limit i [] = Inr None"
| "carve_scan sz align limit i (region # rs) =
     (if \<not> is_allocatable (rg_kind region) then carve_scan sz align limit (Suc i) rs
      else case align_up align (rg_base region) of
        Inl p \<Rightarrow> Inl p
      | Inr start \<Rightarrow>
          (case checked_add start sz of
             None \<Rightarrow> carve_scan sz align limit (Suc i) rs
           | Some fin \<Rightarrow>
               if fin \<le> region_end region \<and> fin \<le> limit then Inr (Some (i, start))
               else carve_scan sz align limit (Suc i) rs))"

definition carve_below :: "u64 \<Rightarrow> u64 \<Rightarrow> u64 \<Rightarrow> MemoryMap \<Rightarrow> panic + PhysAddr option \<times> MemoryMap" where
  "carve_below sz align limit m =
     (if \<not> is_power_of_two align then Inl NotPowerOfTwo
      else if sz = 0 then Inr (None, m)
      else case carve_scan sz align limit 0 (regions m) of
        Inl p \<Rightarrow> Inl p
      | Inr None \<Rightarrow> Inr (None, m)
      | Inr (Some (i, start)) \<Rightarrow> Inr (Some start, split_reserve i start sz m))"

definition carve :: "u64 \<Rightarrow> u64 \<Rightarrow> MemoryMap \<Rightarrow> panic + PhysAddr option \<times> MemoryMap" where
  "carve sz align m = carve_below sz align (- 1) m"

section \<open>Reserving a known span\<close>

fun first_overlap :: "u64 \<Rightarrow> u64 \<Rightarrow> nat \<Rightarrow> MemoryRegion list \<Rightarrow> (nat \<times> u64 \<times> u64) option" where
  "first_overlap b e i [] = None"
| "first_overlap b e i (region # rs) =
     (if \<not> is_allocatable (rg_kind region) then first_overlap b e (Suc i) rs
      else let start = max (rg_base region) b; stop = min (region_end region) e
           in if start < stop then Some (i, start, stop - start) else first_overlap b e (Suc i) rs)"

definition first_usable_overlap :: "u64 \<Rightarrow> u64 \<Rightarrow> MemoryMap \<Rightarrow> (nat \<times> u64 \<times> u64) option" where
  "first_usable_overlap b e m = first_overlap b e 0 (regions m)"

definition reserve_loop :: "u64 \<Rightarrow> u64 \<Rightarrow> bool \<times> MemoryMap \<Rightarrow> (bool \<times> MemoryMap) option" where
  "reserve_loop b e =
     while_option (\<lambda>(any, m). first_usable_overlap b e m \<noteq> None)
       (\<lambda>(any, m). case first_usable_overlap b e m of
          Some (idx, start, len) \<Rightarrow> (True, split_reserve idx start len m)
        | None \<Rightarrow> (any, m))"

definition reserve_span :: "u64 \<Rightarrow> u64 \<Rightarrow> MemoryMap \<Rightarrow> (bool \<times> MemoryMap) option" where
  "reserve_span b s m =
     (if s = 0 then Some (False, m)
      else case checked_add b s of
        None \<Rightarrow> Some (False, m)
      | Some e \<Rightarrow> reserve_loop b e (False, m))"

section \<open>The boot-time plan\<close>

fun span_covered :: "u64 \<Rightarrow> u64 \<Rightarrow> MemoryRegion list \<Rightarrow> bool" where
  "span_covered cursor e [] = False"
| "span_covered cursor e (region # rs) =
     (if rg_kind region \<noteq> Reserved then span_covered cursor e rs
      else if region_end region \<le> cursor then span_covered cursor e rs
      else if rg_base region > cursor then False
      else if region_end region \<ge> e then True
      else span_covered (region_end region) e rs)"

definition span_is_reserved :: "u64 \<Rightarrow> u64 \<Rightarrow> MemoryMap \<Rightarrow> bool" where
  "span_is_reserved b s m =
     (case checked_add b s of
        None \<Rightarrow> False
      | Some e \<Rightarrow> if s = 0 then False else span_covered b e (regions m))"

record MemoryPlanRequest =
  heap_size :: u64
  dma_size :: u64
  guest_ram_sizes :: "u64 list"
  plan_align :: u64
  preclaimed_heap :: "(u64 \<times> u64) option"

record HypervisorRegions =
  dma :: MemoryRegion
  heap :: MemoryRegion
  guest_ram :: "MemoryRegion list"

fun carve_guests :: "u64 \<Rightarrow> u64 list \<Rightarrow> MemoryMap \<Rightarrow> panic + MemoryRegion list option \<times> MemoryMap" where
  "carve_guests align [] m = Inr (Some [], m)"
| "carve_guests align (sz # szs) m =
     (case carve sz align m of
        Inl p \<Rightarrow> Inl p
      | Inr (None, m1) \<Rightarrow> Inr (None, m1)
      | Inr (Some b, m1) \<Rightarrow>
          (case carve_guests align szs m1 of
             Inl p \<Rightarrow> Inl p
           | Inr (None, m2) \<Rightarrow> Inr (None, m2)
           | Inr (Some gs, m2) \<Rightarrow> Inr (Some (region_new b sz Reserved # gs), m2)))"

definition plan_heap :: "MemoryPlanRequest \<Rightarrow> MemoryMap \<Rightarrow> panic + MemoryRegion option \<times> MemoryMap" where
  "plan_heap req trial =
     (case preclaimed_heap req of
        Some (b, s) \<Rightarrow>
          if s < heap_size req \<or> \<not> span_is_reserved b s trial then Inr (None, trial)
          else Inr (Some (region_new b s Reserved), trial)
      | None \<Rightarrow>
          (case carve (heap_size req) (plan_align req) trial of
             Inl p \<Rightarrow> Inl p
           | Inr (r, trial') \<Rightarrow> Inr (map_option (\<lambda>b. region_new b (heap_size req) Reserved) r, trial')))"

definition plan_hypervisor_regions :: "MemoryPlanRequest \<Rightarrow> MemoryMap \<Rightarrow> panic + HypervisorRegions option \<times> MemoryMap" where
  "plan_hypervisor_regions req m =
     (case carve_below (dma_size req) (plan_align req) (bitmask 32) m of
        Inl p \<Rightarrow> Inl p
      | Inr (None, _) \<Rightarrow> Inr (None, m)
      | Inr (Some dma_base, trial1) \<Rightarrow>
     (case plan_heap req trial1 of
        Inl p \<Rightarrow> Inl p
      | Inr (None, _) \<Rightarrow> Inr (None, m)
      | Inr (Some h, trial2) \<Rightarrow>
     (case carve_guests (plan_align req) (guest_ram_sizes req) trial2 of
        Inl p \<Rightarrow> Inl p
      | Inr (None, _) \<Rightarrow> Inr (None, m)
      | Inr (Some gs, trial3) \<Rightarrow>
          Inr (Some \<lparr>dma = region_new dma_base (dma_size req) Reserved, heap = h, guest_ram = gs\<rparr>, trial3))))"

section \<open>Well-formed maps\<close>

text \<open>No region wraps or reaches the upper half of the address space (physical addresses have at most 52
  bits), and each ends before the next begins.\<close>

definition region_ok :: "MemoryRegion \<Rightarrow> bool" where
  "region_ok r \<longleftrightarrow> rg_base r \<le> region_end r \<and> region_end r \<le> bitmask 63"

definition mm_wf :: "MemoryMap \<Rightarrow> bool" where
  "mm_wf m \<longleftrightarrow> list_all region_ok (regions m) \<and> is_consistent m"

definition before :: "MemoryRegion \<Rightarrow> MemoryRegion \<Rightarrow> bool" where
  "before r s \<longleftrightarrow> region_end r \<le> rg_base s"

lemma region_new_simps [simp]:
  "rg_base (region_new b s k) = b" "rg_size (region_new b s k) = s" "rg_kind (region_new b s k) = k"
  "region_end (region_new b s k) = b + s"
  by (simp_all add: region_new_def region_end_def)

lemma consistent_sorted:
  "list_all region_ok rs \<Longrightarrow>
   list_all (\<lambda>(r, s). before r s) (zip rs (tl rs)) \<longleftrightarrow> sorted_wrt before rs"
proof (induction rs)
  case (Cons r rs)
  show ?case
  proof (cases rs)
    case Nil
    then show ?thesis by simp
  next
    case (Cons s ss)
    have "before r t" if "before r s" "before s t" for t
      using that Cons Cons.prems by (auto simp: before_def region_ok_def)
    then have "(before r s \<and> sorted_wrt before rs) \<longleftrightarrow> sorted_wrt before (r # rs)"
      using Cons by auto
    then show ?thesis using Cons Cons.prems Cons.IH by simp
  qed
qed simp

lemma mm_wf_iff: "mm_wf m \<longleftrightarrow> list_all region_ok (regions m) \<and> sorted_wrt before (regions m)"
  using consistent_sorted [of "regions m"] by (auto simp: mm_wf_def is_consistent_def simp flip: before_def)

section \<open>The kind of an address\<close>

text \<open>The abstract view of a map: what it says about each physical address.\<close>

definition kind_in :: "MemoryRegion list \<Rightarrow> u64 \<Rightarrow> MemoryKind option" where
  "kind_in rs a = map_option rg_kind (List.find (region_contains a) rs)"

definition kind_at :: "MemoryMap \<Rightarrow> u64 \<Rightarrow> MemoryKind option" where
  "kind_at m a = kind_in (regions m) a"

lemma kind_in_simps [simp]:
  "kind_in [] a = None"
  "kind_in (r # rs) a = (if region_contains a r then Some (rg_kind r) else kind_in rs a)"
  by (simp_all add: kind_in_def)

lemma kind_in_append:
  "kind_in (xs @ ys) a = (case kind_in xs a of None \<Rightarrow> kind_in ys a | Some k \<Rightarrow> Some k)"
  by (induction xs) simp_all

lemma kind_in_None: "kind_in rs a = None \<longleftrightarrow> (\<forall>r \<in> set rs. \<not> region_contains a r)"
  by (induction rs) auto

lemma before_contains: "before r s \<Longrightarrow> region_contains a r \<Longrightarrow> \<not> region_contains a s"
  by (auto simp: before_def region_contains_def)

text \<open>In a well-formed map an address lies in at most one region.\<close>

lemma kind_in_mem:
  "sorted_wrt before rs \<Longrightarrow> r \<in> set rs \<Longrightarrow> region_contains a r \<Longrightarrow> kind_in rs a = Some (rg_kind r)"
  by (induction rs) (auto dest: before_contains)

lemma kind_in_SomeD: "kind_in rs a = Some k \<Longrightarrow> \<exists>r \<in> set rs. region_contains a r \<and> rg_kind r = k"
  by (induction rs) (auto split: if_splits)

section \<open>Splitting a region\<close>

definition pieces :: "u64 \<Rightarrow> u64 \<Rightarrow> MemoryRegion \<Rightarrow> MemoryRegion list" where
  "pieces start sz region =
     (if start > rg_base region then [region_new (rg_base region) (start - rg_base region) (rg_kind region)] else [])
     @ [region_new start sz Reserved]
     @ (if start + sz < region_end region
        then [region_new (start + sz) (region_end region - (start + sz)) (rg_kind region)] else [])"

lemma split_reserve_pieces:
  "regions (split_reserve idx start sz m) =
     take idx (regions m) @ pieces start sz (regions m ! idx) @ drop (Suc idx) (regions m)"
  by (simp add: split_reserve_def pieces_def Let_def)

text \<open>The span lies inside the region.\<close>

definition span_in :: "u64 \<Rightarrow> u64 \<Rightarrow> MemoryRegion \<Rightarrow> bool" where
  "span_in start sz r \<longleftrightarrow> rg_base r \<le> start \<and> start \<le> start + sz \<and> start + sz \<le> region_end r"

lemma kind_in_pieces:
  assumes "span_in start sz r"
  shows "kind_in (pieces start sz r) a =
    (if start \<le> a \<and> a < start + sz then Some Reserved
     else if region_contains a r then Some (rg_kind r) else None)"
  using assms by (auto simp: pieces_def span_in_def region_contains_def)

lemma pieces_ok:
  assumes "span_in start sz r" "region_ok r"
  shows "list_all region_ok (pieces start sz r)" "sorted_wrt before (pieces start sz r)"
    "\<And>p. p \<in> set (pieces start sz r) \<Longrightarrow> rg_base r \<le> rg_base p \<and> region_end p \<le> region_end r"
  using assms by (auto simp: pieces_def span_in_def region_ok_def before_def)

text \<open>The effect of a split on the addresses, and that it keeps the map well formed.\<close>

lemma split_reserve_spec:
  assumes wf: "mm_wf m" and idx: "idx < length (regions m)" and sp: "span_in start sz (regions m ! idx)"
  shows "mm_wf (split_reserve idx start sz m)"
    and "kind_at (split_reserve idx start sz m) a =
      (if start \<le> a \<and> a < start + sz then Some Reserved else kind_at m a)"
proof -
  let ?r = "regions m ! idx" and ?xs = "take idx (regions m)" and ?ys = "drop (Suc idx) (regions m)"
  have rs: "regions m = ?xs @ ?r # ?ys" using idx by (rule id_take_nth_drop)
  obtain ok: "list_all region_ok (?xs @ ?r # ?ys)" and srt: "sorted_wrt before (?xs @ ?r # ?ys)"
    using wf rs by (simp add: mm_wf_iff)
  have pc: "list_all region_ok (pieces start sz ?r)" "sorted_wrt before (pieces start sz ?r)"
    "\<And>p. p \<in> set (pieces start sz ?r) \<Longrightarrow> rg_base ?r \<le> rg_base p \<and> region_end p \<le> region_end ?r"
    using pieces_ok [OF sp] ok by simp_all
  have "before x p" if "x \<in> set ?xs" "p \<in> set (pieces start sz ?r)" for x p
    using srt that(1) pc(3) [OF that(2)] by (fastforce simp: sorted_wrt_append before_def)
  moreover have "before p y" if "y \<in> set ?ys" "p \<in> set (pieces start sz ?r)" for y p
    using srt that(1) pc(3) [OF that(2)] by (fastforce simp: sorted_wrt_append before_def)
  ultimately show "mm_wf (split_reserve idx start sz m)"
    using ok srt pc by (auto simp: mm_wf_iff split_reserve_pieces sorted_wrt_append)
  have "kind_in ?xs a = None" if "region_contains a ?r"
    using srt that by (auto simp: kind_in_None sorted_wrt_append dest: before_contains)
  then show "kind_at (split_reserve idx start sz m) a =
      (if start \<le> a \<and> a < start + sz then Some Reserved else kind_at m a)"
    using sp by (subst (2) kind_at_def, subst rs)
      (auto simp: kind_at_def split_reserve_pieces kind_in_append kind_in_pieces [OF sp] span_in_def
        region_contains_def split: option.splits)
qed

section \<open>Reserving a span\<close>

lemma first_overlap_Some:
  "first_overlap b e i rs = Some (j, start, len) \<Longrightarrow>
   \<exists>k < length rs. j = i + k \<and> rg_kind (rs ! k) = Usable \<and> start = max (rg_base (rs ! k)) b \<and>
     start + len = min (region_end (rs ! k)) e \<and> start < start + len"
proof (induction rs arbitrary: i)
  case (Cons r rs)
  show ?case
  proof (cases "rg_kind r = Usable \<and> max (rg_base r) b < min (region_end r) e")
    case True
    with Cons.prems show ?thesis by (intro exI [of _ 0]) (auto simp: is_allocatable_def Let_def)
  next
    case False
    with Cons.prems have "first_overlap b e (Suc i) rs = Some (j, start, len)"
      by (auto simp: is_allocatable_def Let_def split: if_splits)
    from Cons.IH [OF this] show ?thesis by auto
  qed
qed simp

lemma first_overlap_None:
  "first_overlap b e i rs = None \<Longrightarrow> r \<in> set rs \<Longrightarrow> rg_kind r = Usable \<Longrightarrow>
   b \<le> a \<Longrightarrow> a < e \<Longrightarrow> \<not> region_contains a r"
  by (induction rs arbitrary: i)
     (auto simp: is_allocatable_def region_contains_def Let_def split: if_splits)

lemma first_usable_overlap_Some:
  assumes "first_usable_overlap b e m = Some (idx, start, len)"
  shows "idx < length (regions m)" "rg_kind (regions m ! idx) = Usable" "rg_base (regions m ! idx) \<le> start"
    "b \<le> start" "start < start + len" "start + len \<le> region_end (regions m ! idx)" "start + len \<le> e"
proof -
  obtain k where "k < length (regions m)" "idx = 0 + k" "rg_kind (regions m ! k) = Usable"
    "start = max (rg_base (regions m ! k)) b" "start + len = min (region_end (regions m ! k)) e" "start < start + len"
    using first_overlap_Some [OF assms [unfolded first_usable_overlap_def]] by blast
  then show "idx < length (regions m)" "rg_kind (regions m ! idx) = Usable" "rg_base (regions m ! idx) \<le> start"
    "b \<le> start" "start < start + len" "start + len \<le> region_end (regions m ! idx)" "start + len \<le> e"
    by simp_all
qed

text \<open>The usable bytes of a map; every pass of the loop takes some away, whatever the map.\<close>

definition usable_bytes :: "MemoryRegion list \<Rightarrow> nat" where
  "usable_bytes rs = sum_list (map (\<lambda>r. if rg_kind r = Usable then unat (rg_size r) else 0) rs)"

lemma usable_bytes_simps [simp]:
  "usable_bytes (xs @ ys) = usable_bytes xs + usable_bytes ys"
  "usable_bytes (r # rs) = (if rg_kind r = Usable then unat (rg_size r) else 0) + usable_bytes rs"
  "usable_bytes [] = 0"
  by (simp_all add: usable_bytes_def)

lemma pieces_fewer:
  assumes "rg_base r \<le> start" "start < start + sz" "start + sz \<le> region_end r" "rg_kind r = Usable"
  shows "usable_bytes (pieces start sz r) < unat (rg_size r)"
proof -
  have s: "rg_size r = region_end r - rg_base r" by (simp add: region_end_def)
  have "usable_bytes (pieces start sz r) \<le> unat (start - rg_base r) + unat (region_end r - (start + sz))"
    using assms(4) by (simp add: pieces_def)
  also have "\<dots> < unat (rg_size r)"
    using assms(1-3) unfolding s by (simp add: unat_diff word_le_nat_alt word_less_nat_alt)
  finally show ?thesis .
qed

lemma reserve_step_fewer:
  assumes "first_usable_overlap b e m = Some (idx, start, len)"
  shows "usable_bytes (regions (split_reserve idx start len m)) < usable_bytes (regions m)"
proof -
  note ov = first_usable_overlap_Some [OF assms]
  let ?xs = "take idx (regions m)" and ?r = "regions m ! idx" and ?ys = "drop (Suc idx) (regions m)"
  have "usable_bytes (regions m) = usable_bytes ?xs + (unat (rg_size ?r) + usable_bytes ?ys)"
    using ov(2) by (subst id_take_nth_drop [OF ov(1)]) simp
  moreover have "usable_bytes (pieces start len ?r) < unat (rg_size ?r)"
    by (rule pieces_fewer [OF ov(3,5,6,2)])
  ultimately show ?thesis by (simp add: split_reserve_pieces)
qed

lemma reserve_loop_terminates: "\<exists>r. reserve_loop b e s = Some r"
  unfolding reserve_loop_def
  by (rule measure_while_option_Some [where P = "\<lambda>_. True" and f = "\<lambda>(any, m). usable_bytes (regions m)"])
     (auto dest: reserve_step_fewer)

text \<open>What the loop has done to the map \<open>m\<close> so far.\<close>

definition reserving :: "u64 \<Rightarrow> u64 \<Rightarrow> MemoryMap \<Rightarrow> bool \<times> MemoryMap \<Rightarrow> bool" where
  "reserving b e m s \<longleftrightarrow> mm_wf (snd s) \<and>
     (\<forall>a. kind_at (snd s) a = kind_at m a \<or>
          b \<le> a \<and> a < e \<and> kind_at m a = Some Usable \<and> kind_at (snd s) a = Some Reserved) \<and>
     (fst s \<longleftrightarrow> (\<exists>a. kind_at (snd s) a \<noteq> kind_at m a))"

lemma reserving_step:
  assumes inv: "reserving b e m (any, m')" and ov: "first_usable_overlap b e m' = Some (idx, start, len)"
  shows "reserving b e m (True, split_reserve idx start len m')"
proof -
  let ?r = "regions m' ! idx" and ?m = "split_reserve idx start len m'"
  note st = first_usable_overlap_Some [OF ov]
  have wf: "mm_wf m'" using inv by (simp add: reserving_def)
  have sp: "span_in start len ?r" using st by (simp add: span_in_def)
  note spec = split_reserve_spec [OF wf st(1) sp]
  have us: "kind_at m' a = Some Usable" if "start \<le> a" "a < start + len" for a
  proof -
    have "region_contains a ?r" using that st by (auto simp: region_contains_def)
    then show ?thesis using kind_in_mem [of "regions m'" ?r a] wf st(1,2) by (simp add: kind_at_def mm_wf_iff)
  qed
  have old: "kind_at m a = Some Usable" if "kind_at m' a = Some Usable" for a
    using inv that by (metis MemoryKind.distinct(1) option.inject reserving_def snd_conv)
  have "kind_at ?m a = kind_at m a \<or> b \<le> a \<and> a < e \<and> kind_at m a = Some Usable \<and> kind_at ?m a = Some Reserved" for a
  proof (cases "start \<le> a \<and> a < start + len")
    case True
    then have "b \<le> a" "a < e" using st by auto
    with True spec(2) old [OF us] show ?thesis by simp
  next
    case False
    then show ?thesis using inv spec(2) by (auto simp: reserving_def)
  qed
  moreover have "kind_at ?m start \<noteq> kind_at m start"
    using old [OF us, of start] st(5) spec(2) [of start] by simp
  ultimately show ?thesis using spec(1) by (auto simp: reserving_def)
qed

lemma reserve_loop_spec:
  assumes "mm_wf m" "reserve_loop b e (False, m) = Some (any, m')"
  shows "mm_wf m'"
    and "kind_at m' a = (if b \<le> a \<and> a < e \<and> kind_at m a = Some Usable then Some Reserved else kind_at m a)"
    and "any \<longleftrightarrow> (\<exists>a. b \<le> a \<and> a < e \<and> kind_at m a = Some Usable)"
proof -
  have inv: "reserving b e m (any, m')"
    using assms(2) unfolding reserve_loop_def
    by (rule while_option_rule [rotated]) (use assms(1) reserving_step in \<open>auto simp: reserving_def [of b e m "(False, m)"]\<close>)
  have "first_usable_overlap b e m' = None"
    using while_option_stop [OF assms(2) [unfolded reserve_loop_def]]
    by (cases "first_usable_overlap b e m'") auto
  then have none: "kind_at m' a \<noteq> Some Usable" if "b \<le> a" "a < e" for a
    using that first_overlap_None [of b e 0 "regions m'"]
    by (auto simp: first_usable_overlap_def kind_at_def dest!: kind_in_SomeD)
  show "mm_wf m'" using inv by (simp add: reserving_def)
  show k: "kind_at m' a = (if b \<le> a \<and> a < e \<and> kind_at m a = Some Usable then Some Reserved else kind_at m a)" for a
  proof -
    have "kind_at m' a = kind_at m a \<or> b \<le> a \<and> a < e \<and> kind_at m a = Some Usable \<and> kind_at m' a = Some Reserved"
      using inv by (simp add: reserving_def)
    with none [of a] show ?thesis by auto
  qed
  show "any \<longleftrightarrow> (\<exists>a. b \<le> a \<and> a < e \<and> kind_at m a = Some Usable)"
    using inv k by (auto simp: reserving_def)
qed

section \<open>Alignment\<close>

lemma div_ceil:
  assumes "0 < (A :: nat)"
  shows "a \<le> (a + A - 1) div A * A" "A dvd p \<Longrightarrow> a \<le> p \<Longrightarrow> (a + A - 1) div A * A \<le> p"
proof -
  have "a + A - 1 = (a + A - 1) div A * A + (a + A - 1) mod A" by simp
  moreover have "(a + A - 1) mod A < A" using assms by simp
  ultimately show "a \<le> (a + A - 1) div A * A" using assms by linarith
  assume p: "A dvd p" "a \<le> p"
  then obtain k where k: "p = A * k" by auto
  have "(a + A - 1) div A < Suc k"
    using p(2) assms by (simp add: div_less_iff_less_mult k algebra_simps)
  then show "(a + A - 1) div A * A \<le> p" by (simp add: k)
qed

lemma align_up_spec:
  assumes "is_power_of_two align" "a \<le> bitmask 63"
  shows "\<exists>s. align_up align a = Inr s \<and> a \<le> s \<and> unat align dvd unat s \<and>
    (\<forall>p. a \<le> p \<and> unat align dvd unat p \<longrightarrow> s \<le> p)"
proof -
  obtain n where n: "n < 64" "align = bitmask n" using assms(1) by (auto simp: is_power_of_two_def list_ex_iff)
  have "(2 :: nat) ^ n < 2 ^ 64" using n(1) by (intro power_strict_increasing) auto
  then have A: "unat align = 2 ^ n"
    using unat_push_bit_no_wrap [of "1 :: u64" n] by (simp add: n(2) bitmask_def)
  have A63: "(2 :: nat) ^ n \<le> 2 ^ 63" using n(1) by (intro power_increasing) auto
  have a63: "unat a \<le> 2 ^ 63" using assms(2) by (simp add: word_le_nat_alt bitmask_def)
  let ?s = "(a + align - 1) AND NOT (align - 1)"
  have s: "unat ?s = (unat a + 2 ^ n - 1) div 2 ^ n * 2 ^ n"
    using unat_align_up [of n a] n(1) a63 A63 by (simp add: n(2))
  then have "a \<le> ?s" "unat align dvd unat ?s" "\<forall>p. a \<le> p \<and> unat align dvd unat p \<longrightarrow> ?s \<le> p"
    using div_ceil(1) [of "2 ^ n" "unat a"] div_ceil(2) [of "2 ^ n" _ "unat a"] by (simp_all add: word_le_nat_alt A)
  then show ?thesis using assms(1) by (simp add: align_up_def)
qed

section \<open>Carving a span\<close>

text \<open>A request fits at \<open>p\<close> in a region.\<close>

definition fits :: "u64 \<Rightarrow> u64 \<Rightarrow> u64 \<Rightarrow> u64 \<Rightarrow> MemoryRegion \<Rightarrow> bool" where
  "fits sz align limit p r \<longleftrightarrow>
     rg_kind r = Usable \<and> unat align dvd unat p \<and> span_in p sz r \<and> p + sz \<le> limit"

lemma checked_add_Some_iff: "checked_add a b = Some c \<longleftrightarrow> c = a + b \<and> a \<le> a + b"
  by (auto simp: checked_add_code)

lemma fits_shift:
  assumes "fits sz align limit p r" "s \<le> p" "rg_base r \<le> s"
  shows "s \<le> s + sz" "s + sz \<le> region_end r" "s + sz \<le> limit"
proof -
  have "unat p + unat sz < 2 ^ 64"
    using assms(1) no_olen_add_nat [of p sz] by (simp add: fits_def span_in_def)
  moreover have "unat s \<le> unat p" using assms(2) by (simp add: word_le_nat_alt)
  ultimately have "s \<le> s + sz" "s + sz \<le> p + sz"
    by (simp_all add: word_le_nat_alt unat_add_no_wrap)
  then show "s \<le> s + sz" "s + sz \<le> region_end r" "s + sz \<le> limit"
    using assms(1) by (auto simp: fits_def span_in_def)
qed

lemma carve_scan_spec:
  assumes al: "is_power_of_two align"
  shows "list_all region_ok rs \<Longrightarrow>
   (\<exists>k p. carve_scan sz align limit i rs = Inr (Some (i + k, p)) \<and> k < length rs \<and> fits sz align limit p (rs ! k)) \<or>
   carve_scan sz align limit i rs = Inr None \<and> (\<forall>r \<in> set rs. \<forall>p. \<not> fits sz align limit p r)"
proof (induction rs arbitrary: i)
  case (Cons r rs)
  then have r: "rg_base r \<le> bitmask 63" by (auto simp: region_ok_def)
  obtain s where s: "align_up align (rg_base r) = Inr s" "rg_base r \<le> s" "unat align dvd unat s"
    "\<And>p. rg_base r \<le> p \<Longrightarrow> unat align dvd unat p \<Longrightarrow> s \<le> p"
    using align_up_spec [OF al r] by blast
  show ?case
  proof (cases "fits sz align limit s r")
    case True
    then have "carve_scan sz align limit i (r # rs) = Inr (Some (i + 0, s))"
      using s(1) by (simp add: fits_def is_allocatable_def span_in_def checked_add_code)
    with True show ?thesis by (intro disjI1 exI [of _ 0] exI [of _ s]) simp
  next
    case False
    have no: "\<not> fits sz align limit p r" for p
      using False fits_shift [of sz align limit p r s] s(2-4) by (auto simp: fits_def span_in_def)
    have "carve_scan sz align limit i (r # rs) = carve_scan sz align limit (Suc i) rs"
      using False s by (auto simp: fits_def is_allocatable_def span_in_def checked_add_code)
    with Cons.IH [of "Suc i"] Cons.prems no show ?thesis by fastforce
  qed
qed simp

text \<open>\<open>carved p sz m m'\<close>: the span is taken from the usable memory of \<open>m\<close>, giving \<open>m'\<close>.\<close>

definition carved :: "u64 \<Rightarrow> u64 \<Rightarrow> MemoryMap \<Rightarrow> MemoryMap \<Rightarrow> bool" where
  "carved p sz m m' \<longleftrightarrow> p < p + sz \<and>
     (\<forall>a. p \<le> a \<and> a < p + sz \<longrightarrow> kind_at m a = Some Usable) \<and>
     (\<forall>a. kind_at m' a = (if p \<le> a \<and> a < p + sz then Some Reserved else kind_at m a))"

lemma carve_below_cases:
  assumes wf: "mm_wf m" and al: "is_power_of_two align" and sz: "sz \<noteq> 0"
  obtains (Fits) p m' where "carve_below sz align limit m = Inr (Some p, m')" "unat align dvd unat p"
      "p + sz \<le> limit" "carved p sz m m'" "mm_wf m'"
    | (Full) "carve_below sz align limit m = Inr (None, m)" "\<forall>r \<in> set (regions m). \<forall>p. \<not> fits sz align limit p r"
proof -
  consider k p where "carve_scan sz align limit 0 (regions m) = Inr (Some (0 + k, p))" "k < length (regions m)"
      "fits sz align limit p (regions m ! k)"
    | "carve_scan sz align limit 0 (regions m) = Inr None" "\<forall>r \<in> set (regions m). \<forall>p. \<not> fits sz align limit p r"
    using carve_scan_spec [OF al, of "regions m" sz limit 0] wf by (auto simp: mm_wf_def)
  then show thesis
  proof cases
    case 1
    then have sp: "span_in p sz (regions m ! k)" by (simp add: fits_def)
    note spec = split_reserve_spec [OF wf 1(2) sp]
    have lt: "p < p + sz" using sp sz by (simp add: span_in_def order_less_le)
    have "kind_at m a = Some Usable" if "p \<le> a" "a < p + sz" for a
    proof -
      have "region_contains a (regions m ! k)" using that sp by (auto simp: span_in_def region_contains_def)
      then show ?thesis
        using kind_in_mem [of "regions m" "regions m ! k" a] wf 1(2,3) by (simp add: kind_at_def mm_wf_iff fits_def)
    qed
    with lt spec have "carved p sz m (split_reserve k p sz m)" by (simp add: carved_def)
    then show thesis using Fits 1 spec(1) al sz by (simp add: carve_below_def fits_def)
  next
    case 2
    then show thesis using Full al sz by (simp add: carve_below_def)
  qed
qed

section \<open>Covered spans\<close>

lemma span_covered_iff:
  "list_all region_ok rs \<Longrightarrow> sorted_wrt before rs \<Longrightarrow> c < e \<Longrightarrow>
   span_covered c e rs \<longleftrightarrow> (\<forall>a. c \<le> a \<and> a < e \<longrightarrow> kind_in rs a = Some Reserved)"
proof (induction rs arbitrary: c)
  case (Cons r rs)
  let ?all = "\<lambda>rs c. \<forall>a. c \<le> a \<and> a < e \<longrightarrow> kind_in rs a = Some Reserved"
  have IH: "span_covered c e rs \<longleftrightarrow> ?all rs c" if "c < e" for c using Cons that by simp
  have r: "rg_base r \<le> region_end r" and later: "\<And>s. s \<in> set rs \<Longrightarrow> region_end r \<le> rg_base s"
    using Cons.prems by (auto simp: region_ok_def before_def)
  have only: "kind_in rs a = None" if "region_contains a r" for a
    using Cons.prems(2) that by (auto simp: kind_in_None dest: before_contains)
  consider "rg_kind r \<noteq> Reserved" | "rg_kind r = Reserved" "region_end r \<le> c"
    | "rg_kind r = Reserved" "c < rg_base r" "c < region_end r"
    | "rg_kind r = Reserved" "rg_base r \<le> c" "c < region_end r" "e \<le> region_end r"
    | "rg_kind r = Reserved" "rg_base r \<le> c" "c < region_end r" "region_end r < e"
    by (meson not_le_imp_less)
  then show ?case
  proof cases
    case 1
    then have "?all (r # rs) c \<longleftrightarrow> ?all rs c" using only by force
    with 1 IH Cons.prems(3) show ?thesis by simp
  next
    case 2
    then have "\<not> region_contains a r" if "c \<le> a" for a using that by (auto simp: region_contains_def)
    then have "?all (r # rs) c \<longleftrightarrow> ?all rs c" by auto
    with 2 IH Cons.prems(3) show ?thesis by simp
  next
    case 3
    have "\<not> region_contains c s" if "s \<in> set (r # rs)" for s
      using that later [of s] 3 by (auto simp: region_contains_def)
    then have "kind_in (r # rs) c = None" using kind_in_None [of "r # rs" c] by blast
    then have "\<not> ?all (r # rs) c" using Cons.prems(3) by (metis option.distinct(1) order_refl)
    moreover have "\<not> span_covered c e (r # rs)" using 3 by auto
    ultimately show ?thesis by blast
  next
    case 4
    then have "region_contains a r" if "c \<le> a" "a < e" for a using that by (auto simp: region_contains_def)
    moreover have "span_covered c e (r # rs)" using 4 by auto
    ultimately show ?thesis using 4(1) by simp
  next
    case 5
    then have "region_contains a r \<longleftrightarrow> a < region_end r" if "c \<le> a" for a
      using that by (auto simp: region_contains_def)
    with 5 have "?all (r # rs) c \<longleftrightarrow> ?all rs (region_end r)" by force
    moreover have "span_covered c e (r # rs) = span_covered (region_end r) e rs" using 5 by auto
    ultimately show ?thesis using IH [OF 5(4)] by simp
  qed
qed auto

text \<open>\<open>span_is_reserved\<close> decides what it says.\<close>

lemma span_is_reserved_iff:
  assumes "mm_wf m"
  shows "span_is_reserved b s m \<longleftrightarrow>
    b < b + s \<and> (\<forall>a. b \<le> a \<and> a < b + s \<longrightarrow> kind_at m a = Some Reserved)"
  using assms span_covered_iff [of "regions m" b "b + s"]
  by (auto simp: span_is_reserved_def checked_add_code mm_wf_iff kind_at_def order_less_le)

section \<open>Regions taken from the map\<close>

text \<open>\<open>taken gs m m'\<close>: the pairwise disjoint, nonempty regions \<open>gs\<close> are taken from the usable memory of
  \<open>m\<close>, giving \<open>m'\<close>.\<close>

definition taken :: "MemoryRegion list \<Rightarrow> MemoryMap \<Rightarrow> MemoryMap \<Rightarrow> bool" where
  "taken gs m m' \<longleftrightarrow>
     (\<forall>a. kind_at m' a = (if list_ex (region_contains a) gs then Some Reserved else kind_at m a)) \<and>
     (\<forall>a. list_ex (region_contains a) gs \<longrightarrow> kind_at m a = Some Usable) \<and>
     (\<forall>g \<in> set gs. rg_base g < region_end g) \<and> sorted_wrt (\<lambda>r s. \<not> region_overlaps r s) gs"

lemma overlap_byte:
  "region_overlaps r s \<Longrightarrow> rg_base r < region_end r \<Longrightarrow> rg_base s < region_end s \<Longrightarrow>
   \<exists>a. region_contains a r \<and> region_contains a s"
  by (intro exI [of _ "max (rg_base r) (rg_base s)"])
     (auto simp: region_overlaps_def region_contains_def max_def)

lemma taken_carved: "carved p sz m m' \<Longrightarrow> taken [region_new p sz k] m m'"
  by (auto simp: carved_def taken_def region_contains_def)

lemma taken_append:
  assumes "taken xs m m1" "taken ys m1 m2"
  shows "taken (xs @ ys) m m2"
proof -
  have k1: "kind_at m1 a = (if list_ex (region_contains a) xs then Some Reserved else kind_at m a)"
    and u1: "list_ex (region_contains a) xs \<Longrightarrow> kind_at m a = Some Usable"
    and k2: "kind_at m2 a = (if list_ex (region_contains a) ys then Some Reserved else kind_at m1 a)"
    and u2: "list_ex (region_contains a) ys \<Longrightarrow> kind_at m1 a = Some Usable" for a
    using assms by (auto simp: taken_def)
  have u: "kind_at m a = Some Usable \<and> \<not> list_ex (region_contains a) xs" if "list_ex (region_contains a) ys" for a
    using u2 [OF that] k1 [of a] by (auto split: if_splits)
  have "\<not> region_overlaps x y" if "x \<in> set xs" "y \<in> set ys" for x y
  proof
    assume o: "region_overlaps x y"
    have "rg_base x < region_end x" "rg_base y < region_end y" using assms that by (simp_all add: taken_def)
    then obtain a where "region_contains a x" "region_contains a y" using overlap_byte [OF o] by blast
    with u [of a] that show False by (auto simp: list_ex_iff)
  qed
  with assms show ?thesis
    using k1 k2 u u1 by (auto simp: taken_def sorted_wrt_append)
qed

lemma taken_Cons: "taken [r] m m1 \<Longrightarrow> taken rs m1 m2 \<Longrightarrow> taken (r # rs) m m2"
  using taken_append [of "[r]" m m1 rs m2] by simp

lemma carve_Some:
  assumes "mm_wf m" "carve_below sz align limit m = Inr (Some p, m')"
  shows "mm_wf m'" "taken [region_new p sz k] m m'" "p + sz \<le> limit" "is_power_of_two align"
proof -
  have al: "is_power_of_two align" and sz: "sz \<noteq> 0" using assms(2) by (auto simp: carve_below_def split: if_splits)
  from carve_below_cases [OF assms(1) al sz, of limit] assms(2)
  show "mm_wf m'" "taken [region_new p sz k] m m'" "p + sz \<le> limit" "is_power_of_two align"
    using al by (cases; auto intro: taken_carved)+
qed

lemma carve_guests_Some:
  "mm_wf m \<Longrightarrow> carve_guests align szs m = Inr (Some gs, m') \<Longrightarrow>
   mm_wf m' \<and> taken gs m m' \<and> map rg_size gs = szs"
proof (induction szs arbitrary: m gs)
  case Nil
  then show ?case by (simp add: taken_def)
next
  case (Cons sz szs)
  then obtain p m1 gs1 where p: "carve_below sz align (- 1) m = Inr (Some p, m1)"
    and g: "carve_guests align szs m1 = Inr (Some gs1, m')" "gs = region_new p sz Reserved # gs1"
    by (auto simp: carve_def split: sum.splits prod.splits option.splits)
  note c = carve_Some [OF Cons.prems(1) p]
  from Cons.IH [OF c(1) g(1)] show ?case using g(2) taken_Cons [OF c(2)] by auto
qed

section \<open>Coalescing\<close>

definition wf_regions :: "MemoryRegion list \<Rightarrow> bool" where
  "wf_regions rs \<longleftrightarrow> list_all region_ok rs \<and> sorted_wrt before rs"

text \<open>Adjacent regions that \<open>coalesce\<close> would join.\<close>

definition joins :: "MemoryRegion \<Rightarrow> MemoryRegion \<Rightarrow> bool" where
  "joins r s \<longleftrightarrow> rg_kind r = rg_kind s \<and> region_end r = rg_base s"

definition unjoinable :: "MemoryRegion list \<Rightarrow> bool" where
  "unjoinable rs \<longleftrightarrow> list_all (\<lambda>(r, s). \<not> joins r s) (zip rs (tl rs))"

lemma unjoinable_simps [simp]:
  "unjoinable []" "unjoinable [r]" "unjoinable (r # s # rs) \<longleftrightarrow> \<not> joins r s \<and> unjoinable (s # rs)"
  by (simp_all add: unjoinable_def)

lemma unjoinable_snoc: "unjoinable (xs @ [x, y]) \<longleftrightarrow> unjoinable (xs @ [x]) \<and> \<not> joins x y"
  by (induction xs rule: induct_list012) auto

lemma unjoinable_last:
  "unjoinable (xs @ [x]) \<Longrightarrow> rg_kind x' = rg_kind x \<Longrightarrow> rg_base x' = rg_base x \<Longrightarrow> unjoinable (xs @ [x'])"
  by (cases xs rule: rev_cases) (simp_all add: unjoinable_snoc joins_def)

lemma coalesce_step_spec:
  assumes "wf_regions (acc @ r # rs)" "unjoinable acc"
  shows "wf_regions (coalesce_step r acc @ rs)" "unjoinable (coalesce_step r acc)"
    "kind_in (coalesce_step r acc @ rs) a = kind_in (acc @ r # rs) a"
proof -
  have "wf_regions (coalesce_step r acc @ rs) \<and> unjoinable (coalesce_step r acc) \<and>
    kind_in (coalesce_step r acc @ rs) a = kind_in (acc @ r # rs) a"
  proof (cases acc rule: rev_cases)
    case Nil
    with assms show ?thesis by (simp add: coalesce_step_def)
  next
    case (snoc xs l)
    show ?thesis
    proof (cases "joins l r")
      case True
      let ?l = "l\<lparr>rg_size := rg_size l + rg_size r\<rparr>"
      have step: "coalesce_step r acc = xs @ [?l]" using True snoc by (simp add: coalesce_step_def joins_def)
      have l: "rg_base ?l = rg_base l" "rg_kind ?l = rg_kind l" "region_end ?l = region_end r"
        using True by (simp_all add: joins_def region_end_def algebra_simps)
      have ok: "region_ok l" "region_ok r" and end_l: "region_end l = rg_base r"
        using assms(1) True by (simp_all add: snoc wf_regions_def joins_def)
      have "wf_regions ((xs @ [?l]) @ rs)"
        using assms(1) ok end_l l by (auto simp: snoc wf_regions_def sorted_wrt_append before_def region_ok_def)
      moreover have "kind_in ((xs @ [?l]) @ rs) a = kind_in (acc @ r # rs) a"
        using True ok end_l l by (auto simp: snoc kind_in_append joins_def region_contains_def region_ok_def split: option.splits)
      moreover have "unjoinable (xs @ [?l])" using assms(2) snoc unjoinable_last [OF _ l(2,1)] by simp
      ultimately show ?thesis by (simp only: step)
    next
      case False
      then have "coalesce_step r acc = acc @ [r]" by (simp add: coalesce_step_def joins_def snoc)
      with False assms show ?thesis by (simp add: snoc unjoinable_snoc)
    qed
  qed
  then show "wf_regions (coalesce_step r acc @ rs)" "unjoinable (coalesce_step r acc)"
    "kind_in (coalesce_step r acc @ rs) a = kind_in (acc @ r # rs) a" by simp_all
qed

lemma coalesce_fold:
  "wf_regions (acc @ rs) \<Longrightarrow> unjoinable acc \<Longrightarrow>
   wf_regions (fold coalesce_step rs acc) \<and> unjoinable (fold coalesce_step rs acc) \<and>
   kind_in (fold coalesce_step rs acc) = kind_in (acc @ rs)"
  by (induction rs arbitrary: acc) (simp_all add: coalesce_step_spec fun_eq_iff)

section \<open>Correctness\<close>

text \<open>A PC firmware map with two usable ranges, and a request with two guests.\<close>

definition demo_map :: MemoryMap where
  "demo_map = from_e820
     [\<lparr>e820_base = 0x100000, e820_length = 0x3FF00000, e820_kind = 1\<rparr>,
      \<lparr>e820_base = 0, e820_length = 0x9FC00, e820_kind = 1\<rparr>,
      \<lparr>e820_base = 0x9FC00, e820_length = 0x400, e820_kind = 2\<rparr>]"

definition demo_request :: MemoryPlanRequest where
  "demo_request =
     \<lparr>heap_size = 0x2000, dma_size = 0x1000, guest_ram_sizes = [0x100000, 0x4000],
      plan_align = 0x1000, preclaimed_heap = None\<rparr>"

text \<open>C2 (safety).  Isolation of the boot-time regions.  When the planner succeeds on a well-formed map, and
  a preclaimed heap is reserved there, the DMA window, the heap and the RAM of every guest are pairwise
  disjoint; the DMA window and the guest RAM come from memory that was usable, the guests get the sizes
  they asked for, the DMA window ends below 4 GiB, and in the resulting well-formed map every byte of
  all these regions is reserved.\<close>

theorem plan_isolation:
  assumes wf: "mm_wf m" and plan: "plan_hypervisor_regions req m = Inr (Some h, m')"
    and pre: "\<forall>b s. preclaimed_heap req = Some (b, s) \<longrightarrow> span_is_reserved b s m"
  shows "sorted_wrt (\<lambda>r s. \<not> region_overlaps r s) (dma h # heap h # guest_ram h) \<and>
    map rg_size (guest_ram h) = guest_ram_sizes req \<and> region_end (dma h) \<le> bitmask 32 \<and>
    (\<forall>a. list_ex (region_contains a) (dma h # guest_ram h) \<longrightarrow> kind_at m a = Some Usable) \<and>
    (\<forall>a. list_ex (region_contains a) (dma h # heap h # guest_ram h) \<longrightarrow> kind_at m' a = Some Reserved) \<and>
    mm_wf m'"
proof -
  from plan obtain p m1 m2 where d: "carve_below (dma_size req) (plan_align req) (bitmask 32) m = Inr (Some p, m1)"
    and hp: "plan_heap req m1 = Inr (Some (heap h), m2)"
    and g: "carve_guests (plan_align req) (guest_ram_sizes req) m2 = Inr (Some (guest_ram h), m')"
    and dma: "dma h = region_new p (dma_size req) Reserved"
    by (auto simp: plan_hypervisor_regions_def split: sum.splits prod.splits option.splits)
  note c = carve_Some [OF wf d]
  have t1: "taken [dma h] m m1" using c(2) by (simp add: dma)
  show ?thesis
  proof (cases "preclaimed_heap req")
    case None
    then obtain q where q: "carve_below (heap_size req) (plan_align req) (- 1) m1 = Inr (Some q, m2)"
      and h: "heap h = region_new q (heap_size req) Reserved"
      using hp by (auto simp: plan_heap_def carve_def split: sum.splits)
    note e = carve_Some [OF c(1) q]
    note gs = carve_guests_Some [OF e(1) g]
    have "taken [heap h] m1 m2" using e(2) by (simp add: h)
    then have "taken (dma h # heap h # guest_ram h) m m'"
      using taken_Cons [OF t1] taken_Cons gs by blast
    with gs c(3) show ?thesis by (simp add: taken_def dma)
  next
    case (Some bs)
    then obtain b s where pc: "preclaimed_heap req = Some (b, s)" by (cases bs) auto
    then have h: "heap h = region_new b s Reserved" "m2 = m1" using hp by (auto simp: plan_heap_def split: if_splits)
    obtain wf': "mm_wf m'" and tg: "taken (guest_ram h) m1 m'" and szs: "map rg_size (guest_ram h) = guest_ram_sizes req"
      using carve_guests_Some [OF c(1) g [unfolded h(2)]] by blast
    have t: "taken (dma h # guest_ram h) m m'" by (rule taken_Cons [OF t1 tg])
    obtain bs: "b < b + s" and res: "\<And>a. b \<le> a \<Longrightarrow> a < b + s \<Longrightarrow> kind_at m a = Some Reserved"
      using pre [rule_format, OF pc] span_is_reserved_iff [OF wf] by blast
    have res': "kind_at m a = Some Reserved" if "region_contains a (heap h)" for a
      using that res by (simp add: h region_contains_def)
    have "\<not> region_overlaps r (heap h)" "\<not> region_overlaps (heap h) r" if "r \<in> set (dma h # guest_ram h)" for r
    proof -
      have "rg_base r < region_end r" "rg_base (heap h) < region_end (heap h)"
        using t that bs by (auto simp: taken_def h)
      moreover have "\<not> (region_contains a r \<and> region_contains a (heap h))" for a
        using t that res' [of a] by (auto simp: taken_def list_ex_iff)
      ultimately show "\<not> region_overlaps r (heap h)" "\<not> region_overlaps (heap h) r"
        using overlap_byte [of r "heap h"] overlap_byte [of "heap h" r] by blast+
    qed
    then show ?thesis using t wf' szs c(3) res' by (auto simp: taken_def dma)
  qed
qed

theorem plan_isolation_witness:
  "\<exists>h m'. plan_hypervisor_regions demo_request demo_map = Inr (Some h, m') \<and>
     sorted_wrt (\<lambda>r s. \<not> region_overlaps r s) (dma h # heap h # guest_ram h) \<and>
     map rg_size (guest_ram h) = [0x100000, 0x4000] \<and> mm_wf m'"
proof -
  have wf: "mm_wf demo_map" by code_simp
  have "case plan_hypervisor_regions demo_request demo_map of Inr (Some h, m') \<Rightarrow> True | _ \<Rightarrow> False" by code_simp
  then obtain h m' where p: "plan_hypervisor_regions demo_request demo_map = Inr (Some h, m')"
    by (auto split: sum.splits prod.splits option.splits)
  have pre: "\<forall>b s. preclaimed_heap demo_request = Some (b, s) \<longrightarrow> span_is_reserved b s demo_map"
    by (simp add: demo_request_def)
  have "guest_ram_sizes demo_request = [0x100000, 0x4000]" by (simp add: demo_request_def)
  with plan_isolation [OF wf p pre] p show ?thesis by metis
qed

text \<open>The check of a preclaimed heap comes after the DMA carve, on the map the carve has already changed:
  a heap span that nobody reserved is adopted when the DMA window has just been placed over it.\<close>

lemma unreserved_heap_over_dma:
  "case plan_hypervisor_regions
      (demo_request\<lparr>preclaimed_heap := Some (0, 0x1000), heap_size := 0x1000, guest_ram_sizes := []\<rparr>) demo_map of
     Inr (Some h, m') \<Rightarrow> \<not> span_is_reserved 0 0x1000 demo_map \<and>
       rg_base (heap h) = rg_base (dma h) \<and> region_overlaps (heap h) (dma h)
   | _ \<Rightarrow> False"
  by code_simp

text \<open>C17 (termination).  Reserving a span always returns, whatever the map.  On a well-formed map the
  result is well formed, exactly the usable bytes of the span have become reserved, and the flag says
  whether there were any; a span that is empty or wraps is refused.\<close>

theorem reserve_span_returns:
  "\<exists>any m'. reserve_span b s m = Some (any, m') \<and>
     (mm_wf m \<longrightarrow>
        mm_wf m' \<and>
        (\<forall>a. kind_at m' a =
           (if b \<le> b + s \<and> b \<le> a \<and> a < b + s \<and> kind_at m a = Some Usable then Some Reserved else kind_at m a)) \<and>
        (any \<longleftrightarrow> (\<exists>a. b \<le> b + s \<and> b \<le> a \<and> a < b + s \<and> kind_at m a = Some Usable)))"
proof (cases "s = 0 \<or> \<not> b \<le> b + s")
  case True
  then have "reserve_span b s m = Some (False, m)" by (auto simp: reserve_span_def checked_add_code)
  moreover have "(b \<le> b + s \<and> b \<le> a \<and> a < b + s \<and> kind_at m a = Some Usable) = False" for a
    using True by auto
  ultimately show ?thesis by (intro exI [of _ False] exI [of _ m]) (simp only: if_False simp_thms)
next
  case False
  then have eq: "reserve_span b s m = reserve_loop b (b + s) (False, m)"
    by (simp add: reserve_span_def checked_add_code)
  obtain any m' where r: "reserve_loop b (b + s) (False, m) = Some (any, m')"
    using reserve_loop_terminates [of b "b + s" "(False, m)"] by auto
  have "mm_wf m \<longrightarrow> mm_wf m' \<and>
      (\<forall>a. kind_at m' a = (if b \<le> a \<and> a < b + s \<and> kind_at m a = Some Usable then Some Reserved else kind_at m a)) \<and>
      (any \<longleftrightarrow> (\<exists>a. b \<le> a \<and> a < b + s \<and> kind_at m a = Some Usable))"
    using reserve_loop_spec [OF _ r] by blast
  then show ?thesis using False eq r by simp
qed

theorem reserve_span_returns_witness:
  "mm_wf demo_map \<and>
   (\<exists>any m'. reserve_span 0x80000 0x100000 demo_map = Some (any, m') \<and> any \<and> mm_wf m' \<and>
      kind_at m' 0x90000 = Some Reserved \<and> kind_at m' 0x7FFFF = Some Usable)"
proof -
  have wf: "mm_wf demo_map" by code_simp
  have k: "kind_at demo_map 0x90000 = Some Usable" "kind_at demo_map 0x7FFFF = Some Usable" by code_simp+
  obtain any m' where r: "reserve_span 0x80000 0x100000 demo_map = Some (any, m')" "mm_wf m'"
    "\<forall>a. kind_at m' a = (if (0x80000 :: u64) \<le> 0x80000 + 0x100000 \<and> 0x80000 \<le> a \<and> a < 0x80000 + 0x100000 \<and>
       kind_at demo_map a = Some Usable then Some Reserved else kind_at demo_map a)"
    "any \<longleftrightarrow> (\<exists>a. (0x80000 :: u64) \<le> 0x80000 + 0x100000 \<and> 0x80000 \<le> a \<and> a < 0x80000 + 0x100000 \<and>
       kind_at demo_map a = Some Usable)"
    using reserve_span_returns [of "0x80000" "0x100000" demo_map] wf by blast
  have "any" using r(4) k(1) by (auto intro: exI [of _ "0x90000"])
  moreover have "kind_at m' 0x90000 = Some Reserved" "kind_at m' 0x7FFFF = Some Usable"
    using r(3) k by simp_all
  ultimately show ?thesis using wf r(1,2) by blast
qed



text \<open>A usable region close to the top of the 64-bit space: rounding its base up wraps to 0, and the carved
  span lies outside the region.\<close>

lemma carve_wraps_at_top:
  "case carve 0x100 0x10000 (from_regions [region_new 0xFFFFFFFFFFFFE800 0x1000 Usable]) of
     Inr (Some p, m') \<Rightarrow> p = 0 \<and> kind_at (from_regions [region_new 0xFFFFFFFFFFFFE800 0x1000 Usable]) 0 = None
   | _ \<Rightarrow> False"
  by code_simp

text \<open>Coalescing does not change what the map says: every address keeps its kind, the map
  stays well formed, and no two neighbours of one kind are left unmerged.\<close>

theorem coalesce_refines:
  assumes "mm_wf m"
  shows "kind_at (coalesce m) = kind_at m \<and> mm_wf (coalesce m) \<and> unjoinable (regions (coalesce m))"
  using coalesce_fold [of "[]" "regions m"] assms
  by (auto simp: mm_wf_iff wf_regions_def coalesce_def kind_at_def)

theorem coalesce_refines_witness:
  "mm_wf (split_reserve 0 0 0x1000 demo_map) \<and>
   kind_at (coalesce (split_reserve 0 0 0x1000 demo_map)) 0x9FFFF = Some Reserved \<and>
   unjoinable (regions (coalesce (split_reserve 0 0 0x1000 demo_map)))"
proof -
  let ?m = "split_reserve 0 0 0x1000 demo_map"
  have "mm_wf ?m" "kind_at ?m 0x9FFFF = Some Reserved" by code_simp+
  with coalesce_refines [of ?m] show ?thesis by simp
qed

end
