(* ===== verification/Paging.thy ===== *)
theory Paging
  imports Le_Bytes
begin

text \<open>
  The identity-map builders of the host and nested page tables
  (\<open>enlil-platform/src/memory/paging.rs\<close>).  The memory image is its list of bytes; byte offsets and
  counts are \<open>usize\<close>, taken as natural numbers with the overflow checks of the source (a 64-bit
  target), addresses and entries are \<open>u64\<close>.  A builder returns the error of the source or the layout
  and the image it has written.  \<open>translate\<close> is the specification: the four-level walk of the
  architecture over the bytes of an image.
\<close>

section \<open>Entries\<close>

definition PRESENT :: u64 where "PRESENT = bitmask 0"
definition WRITABLE :: u64 where "WRITABLE = bitmask 1"
definition USER :: u64 where "USER = bitmask 2"
definition WRITE_THROUGH :: u64 where "WRITE_THROUGH = bitmask 3"
definition NO_CACHE :: u64 where "NO_CACHE = bitmask 4"
definition ACCESSED :: u64 where "ACCESSED = bitmask 5"
definition DIRTY :: u64 where "DIRTY = bitmask 6"
definition HUGE_PAGE :: u64 where "HUGE_PAGE = bitmask 7"
definition GLOBAL :: u64 where "GLOBAL = bitmask 8"
definition NO_EXECUTE :: u64 where "NO_EXECUTE = bitmask 63"

definition PAGE_SIZE :: u64 where "PAGE_SIZE = 4096"
definition PAGE_BYTES :: nat where "PAGE_BYTES = 4096"
definition TABLE_ENTRIES :: u64 where "TABLE_ENTRIES = 512"
definition HUGE_2MIB :: u64 where "HUGE_2MIB = 2 * 1024 * 1024"
definition TABLE_ADDR_MASK :: u64 where "TABLE_ADDR_MASK = 0x000FFFFFFFFFF000"
definition HUGE_2MIB_ADDR_MASK :: u64 where "HUGE_2MIB_ADDR_MASK = 0x000FFFFFFFE00000"

definition pml4_index :: "u64 \<Rightarrow> nat" where
  "pml4_index virt = unat (drop_bit 39 virt AND 0x1FF)"

definition pdpt_index :: "u64 \<Rightarrow> nat" where
  "pdpt_index virt = unat (drop_bit 30 virt AND 0x1FF)"

definition pd_index :: "u64 \<Rightarrow> nat" where
  "pd_index virt = unat (drop_bit 21 virt AND 0x1FF)"

definition pt_index :: "u64 \<Rightarrow> nat" where
  "pt_index virt = unat (drop_bit 12 virt AND 0x1FF)"

definition table_entry :: "u64 \<Rightarrow> u64 \<Rightarrow> u64" where
  "table_entry next_phys fl = (next_phys AND TABLE_ADDR_MASK) OR fl"

definition huge_2mib_entry :: "u64 \<Rightarrow> u64 \<Rightarrow> u64" where
  "huge_2mib_entry phys fl = (phys AND HUGE_2MIB_ADDR_MASK) OR fl OR HUGE_PAGE"

definition pte_entry :: "u64 \<Rightarrow> u64 \<Rightarrow> u64" where
  "pte_entry phys fl = (phys AND TABLE_ADDR_MASK) OR fl"

section \<open>Builders\<close>

record PageTableLayout =
  cr3 :: u64
  table_count :: nat
  layout_bytes :: nat

datatype PagingError =
    EmptyRegion
  | UnalignedBase
  | MapTooLarge u64
  | MapExceedsAddressSpace u64
  | TooManyPages u64
  | GuardOutOfRange u64
  | TablesExceedMemory nat nat

text \<open>\<open>u64::div_ceil\<close>.\<close>

definition div_ceil_u64 :: "u64 \<Rightarrow> u64 \<Rightarrow> u64" where
  "div_ceil_u64 a b = (if a mod b \<noteq> 0 then a div b + 1 else a div b)"

definition table_region :: "u64 \<Rightarrow> nat \<Rightarrow> nat \<Rightarrow> PagingError + nat \<times> nat \<times> nat" where
  "table_region tables_base_gpa count mem_len =
     (let base = unat tables_base_gpa; region = count * PAGE_BYTES; fin = base + region
      in if region \<ge> 2 ^ 64 \<or> fin \<ge> 2 ^ 64 then Inl (TablesExceedMemory (2 ^ 64 - 1) mem_len)
         else if fin > mem_len then Inl (TablesExceedMemory fin mem_len)
         else Inr (base, region, fin))"

definition write_entry :: "nat \<Rightarrow> u64 \<Rightarrow> u8 list \<Rightarrow> u8 list" where
  "write_entry off entry mem = copy_at off (to_le_bytes 8 entry) mem"

text \<open>\<open>mem[base..end].fill(0)\<close>.\<close>

definition fill_zero :: "nat \<Rightarrow> nat \<Rightarrow> u8 list \<Rightarrow> u8 list" where
  "fill_zero base fin mem = copy_at base (replicate (fin - base) 0) mem"

definition build_identity_map_2mib_with ::
  "u64 \<Rightarrow> u64 \<Rightarrow> u64 \<Rightarrow> u64 \<Rightarrow> u8 list \<Rightarrow> PagingError + PageTableLayout \<times> u8 list" where
  "build_identity_map_2mib_with tables_base_gpa bytes_to_map leaf_flags table_flags mem =
     (if bytes_to_map = 0 then Inl EmptyRegion
      else if tables_base_gpa AND (PAGE_SIZE - 1) \<noteq> 0 then Inl UnalignedBase
      else let num_2mib = div_ceil_u64 bytes_to_map HUGE_2MIB; num_pd = div_ceil_u64 num_2mib TABLE_ENTRIES
      in if num_pd > TABLE_ENTRIES then Inl (MapTooLarge num_pd)
      else let num_pd = unat num_pd; num_2mib = unat num_2mib; tc = 2 + num_pd
      in case table_region tables_base_gpa tc (length mem) of
        Inl e \<Rightarrow> Inl e
      | Inr (base, region, fin) \<Rightarrow>
          let mem = fill_zero base fin mem;
              pdpt_gpa = tables_base_gpa + PAGE_SIZE;
              first_pd_gpa = tables_base_gpa + 2 * PAGE_SIZE;
              pdpt_off = base + PAGE_BYTES;
              first_pd_off = base + 2 * PAGE_BYTES;
              mem = write_entry base (table_entry pdpt_gpa table_flags) mem;
              mem = fold (\<lambda>k. write_entry (pdpt_off + k * 8)
                      (table_entry (first_pd_gpa + of_nat k * PAGE_SIZE) table_flags)) [0..<num_pd] mem;
              leaf = leaf_flags OR PRESENT;
              mem = fold (\<lambda>page. write_entry (first_pd_off + (page div 512) * PAGE_BYTES + (page mod 512) * 8)
                      (huge_2mib_entry (of_nat page * HUGE_2MIB) leaf)) [0..<num_2mib] mem
          in Inr (\<lparr>cr3 = tables_base_gpa, table_count = tc, layout_bytes = region\<rparr>, mem))"

definition build_identity_map_2mib ::
  "u64 \<Rightarrow> u64 \<Rightarrow> u64 \<Rightarrow> u8 list \<Rightarrow> PagingError + PageTableLayout \<times> u8 list" where
  "build_identity_map_2mib tables_base_gpa bytes_to_map leaf_flags mem =
     build_identity_map_2mib_with tables_base_gpa bytes_to_map leaf_flags (PRESENT OR WRITABLE) mem"

definition build_npt_identity_map_2mib ::
  "u64 \<Rightarrow> u64 \<Rightarrow> u64 \<Rightarrow> u8 list \<Rightarrow> PagingError + PageTableLayout \<times> u8 list" where
  "build_npt_identity_map_2mib tables_base_gpa bytes_to_map extra_leaf_flags mem =
     build_identity_map_2mib_with tables_base_gpa bytes_to_map (extra_leaf_flags OR WRITABLE OR USER)
       (PRESENT OR WRITABLE OR USER) mem"

definition build_identity_map_4kib ::
  "u64 \<Rightarrow> u64 \<Rightarrow> u64 \<Rightarrow> u64 list \<Rightarrow> u8 list \<Rightarrow> PagingError + PageTableLayout \<times> u8 list" where
  "build_identity_map_4kib tables_base_gpa num_pages leaf_flags guard_pages mem =
     (if num_pages = 0 then Inl EmptyRegion
      else if tables_base_gpa AND (PAGE_SIZE - 1) \<noteq> 0 then Inl UnalignedBase
      else if num_pages > TABLE_ENTRIES then Inl (TooManyPages num_pages)
      else case List.find (\<lambda>g. g \<ge> num_pages) guard_pages of
        Some g \<Rightarrow> Inl (GuardOutOfRange g)
      | None \<Rightarrow>
     (case table_region tables_base_gpa 4 (length mem) of
        Inl e \<Rightarrow> Inl e
      | Inr (base, region, fin) \<Rightarrow>
          let mem = fill_zero base fin mem;
              table_flags = PRESENT OR WRITABLE;
              pdpt_gpa = tables_base_gpa + PAGE_SIZE;
              page_dir_gpa = tables_base_gpa + 2 * PAGE_SIZE;
              page_table_gpa = tables_base_gpa + 3 * PAGE_SIZE;
              pt_off = base + 3 * PAGE_BYTES;
              mem = write_entry base (table_entry pdpt_gpa table_flags) mem;
              mem = write_entry (base + PAGE_BYTES) (table_entry page_dir_gpa table_flags) mem;
              mem = write_entry (base + 2 * PAGE_BYTES) (table_entry page_table_gpa table_flags) mem;
              leaf = leaf_flags OR PRESENT;
              mem = fold (\<lambda>page mem. if of_nat page \<in> set guard_pages then mem
                      else write_entry (pt_off + page * 8) (pte_entry (of_nat page * PAGE_SIZE) leaf) mem)
                      [0..<unat num_pages] mem
          in Inr (\<lparr>cr3 = tables_base_gpa, table_count = 4, layout_bytes = region\<rparr>, mem)))"

definition build_identity_map_4kib_multi ::
  "u64 \<Rightarrow> u64 \<Rightarrow> u64 \<Rightarrow> u64 list \<Rightarrow> u8 list \<Rightarrow> PagingError + PageTableLayout \<times> u8 list" where
  "build_identity_map_4kib_multi tables_base_gpa num_pages leaf_flags guard_pages mem =
     (if num_pages = 0 then Inl EmptyRegion
      else if tables_base_gpa AND (PAGE_SIZE - 1) \<noteq> 0 then Inl UnalignedBase
      else let num_page_tables = div_ceil_u64 num_pages TABLE_ENTRIES;
               num_page_dirs = div_ceil_u64 num_page_tables TABLE_ENTRIES
      in if num_page_dirs > TABLE_ENTRIES then Inl (MapTooLarge num_page_dirs)
      else case List.find (\<lambda>g. g \<ge> num_pages) guard_pages of
        Some g \<Rightarrow> Inl (GuardOutOfRange g)
      | None \<Rightarrow>
          let num_page_tables = unat num_page_tables; num_page_dirs = unat num_page_dirs;
              num_pages = unat num_pages; tc = 2 + num_page_dirs + num_page_tables
          in case table_region tables_base_gpa tc (length mem) of
        Inl e \<Rightarrow> Inl e
      | Inr (base, region, fin) \<Rightarrow>
          let mem = fill_zero base fin mem;
              table_flags = PRESENT OR WRITABLE;
              pdpt_gpa = tables_base_gpa + PAGE_SIZE;
              first_dir_gpa = tables_base_gpa + 2 * PAGE_SIZE;
              first_leaf_gpa = first_dir_gpa + of_nat num_page_dirs * PAGE_SIZE;
              pdpt_off = base + PAGE_BYTES;
              first_dir_off = base + 2 * PAGE_BYTES;
              first_leaf_off = first_dir_off + num_page_dirs * PAGE_BYTES;
              mem = write_entry base (table_entry pdpt_gpa table_flags) mem;
              mem = fold (\<lambda>k. write_entry (pdpt_off + k * 8)
                      (table_entry (first_dir_gpa + of_nat k * PAGE_SIZE) table_flags)) [0..<num_page_dirs] mem;
              mem = fold (\<lambda>t. write_entry (first_dir_off + (t div 512) * PAGE_BYTES + (t mod 512) * 8)
                      (table_entry (first_leaf_gpa + of_nat t * PAGE_SIZE) table_flags)) [0..<num_page_tables] mem;
              leaf = leaf_flags OR PRESENT;
              mem = fold (\<lambda>page mem. if of_nat page \<in> set guard_pages then mem
                      else write_entry (first_leaf_off + (page div 512) * PAGE_BYTES + (page mod 512) * 8)
                        (pte_entry (of_nat page * PAGE_SIZE) leaf) mem) [0..<num_pages] mem
          in Inr (\<lparr>cr3 = tables_base_gpa, table_count = tc, layout_bytes = region\<rparr>, mem))"

definition build_identity_map_2mib_multi ::
  "u64 \<Rightarrow> u64 \<Rightarrow> u64 \<Rightarrow> u8 list \<Rightarrow> PagingError + PageTableLayout \<times> u8 list" where
  "build_identity_map_2mib_multi tables_base_gpa bytes_to_map leaf_flags mem =
     (if bytes_to_map = 0 then Inl EmptyRegion
      else if tables_base_gpa AND (PAGE_SIZE - 1) \<noteq> 0 then Inl UnalignedBase
      else let num_2mib = div_ceil_u64 bytes_to_map HUGE_2MIB;
               num_page_dirs = div_ceil_u64 num_2mib TABLE_ENTRIES;
               num_pdpt = div_ceil_u64 num_page_dirs TABLE_ENTRIES
      in if num_pdpt > TABLE_ENTRIES then Inl (MapExceedsAddressSpace num_pdpt)
      else let num_2mib = unat num_2mib; num_page_dirs = unat num_page_dirs; num_pdpt = unat num_pdpt;
               tc = 1 + num_pdpt + num_page_dirs
      in case table_region tables_base_gpa tc (length mem) of
        Inl e \<Rightarrow> Inl e
      | Inr (base, region, fin) \<Rightarrow>
          let mem = fill_zero base fin mem;
              table_flags = PRESENT OR WRITABLE;
              first_pdpt_gpa = tables_base_gpa + PAGE_SIZE;
              first_dir_gpa = first_pdpt_gpa + of_nat num_pdpt * PAGE_SIZE;
              first_pdpt_off = base + PAGE_BYTES;
              first_dir_off = first_pdpt_off + num_pdpt * PAGE_BYTES;
              mem = fold (\<lambda>k. write_entry (base + k * 8)
                      (table_entry (first_pdpt_gpa + of_nat k * PAGE_SIZE) table_flags)) [0..<num_pdpt] mem;
              mem = fold (\<lambda>d. write_entry (first_pdpt_off + (d div 512) * PAGE_BYTES + (d mod 512) * 8)
                      (table_entry (first_dir_gpa + of_nat d * PAGE_SIZE) table_flags)) [0..<num_page_dirs] mem;
              leaf = leaf_flags OR PRESENT;
              mem = fold (\<lambda>page. write_entry (first_dir_off + (page div 512) * PAGE_BYTES + (page mod 512) * 8)
                      (huge_2mib_entry (of_nat page * HUGE_2MIB) leaf)) [0..<num_2mib] mem
          in Inr (\<lparr>cr3 = tables_base_gpa, table_count = tc, layout_bytes = region\<rparr>, mem))"

section \<open>The walk of the architecture\<close>

definition entry_at :: "u8 list \<Rightarrow> u64 \<Rightarrow> nat \<Rightarrow> u64" where
  "entry_at mem table i = from_le_bytes (field_at (unat table + 8 * i) 8 mem)"

text \<open>The address a virtual address translates to, with the write and user rights of the path.\<close>

definition translate :: "u8 list \<Rightarrow> u64 \<Rightarrow> u64 \<Rightarrow> (u64 \<times> u64) option" where
  "translate mem root v =
     (let e4 = entry_at mem root (pml4_index v) in
      if \<not> bit e4 0 then None else
      let e3 = entry_at mem (e4 AND TABLE_ADDR_MASK) (pdpt_index v); r3 = e4 AND e3 in
      if \<not> bit e3 0 then None
      else if bit e3 7 then Some ((e3 AND 0x000FFFFFC0000000) OR (v AND 0x3FFFFFFF), r3 AND (WRITABLE OR USER))
      else
      let e2 = entry_at mem (e3 AND TABLE_ADDR_MASK) (pd_index v); r2 = r3 AND e2 in
      if \<not> bit e2 0 then None
      else if bit e2 7 then Some ((e2 AND HUGE_2MIB_ADDR_MASK) OR (v AND 0x1FFFFF), r2 AND (WRITABLE OR USER))
      else
      let e1 = entry_at mem (e2 AND TABLE_ADDR_MASK) (pt_index v) in
      if \<not> bit e1 0 then None
      else Some ((e1 AND TABLE_ADDR_MASK) OR (v AND 0xFFF), r2 AND e1 AND (WRITABLE OR USER)))"

section \<open>Images as arrays of entries\<close>

definition slot :: "nat \<Rightarrow> u8 list \<Rightarrow> u64" where
  "slot q mem = from_le_bytes (field_at (8 * q) 8 mem)"

definition poke :: "(nat \<times> u64) list \<Rightarrow> u8 list \<Rightarrow> u8 list" where
  "poke ws = fold (\<lambda>(q, e). write_entry (8 * q) e) ws"

text \<open>Consecutive entries of one level, from slot \<open>q\<close> on.\<close>

definition level :: "nat \<Rightarrow> (nat \<Rightarrow> u64) \<Rightarrow> nat list \<Rightarrow> (nat \<times> u64) list" where
  "level q f ks = map (\<lambda>k. (q + k, f k)) ks"

lemma slot_write:
  assumes "8 * q + 8 \<le> length mem"
  shows "slot p (write_entry (8 * q) e mem) = (if p = q then e else slot p mem)"
proof -
  have "8 * p + 8 \<le> 8 * q \<or> 8 * q + 8 \<le> 8 * p" if "p \<noteq> q" using that by linarith
  then show ?thesis
    using assms by (auto simp: slot_def write_entry_def field_at_same field_at_other from_le_to_le)
qed

lemma length_write_entry [simp]: "off + 8 \<le> length mem \<Longrightarrow> length (write_entry off e mem) = length mem"
  by (simp add: write_entry_def)

lemma poke_append: "poke (xs @ ys) mem = poke ys (poke xs mem)"
  by (simp add: poke_def)

lemma length_poke:
  "\<forall>(q, e) \<in> set ws. 8 * q + 8 \<le> length mem \<Longrightarrow> length (poke ws mem) = length mem"
proof (induction ws arbitrary: mem)
  case (Cons w ws)
  obtain q e where w: "w = (q, e)" by (cases w)
  then have "8 * q + 8 \<le> length mem" using Cons.prems by simp
  with Cons.IH [of "write_entry (8 * q) e mem"] Cons.prems show ?case by (simp add: w poke_def)
qed (simp add: poke_def)

lemma slot_poke:
  "\<forall>(q, e) \<in> set ws. 8 * q + 8 \<le> length mem \<Longrightarrow>
   slot p (poke ws mem) = (case map_of (rev ws) p of Some e \<Rightarrow> e | None \<Rightarrow> slot p mem)"
proof (induction ws arbitrary: mem)
  case (Cons w ws)
  obtain q e where w: "w = (q, e)" by (cases w)
  then have q: "8 * q + 8 \<le> length mem" using Cons.prems by simp
  with Cons.IH [of "write_entry (8 * q) e mem"] Cons.prems slot_write [OF q, of p e] show ?case
    by (auto simp: w poke_def map_add_def split: option.splits)
qed (simp add: poke_def)

lemma nth_copy_outside:
  "off + length src \<le> length buf \<Longrightarrow> i < off \<or> off + length src \<le> i \<Longrightarrow> copy_at off src buf ! i = buf ! i"
  by (auto simp: copy_at_def nth_append)

lemma poke_outside:
  "\<forall>(q, e) \<in> set ws. a \<le> 8 * q \<and> 8 * q + 8 \<le> b \<and> b \<le> length mem \<Longrightarrow> i < a \<or> b \<le> i \<Longrightarrow>
   poke ws mem ! i = mem ! i"
proof (induction ws arbitrary: mem)
  case (Cons w ws)
  obtain q e where w: "w = (q, e)" by (cases w)
  then have q: "a \<le> 8 * q" "8 * q + 8 \<le> b" "b \<le> length mem" using Cons.prems(1) by simp_all
  have "poke ws (write_entry (8 * q) e mem) ! i = write_entry (8 * q) e mem ! i"
    using Cons.prems q by (intro Cons.IH) simp_all
  also have "\<dots> = mem ! i"
    unfolding write_entry_def using q Cons.prems(2) by (intro nth_copy_outside) auto
  finally show ?case by (simp add: w poke_def)
qed (simp add: poke_def)

lemma set_level: "(q, e) \<in> set (level s f ks) \<longleftrightarrow> (\<exists>k \<in> set ks. q = s + k \<and> e = f k)"
  by (auto simp: level_def)

lemma map_of_level:
  "map_of (rev (level s f ks)) q = (if s \<le> q \<and> q - s \<in> set ks then Some (f (q - s)) else None)"
proof (induction ks)
  case (Cons k ks)
  have "level s f (k # ks) = (s + k, f k) # level s f ks" by (simp add: level_def)
  with Cons.IH show ?case by (auto simp: map_add_def split: option.splits)
qed (simp add: level_def)

text \<open>A loop of the builders that writes one level.\<close>

lemma fold_level:
  "(\<And>k. off k = 8 * (q + k)) \<Longrightarrow> fold (\<lambda>k. write_entry (off k) (f k)) ks mem = poke (level q f ks) mem"
  by (induction ks arbitrary: mem) (simp_all add: poke_def level_def)

lemma fold_level_guarded:
  "(\<And>k. off k = 8 * (q + k)) \<Longrightarrow>
   fold (\<lambda>k mem. if P k then mem else write_entry (off k) (f k) mem) ks mem =
   poke (level q f (filter (\<lambda>k. \<not> P k) ks)) mem"
  by (induction ks arbitrary: mem) (simp_all add: poke_def level_def)

lemma slot_fill_zero:
  assumes "8 * fin \<le> length mem" "b \<le> q" "q < fin"
  shows "slot q (fill_zero (8 * b) (8 * fin) mem) = 0"
proof -
  have "field_at (8 * q) 8 (fill_zero (8 * b) (8 * fin) mem) = replicate 8 0"
    using assms by (intro nth_equalityI)
      (auto simp: field_at_def fill_zero_def copy_at_def nth_append)
  moreover have "from_le_bytes (replicate n 0) = (0 :: u64)" for n by (induction n) simp_all
  ultimately show ?thesis by (simp add: slot_def)
qed

section \<open>Tables laid out level by level\<close>

text \<open>The pointer to table \<open>t\<close> of the region at \<open>gpa\<close>.\<close>

definition table_ptr :: "u64 \<Rightarrow> u64 \<Rightarrow> nat \<Rightarrow> u64" where
  "table_ptr gpa tf t = table_entry (gpa + of_nat t * PAGE_SIZE) tf"

text \<open>One PML4, \<open>n4\<close> PDPTs, \<open>n3\<close> page directories and the page tables, in this order; \<open>f2\<close> and \<open>f1\<close> are
  the entries of the directories and of the tables, present at the indices \<open>ks2\<close> and \<open>ks1\<close>.\<close>

definition layout_writes ::
  "u64 \<Rightarrow> u64 \<Rightarrow> nat \<Rightarrow> nat \<Rightarrow> (nat \<Rightarrow> u64) \<Rightarrow> nat \<Rightarrow> (nat \<Rightarrow> u64) \<Rightarrow> nat list \<Rightarrow> (nat \<times> u64) list" where
  "layout_writes gpa tf n4 n3 f2 n2 f1 ks1 =
     (let b = unat gpa div 8 in
      level b (\<lambda>k. table_ptr gpa tf (1 + k)) [0..<n4] @
      level (b + 512) (\<lambda>k. table_ptr gpa tf (1 + n4 + k)) [0..<n3] @
      level (b + 512 * (1 + n4)) f2 [0..<n2] @
      level (b + 512 * (1 + n4 + n3)) f1 ks1)"

definition layout_image ::
  "u64 \<Rightarrow> u64 \<Rightarrow> nat \<Rightarrow> nat \<Rightarrow> (nat \<Rightarrow> u64) \<Rightarrow> nat \<Rightarrow> (nat \<Rightarrow> u64) \<Rightarrow> nat list \<Rightarrow> nat \<Rightarrow> u8 list \<Rightarrow> u8 list" where
  "layout_image gpa tf n4 n3 f2 n2 f1 ks1 count mem =
     poke (layout_writes gpa tf n4 n3 f2 n2 f1 ks1) (fill_zero (unat gpa) (unat gpa + 4096 * count) mem)"

text \<open>The counts of a layout with \<open>pts\<close> page tables: every level fits the tables of the level above, and all
  tables fit the image.\<close>

definition layout_fits :: "u64 \<Rightarrow> nat \<Rightarrow> nat \<Rightarrow> nat \<Rightarrow> nat \<Rightarrow> nat list \<Rightarrow> nat \<Rightarrow> u8 list \<Rightarrow> bool" where
  "layout_fits gpa n4 n3 n2 pts ks1 count mem \<longleftrightarrow>
     8 dvd unat gpa \<and> n4 \<le> 512 \<and> n3 \<le> 512 * n4 \<and> n2 \<le> 512 * n3 \<and> (\<forall>k \<in> set ks1. k < 512 * pts) \<and>
     1 + n4 + n3 + pts \<le> count \<and> unat gpa + 4096 * count \<le> length mem"

lemma layout_image_slot:
  assumes fit: "layout_fits gpa n4 n3 n2 pts ks1 count mem"
    and q: "unat gpa div 8 \<le> q" "q < unat gpa div 8 + 512 * count"
  shows "slot q (layout_image gpa tf n4 n3 f2 n2 f1 ks1 count mem) =
    (case map_of (rev (layout_writes gpa tf n4 n3 f2 n2 f1 ks1)) q of Some e \<Rightarrow> e | None \<Rightarrow> 0)"
proof -
  define b where "b = unat gpa div 8"
  have g: "unat gpa = 8 * b" using fit by (simp add: b_def layout_fits_def)
  have len: "8 * (b + 512 * count) \<le> length mem" using fit g by (simp add: layout_fits_def)
  have "8 * p + 8 \<le> length mem" if "(p, e) \<in> set (layout_writes gpa tf n4 n3 f2 n2 f1 ks1)" for p e
  proof -
    have "p < b + 512 * count"
      using that fit unfolding layout_writes_def Let_def b_def [symmetric]
      by (fastforce simp: set_level layout_fits_def)
    then have "8 * (p + 1) \<le> 8 * (b + 512 * count)" by simp
    then show ?thesis using len by simp
  qed
  moreover have "length (fill_zero (unat gpa) (unat gpa + 4096 * count) mem) = length mem"
    using len g by (simp add: fill_zero_def)
  ultimately have "slot q (layout_image gpa tf n4 n3 f2 n2 f1 ks1 count mem) =
      (case map_of (rev (layout_writes gpa tf n4 n3 f2 n2 f1 ks1)) q of Some e \<Rightarrow> e
       | None \<Rightarrow> slot q (fill_zero (unat gpa) (unat gpa + 4096 * count) mem))"
    unfolding layout_image_def by (intro slot_poke) auto
  moreover have "slot q (fill_zero (unat gpa) (unat gpa + 4096 * count) mem) = 0"
  proof -
    have fin: "unat gpa + 4096 * count = 8 * (b + 512 * count)" using g by simp
    show ?thesis unfolding fin unfolding g using len q by (intro slot_fill_zero) (simp_all add: b_def)
  qed
  ultimately show ?thesis by (simp only:)
qed

lemma layout_slots:
  assumes fit: "layout_fits gpa n4 n3 n2 pts ks1 count mem"
    and img: "img = layout_image gpa tf n4 n3 f2 n2 f1 ks1 count mem" and b: "b = unat gpa div 8"
  shows "k < 512 \<Longrightarrow> slot (b + k) img = (if k < n4 then table_ptr gpa tf (1 + k) else 0)"
    and "k < 512 * n4 \<Longrightarrow> slot (b + 512 + k) img = (if k < n3 then table_ptr gpa tf (1 + n4 + k) else 0)"
    and "k < 512 * n3 \<Longrightarrow> slot (b + 512 * (1 + n4) + k) img = (if k < n2 then f2 k else 0)"
    and "k < 512 * pts \<Longrightarrow>
      slot (b + 512 * (1 + n4 + n3) + k) img = (if k \<in> set ks1 then f1 k else 0)"
proof -
  have n: "n4 \<le> 512" "n3 \<le> 512 * n4" "n2 \<le> 512 * n3" "\<forall>k \<in> set ks1. k < 512 * pts"
    "1 + n4 + n3 + pts \<le> count" using fit by (simp_all add: layout_fits_def)
  note s = layout_image_slot [OF fit, of _ tf f2 f1, folded img, folded b]
  note w = layout_writes_def Let_def b [symmetric] map_of_level map_add_def
  show "k < 512 \<Longrightarrow> slot (b + k) img = (if k < n4 then table_ptr gpa tf (1 + k) else 0)"
    using n s [of "b + k"] by (simp add: w)
  show "k < 512 * n4 \<Longrightarrow> slot (b + 512 + k) img = (if k < n3 then table_ptr gpa tf (1 + n4 + k) else 0)"
    using n s [of "b + 512 + k"] by (simp add: w)
  show "k < 512 * n3 \<Longrightarrow> slot (b + 512 * (1 + n4) + k) img = (if k < n2 then f2 k else 0)"
    using n s [of "b + 512 * (1 + n4) + k"] by (simp add: w)
  show "k < 512 * pts \<Longrightarrow>
      slot (b + 512 * (1 + n4 + n3) + k) img = (if k \<in> set ks1 then f1 k else 0)"
    using n s [of "b + 512 * (1 + n4 + n3) + k"] by (simp add: w)
qed

section \<open>Pointers and indices\<close>

lemma unat_index: "unat (drop_bit n v AND 0x1FF) = unat v div 2 ^ n mod 512" for v :: u64
proof -
  have "drop_bit n v AND 0x1FF = take_bit 9 (drop_bit n v)"
    by (simp add: take_bit_eq_mask mask_eq_exp_minus_1)
  then show ?thesis by (simp add: take_bit_eq_mod unat_mod unat_drop_bit)
qed

lemma indices:
  "pml4_index v = unat v div 2 ^ 39 mod 512" "pdpt_index v = unat v div 2 ^ 30 mod 512"
  "pd_index v = unat v div 2 ^ 21 mod 512" "pt_index v = unat v div 2 ^ 12 mod 512"
  unfolding pml4_index_def pdpt_index_def pd_index_def pt_index_def by (rule unat_index)+

lemma bit_table_mask: "bit TABLE_ADDR_MASK i \<longleftrightarrow> 12 \<le> i \<and> i < 52"
proof -
  have eq: "TABLE_ADDR_MASK = push_bit 12 (mask 40)" by (simp add: TABLE_ADDR_MASK_def mask_eq_exp_minus_1 push_bit_eq_mult)
  show ?thesis unfolding eq by (auto simp: bit_push_bit_iff bit_mask_iff)
qed

lemma bit_huge_mask: "bit HUGE_2MIB_ADDR_MASK i \<longleftrightarrow> 21 \<le> i \<and> i < 52"
proof -
  have eq: "HUGE_2MIB_ADDR_MASK = push_bit 21 (mask 31)"
    by (simp add: HUGE_2MIB_ADDR_MASK_def mask_eq_exp_minus_1 push_bit_eq_mult)
  show ?thesis unfolding eq by (auto simp: bit_push_bit_iff bit_mask_iff)
qed

lemma aligned_bits: "2 ^ n dvd unat w \<Longrightarrow> i < n \<Longrightarrow> \<not> bit w i" for w :: "'a::len word"
proof -
  assume d: "2 ^ n dvd unat w" and i: "i < n"
  then have "take_bit n (unat w) = 0" by (simp add: take_bit_eq_mod)
  then have "\<not> bit (take_bit n (unat w)) i" by simp
  then show ?thesis using i by (simp add: bit_take_bit_iff bit_unsigned_iff)
qed

lemma aligned_bit_range:
  fixes x :: u64
  assumes "2 ^ n dvd unat x" "unat x < 2 ^ 52" "bit x i"
  shows "n \<le> i \<and> i < 52"
proof
  show "n \<le> i" using aligned_bits [OF assms(1), of i] assms(3) by (rule_tac ccontr) simp
  show "i < 52" by (rule bit_index_less [OF assms(3,2)])
qed

lemma and_addr_mask:
  "2 ^ 12 dvd unat x \<Longrightarrow> unat x < 2 ^ 52 \<Longrightarrow> x AND TABLE_ADDR_MASK = x"
  "2 ^ 21 dvd unat x \<Longrightarrow> unat x < 2 ^ 52 \<Longrightarrow> x AND HUGE_2MIB_ADDR_MASK = x"
proof -
  assume x: "2 ^ 12 dvd unat x" "unat x < 2 ^ 52"
  show "x AND TABLE_ADDR_MASK = x"
    by (rule bit_word_eqI) (use aligned_bit_range [OF x] in \<open>auto simp only: bit_and_iff bit_table_mask\<close>)
next
  assume x: "2 ^ 21 dvd unat x" "unat x < 2 ^ 52"
  show "x AND HUGE_2MIB_ADDR_MASK = x"
    by (rule bit_word_eqI) (use aligned_bit_range [OF x] in \<open>auto simp only: bit_and_iff bit_huge_mask\<close>)
qed

text \<open>The flags of the intermediate entries: present, with write and user rights at most.\<close>

definition pointer_flags :: "u64 \<Rightarrow> bool" where
  "pointer_flags tf \<longleftrightarrow> tf \<in> {PRESENT OR WRITABLE, PRESENT OR WRITABLE OR USER}"

lemma pointer_flags_bits: "pointer_flags tf \<Longrightarrow> bit tf 0 \<and> (bit tf i \<longrightarrow> i < 3)"
  by (auto simp: pointer_flags_def PRESENT_def WRITABLE_def USER_def bit_or_iff bit_1_iff)

lemma bit_rights: "bit (WRITABLE OR USER) i \<longleftrightarrow> i = 1 \<or> i = 2"
  by (auto simp: WRITABLE_def USER_def bit_or_iff)

text \<open>An entry made of an address and flags outside the address field.\<close>

lemma entry_fields:
  assumes "2 ^ 12 dvd unat x" "unat x < 2 ^ 52" "fl AND TABLE_ADDR_MASK = 0"
  shows "((x AND TABLE_ADDR_MASK) OR fl) AND TABLE_ADDR_MASK = x"
    and "i < 12 \<Longrightarrow> bit ((x AND TABLE_ADDR_MASK) OR fl) i \<longleftrightarrow> bit fl i"
    and "((x AND TABLE_ADDR_MASK) OR fl) AND (r AND (WRITABLE OR USER)) = fl AND (r AND (WRITABLE OR USER))"
proof -
  note x = and_addr_mask(1) [OF assms(1,2)]
  show "((x AND TABLE_ADDR_MASK) OR fl) AND TABLE_ADDR_MASK = x"
    using assms(3) by (simp add: x bit.conj_disj_distrib2)
  show lo: "i < 12 \<Longrightarrow> bit ((x AND TABLE_ADDR_MASK) OR fl) i \<longleftrightarrow> bit fl i" for i
    using aligned_bits [OF assms(1), of i] by (simp add: bit_or_iff bit_and_iff)
  show "((x AND TABLE_ADDR_MASK) OR fl) AND (r AND (WRITABLE OR USER)) = fl AND (r AND (WRITABLE OR USER))"
  proof (rule bit_word_eqI)
    fix i
    show "bit (((x AND TABLE_ADDR_MASK) OR fl) AND (r AND (WRITABLE OR USER))) i = bit (fl AND (r AND (WRITABLE OR USER))) i"
      using lo [of i] by (auto simp: bit_and_iff bit_rights)
  qed
qed

lemma table_ptr_fields:
  assumes "2 ^ 12 dvd unat gpa" "unat gpa + 4096 * t < 2 ^ 52" "pointer_flags tf"
  shows "unat (table_ptr gpa tf t AND TABLE_ADDR_MASK) = unat gpa + 4096 * t"
    and "bit (table_ptr gpa tf t) 0" "\<not> bit (table_ptr gpa tf t) 7"
    and "table_ptr gpa tf t AND (r AND (WRITABLE OR USER)) = tf AND (r AND (WRITABLE OR USER))"
proof -
  let ?x = "gpa + of_nat t * PAGE_SIZE"
  have "unat (of_nat t :: u64) = t" using assms(2) by (intro unat_of_nat_small) simp
  then have "unat (of_nat t * PAGE_SIZE) = 4096 * t"
    using assms(2) by (subst unat_mul_no_wrap) (simp_all add: PAGE_SIZE_def)
  then have x: "unat ?x = unat gpa + 4096 * t" using assms(2) by (subst unat_add_no_wrap) simp_all
  have d: "2 ^ 12 dvd unat ?x" unfolding x using assms(1) by (simp add: dvd_add)
  have lt: "unat ?x < 2 ^ 52" unfolding x by (rule assms(2))
  have tf: "tf AND TABLE_ADDR_MASK = 0"
  proof (rule bit_word_eqI)
    fix i show "bit (tf AND TABLE_ADDR_MASK) i = bit 0 i"
      using pointer_flags_bits [OF assms(3), of i] by (auto simp: bit_and_iff bit_table_mask)
  qed
  note f = entry_fields [OF d lt tf]
  show "unat (table_ptr gpa tf t AND TABLE_ADDR_MASK) = unat gpa + 4096 * t"
    by (simp only: table_ptr_def table_entry_def f(1) x)
  show "bit (table_ptr gpa tf t) 0" "\<not> bit (table_ptr gpa tf t) 7"
    using f(2) pointer_flags_bits [OF assms(3), of 7] by (simp_all add: table_ptr_def table_entry_def)
  show "table_ptr gpa tf t AND (r AND (WRITABLE OR USER)) = tf AND (r AND (WRITABLE OR USER))"
    unfolding table_ptr_def table_entry_def by (rule f(3))
qed

section \<open>Walking a layout\<close>

lemma entry_at_slot: "unat table = 8 * q \<Longrightarrow> entry_at mem table i = slot (q + i) mem"
  by (simp add: entry_at_def slot_def algebra_simps)

lemma index_split:
  fixes v :: u64
  assumes "unat v < 2 ^ 48"
  shows "pml4_index v = unat v div 2 ^ 39" "512 * (unat v div 2 ^ 39) + pdpt_index v = unat v div 2 ^ 30"
    "512 * (unat v div 2 ^ 30) + pd_index v = unat v div 2 ^ 21"
    "512 * (unat v div 2 ^ 21) + pt_index v = unat v div 2 ^ 12"
    "unat v div 2 ^ 39 < 512" "pdpt_index v < 512" "pd_index v < 512" "pt_index v < 512"
proof -
  have lt: "unat v div 2 ^ 39 < 512" using assms by (simp add: div_less_iff_less_mult)
  have d: "n div 2 ^ 39 = n div 2 ^ 30 div 512" "n div 2 ^ 30 = n div 2 ^ 21 div 512" "n div 2 ^ 21 = n div 2 ^ 12 div 512"
    for n :: nat by (simp_all flip: div_mult2_eq)
  show "pml4_index v = unat v div 2 ^ 39" using lt by (simp add: indices)
  show "512 * (unat v div 2 ^ 39) + pdpt_index v = unat v div 2 ^ 30"
    "512 * (unat v div 2 ^ 30) + pd_index v = unat v div 2 ^ 21"
    "512 * (unat v div 2 ^ 21) + pt_index v = unat v div 2 ^ 12"
    unfolding indices d by (rule mult_div_mod_eq)+
  show "unat v div 2 ^ 39 < 512" by (rule lt)
  show "pdpt_index v < 512" "pd_index v < 512" "pt_index v < 512" by (simp_all add: indices)
qed

text \<open>What is left of the walk once the entry of the page directory is known.\<close>

definition walk_tail :: "u8 list \<Rightarrow> u64 \<Rightarrow> u64 \<Rightarrow> u64 \<Rightarrow> (u64 \<times> u64) option" where
  "walk_tail mem tf e2 v =
     (if \<not> bit e2 0 then None
      else if bit e2 7 then Some ((e2 AND HUGE_2MIB_ADDR_MASK) OR (v AND 0x1FFFFF), tf AND (e2 AND (WRITABLE OR USER)))
      else let e1 = entry_at mem (e2 AND TABLE_ADDR_MASK) (pt_index v)
           in if \<not> bit e1 0 then None
              else Some ((e1 AND TABLE_ADDR_MASK) OR (v AND 0xFFF), tf AND (e2 AND e1 AND (WRITABLE OR USER))))"

lemma translate_layout:
  assumes fit: "layout_fits gpa n4 n3 n2 pts ks1 count mem"
    and al: "2 ^ 12 dvd unat gpa" and lim: "length mem \<le> 2 ^ 52" and tf: "pointer_flags tf"
    and v: "unat v < 2 ^ 48" and img: "img = layout_image gpa tf n4 n3 f2 n2 f1 ks1 count mem"
  shows "translate img gpa v =
    (if unat v div 2 ^ 21 < n2 then walk_tail img tf (f2 (unat v div 2 ^ 21)) v else None)"
proof -
  define b i4 i3 i2 where "b = unat gpa div 8" and "i4 = unat v div 2 ^ 39" and "i3 = unat v div 2 ^ 30"
    and "i2 = unat v div 2 ^ 21"
  note ix = index_split [OF v, folded i4_def i3_def i2_def]
  note sl = layout_slots [OF fit img b_def]
  have n: "n4 \<le> 512" "n3 \<le> 512 * n4" "n2 \<le> 512 * n3" "1 + n4 + n3 \<le> count"
    "unat gpa + 4096 * count \<le> length mem" using fit by (simp_all add: layout_fits_def)
  have "2 ^ 3 dvd unat gpa" using al by (rule dvd_trans [rotated]) simp
  then have g: "unat gpa = 8 * b" by (simp add: b_def)
  have ptr: "unat (table_ptr gpa tf t AND TABLE_ADDR_MASK) = 8 * (b + 512 * t)"
      "bit (table_ptr gpa tf t) 0" "\<not> bit (table_ptr gpa tf t) 7"
      "table_ptr gpa tf t AND (r AND (WRITABLE OR USER)) = tf AND (r AND (WRITABLE OR USER))"
    if "t < count" for t r
  proof -
    have "unat gpa + 4096 * t < 2 ^ 52" using that n(5) lim by linarith
    note f = table_ptr_fields [OF al this tf]
    show "unat (table_ptr gpa tf t AND TABLE_ADDR_MASK) = 8 * (b + 512 * t)" using f(1) g by simp
    show "bit (table_ptr gpa tf t) 0" "\<not> bit (table_ptr gpa tf t) 7"
      "table_ptr gpa tf t AND (r AND (WRITABLE OR USER)) = tf AND (r AND (WRITABLE OR USER))" using f by blast+
  qed
  have ent: "entry_at img (table_ptr gpa tf t AND TABLE_ADDR_MASK) i = slot q img"
    if "t < count" "b + 512 * t + i = q" for t i q
    using entry_at_slot [OF ptr(1) [OF that(1)]] that(2) by simp
  have e4: "entry_at img gpa (pml4_index v) = (if i4 < n4 then table_ptr gpa tf (1 + i4) else 0)"
    using sl(1) [OF ix(5)] by (simp add: entry_at_slot [OF g] ix(1))
  show ?thesis
  proof (cases "i3 < n3")
    case False
    have none: "\<not> i2 < n2" using False n(3) ix(3,7) by linarith
    show ?thesis
    proof (cases "i4 < n4")
      case True
      have "entry_at img (table_ptr gpa tf (1 + i4) AND TABLE_ADDR_MASK) (pdpt_index v) = slot (b + 512 + i3) img"
        using True n(4) ix(2) by (intro ent) simp_all
      also have "\<dots> = 0" using sl(2) [of i3] True False n(1) ix(2,6) by simp
      finally show ?thesis using True e4 none i2_def by (simp add: translate_def Let_def)
    next
      case False
      then show ?thesis using e4 none i2_def by (simp add: translate_def Let_def)
    qed
  next
    case True
    then have i4: "i4 < n4" using n(2) ix(2) by linarith
    have t: "1 + i4 < count" "1 + n4 + i3 < count" using True i4 n by linarith+
    have i34: "i3 < 512 * n4" using True n(2) by linarith
    have e3: "entry_at img (table_ptr gpa tf (1 + i4) AND TABLE_ADDR_MASK) (pdpt_index v) = table_ptr gpa tf (1 + n4 + i3)"
    proof -
      have "entry_at img (table_ptr gpa tf (1 + i4) AND TABLE_ADDR_MASK) (pdpt_index v) = slot (b + 512 + i3) img"
        using ix(2) by (intro ent [OF t(1)]) simp
      then show ?thesis using sl(2) [OF i34] True by simp
    qed
    define e2 where "e2 = (if i2 < n2 then f2 i2 else 0)"
    have e2: "entry_at img (table_ptr gpa tf (1 + n4 + i3) AND TABLE_ADDR_MASK) (pd_index v) = e2"
    proof -
      have i2: "i2 < 512 * n3" using True ix(3,7) by linarith
      have "entry_at img (table_ptr gpa tf (1 + n4 + i3) AND TABLE_ADDR_MASK) (pd_index v) =
          slot (b + 512 * (1 + n4) + i2) img"
        using ix(3) by (intro ent [OF t(2)]) simp
      then show ?thesis using sl(3) [OF i2] by (simp add: e2_def)
    qed
    have rights: "table_ptr gpa tf (1 + i4) AND table_ptr gpa tf (1 + n4 + i3) AND r AND (WRITABLE OR USER) =
        tf AND (r AND (WRITABLE OR USER))" for r
      using ptr(4) [OF t(1), of "tf AND r"] ptr(4) [OF t(2), of r]
      by (simp only: and.assoc) (simp add: and.left_commute and.assoc flip: and.assoc [of tf tf])
    define p4 p3 where "p4 = table_ptr gpa tf (1 + i4)" and "p3 = table_ptr gpa tf (1 + n4 + i3)"
    have e4': "entry_at img gpa (pml4_index v) = p4" using i4 e4 by (simp add: p4_def)
    note fold = p4_def [symmetric] p3_def [symmetric]
    have "translate img gpa v = walk_tail img tf e2 v"
      using ptr(2,3) [OF t(1), unfolded fold] ptr(2,3) [OF t(2), unfolded fold] rights [of e2, unfolded fold and.assoc]
        rights [of "e2 AND entry_at img (e2 AND TABLE_ADDR_MASK) (pt_index v)", unfolded fold and.assoc]
      by (simp add: translate_def walk_tail_def Let_def e4' e3 [unfolded fold] e2 [unfolded fold] and.assoc)
    then show ?thesis unfolding i2_def [symmetric] by (simp add: e2_def walk_tail_def)
  qed
qed

text \<open>The frame number of an address, scaled back, is its aligned part.\<close>

lemma frame_base:
  fixes v :: u64
  shows "of_nat (unat v div 2 ^ n) * 2 ^ n = push_bit n (drop_bit n v)"
    and "unat v < 2 ^ 52 \<Longrightarrow> 2 ^ n dvd unat (push_bit n (drop_bit n v)) \<and> unat (push_bit n (drop_bit n v)) < 2 ^ 52"
    and "push_bit n (drop_bit n v) OR take_bit n v = v"
proof -
  have d: "of_nat (unat v div 2 ^ n) = drop_bit n v"
    by (simp only: word_unat_eq_iff unat_drop_bit unat_of_nat_small [OF le_less_trans [OF div_le_dividend unat_bound]])
  then show "of_nat (unat v div 2 ^ n) * 2 ^ n = push_bit n (drop_bit n v)" by (simp add: push_bit_eq_mult)
  have le: "unat v div 2 ^ n * 2 ^ n \<le> unat v" by (rule div_times_less_eq_dividend)
  then have "unat (drop_bit n v) * 2 ^ n < 2 ^ LENGTH(64)"
    unfolding unat_drop_bit using unat_bound [of v] by (rule le_less_trans)
  then have eq: "unat (push_bit n (drop_bit n v)) = unat v div 2 ^ n * 2 ^ n"
    by (simp only: unat_push_bit_no_wrap unat_drop_bit)
  show "unat v < 2 ^ 52 \<Longrightarrow>
      2 ^ n dvd unat (push_bit n (drop_bit n v)) \<and> unat (push_bit n (drop_bit n v)) < 2 ^ 52"
    unfolding eq by (intro conjI dvd_triv_right le_less_trans [OF le])
  show "push_bit n (drop_bit n v) OR take_bit n v = v"
    by (rule bit_word_eqI) (auto simp: bit_simps)
qed

lemma and_offset: "v AND 0x1FFFFF = take_bit 21 v" "v AND 0xFFF = take_bit 12 v" for v :: u64
  by (simp_all add: take_bit_eq_mask mask_eq_exp_minus_1)

lemma walk_huge:
  assumes "unat v < 2 ^ 48" "fl AND HUGE_2MIB_ADDR_MASK = 0"
  shows "walk_tail img tf (huge_2mib_entry (of_nat (unat v div 2 ^ 21) * HUGE_2MIB) (fl OR PRESENT)) v =
    Some (v, tf AND fl AND (WRITABLE OR USER))"
proof -
  define x where "x = push_bit 21 (drop_bit 21 v)"
  have "(of_nat (unat v div 2 ^ 21) :: u64) * HUGE_2MIB = x"
    using frame_base(1) [of v 21] by (simp add: x_def HUGE_2MIB_def)
  moreover have d: "2 ^ 21 dvd unat x" "unat x < 2 ^ 52" using frame_base(2) [of v 21] assms(1) by (simp_all add: x_def)
  moreover note and_addr_mask(2) [OF d]
  ultimately have e: "huge_2mib_entry (of_nat (unat v div 2 ^ 21) * HUGE_2MIB) (fl OR PRESENT) =
      x OR fl OR PRESENT OR HUGE_PAGE" by (simp add: huge_2mib_entry_def or.assoc)
  let ?e = "x OR fl OR PRESENT OR HUGE_PAGE"
  have b: "bit ?e 0" "bit ?e 7" by (simp_all add: PRESENT_def HUGE_PAGE_def bit_or_iff)
  have "PRESENT AND HUGE_2MIB_ADDR_MASK = 0" "HUGE_PAGE AND HUGE_2MIB_ADDR_MASK = 0"
    by (simp_all add: PRESENT_def HUGE_PAGE_def HUGE_2MIB_ADDR_MASK_def bitmask_def)
  then have a: "?e AND HUGE_2MIB_ADDR_MASK = x"
    using assms(2) and_addr_mask(2) [OF d] by (simp add: bit.conj_disj_distrib2)
  have r: "?e AND (WRITABLE OR USER) = fl AND (WRITABLE OR USER)"
  proof (rule bit_word_eqI)
    fix i show "bit (?e AND (WRITABLE OR USER)) i = bit (fl AND (WRITABLE OR USER)) i"
      using aligned_bits [OF d(1), of i]
      by (auto simp: bit_and_iff bit_or_iff PRESENT_def HUGE_PAGE_def WRITABLE_def USER_def bit_1_iff)
  qed
  show ?thesis
    using frame_base(3) [of 21 v] unfolding walk_tail_def e
    by (simp add: b a r x_def [symmetric] and_offset and.assoc)
qed

lemma walk_small:
  assumes fit: "layout_fits gpa n4 n3 n2 n2 ks1 count mem" and al: "2 ^ 12 dvd unat gpa" and lim: "length mem \<le> 2 ^ 52" and tf: "pointer_flags tf"
    and v: "unat v < 2 ^ 48" "unat v div 2 ^ 21 < n2" and fl: "fl AND TABLE_ADDR_MASK = 0"
    and img: "img = layout_image gpa tf n4 n3 (\<lambda>t. table_ptr gpa tf (1 + n4 + n3 + t)) n2
        (\<lambda>page. pte_entry (of_nat page * PAGE_SIZE) (fl OR PRESENT)) ks1 count mem"
  shows "walk_tail img tf (table_ptr gpa tf (1 + n4 + n3 + unat v div 2 ^ 21)) v =
    (if unat v div 2 ^ 12 \<in> set ks1 then Some (v, tf AND fl AND (WRITABLE OR USER)) else None)"
proof -
  define b i2 i1 where "b = unat gpa div 8" and "i2 = unat v div 2 ^ 21" and "i1 = unat v div 2 ^ 12"
  define p2 where "p2 = table_ptr gpa tf (1 + n4 + n3 + i2)"
  have g: "unat gpa = 8 * b" using al dvd_trans [of "2 ^ 3" "2 ^ 12" "unat gpa"] by (simp add: b_def)
  have ix: "512 * i2 + pt_index v = i1" "pt_index v < 512"
    using index_split(4,8) [OF v(1)] by (simp_all add: i2_def i1_def)
  have "1 + n4 + n3 + i2 < count" using fit v(2) by (simp add: i2_def layout_fits_def)
  then have "unat gpa + 4096 * (1 + n4 + n3 + i2) < 2 ^ 52"
    using fit lim by (simp add: layout_fits_def)
  note f = table_ptr_fields [OF al this tf, folded p2_def]
  have "unat (p2 AND TABLE_ADDR_MASK) = 8 * (b + 512 * (1 + n4 + n3 + i2))" using f(1) g by simp
  note ent = entry_at_slot [OF this]
  have lt: "i1 < 512 * n2" using v(2) ix by (simp add: i2_def)
  define x where "x = push_bit 12 (drop_bit 12 v)"
  define e1 where "e1 = (if i1 \<in> set ks1 then pte_entry x (fl OR PRESENT) else 0)"
  have x: "(of_nat i1 :: u64) * PAGE_SIZE = x" using frame_base(1) [of v 12] by (simp add: i1_def x_def PAGE_SIZE_def)
  have d: "2 ^ 12 dvd unat x" "unat x < 2 ^ 52" using frame_base(2) [of v 12] v(1) by (simp_all add: x_def)
  have e1: "entry_at img (p2 AND TABLE_ADDR_MASK) (pt_index v) = e1"
  proof -
    have "b + 512 * (1 + n4 + n3 + i2) + pt_index v = b + 512 * (1 + n4 + n3) + i1" using ix(1) by simp
    then have "entry_at img (p2 AND TABLE_ADDR_MASK) (pt_index v) = slot (b + 512 * (1 + n4 + n3) + i1) img"
      by (simp only: ent)
    also have "\<dots> = e1" using layout_slots(4) [OF fit img b_def lt] x by (simp add: e1_def)
    finally show ?thesis .
  qed
  have m: "(fl OR PRESENT) AND TABLE_ADDR_MASK = 0"
    using fl by (simp add: bit.conj_disj_distrib2 PRESENT_def TABLE_ADDR_MASK_def)
  note ef = entry_fields [OF d m]
  have r: "pte_entry x (fl OR PRESENT) AND (WRITABLE OR USER) = fl AND (WRITABLE OR USER)"
  proof (rule bit_word_eqI)
    fix i show "bit (pte_entry x (fl OR PRESENT) AND (WRITABLE OR USER)) i = bit (fl AND (WRITABLE OR USER)) i"
      using ef(2) [of i] by (auto simp: pte_entry_def bit_and_iff bit_or_iff PRESENT_def WRITABLE_def USER_def bit_1_iff)
  qed
  show ?thesis
  proof (cases "i1 \<in> set ks1")
    case True
    then have "e1 = pte_entry x (fl OR PRESENT)" by (simp add: e1_def)
    moreover have "pte_entry x (fl OR PRESENT) AND TABLE_ADDR_MASK = x" "bit (pte_entry x (fl OR PRESENT)) 0"
      using ef(1) ef(2) [of 0] by (simp_all add: pte_entry_def PRESENT_def bit_or_iff)
    moreover have "p2 AND (e1 AND (WRITABLE OR USER)) = tf AND (fl AND (WRITABLE OR USER))"
      using f(4) [of e1] r calculation(1) by simp
    ultimately show ?thesis
      using True f(2,3) e1 frame_base(3) [of 12 v]
      unfolding i1_def [symmetric] i2_def [symmetric] p2_def [symmetric]
      by (simp add: walk_tail_def Let_def and_offset x_def [symmetric] and.assoc)
  next
    case False
    then show ?thesis
      using f(2,3) e1 unfolding i1_def [symmetric] i2_def [symmetric] p2_def [symmetric]
      by (simp add: walk_tail_def e1_def)
  qed
qed

section \<open>The builders produce layouts\<close>

lemma ceil_less_iff: "0 < d \<Longrightarrow> x < (a + d - 1) div d \<longleftrightarrow> x * d < a" for a d x :: nat
proof -
  assume d: "0 < d"
  have "x < (a + d - 1) div d \<longleftrightarrow> Suc x * d \<le> a + d - 1"
    using d by (simp only: Suc_le_eq [symmetric] less_eq_div_iff_mult_less_eq)
  then show ?thesis using d by auto
qed

lemma ceil_ge: "0 < d \<Longrightarrow> a \<le> d * ((a + d - 1) div d)" for a d :: nat
  using ceil_less_iff [of d "(a + d - 1) div d" a] by (simp add: mult.commute)

lemma ceil_div: "0 < d \<Longrightarrow> (a + d - 1) div d = (if a mod d \<noteq> 0 then a div d + 1 else a div d)" for a d :: nat
proof -
  assume d: "0 < d"
  define q r t where "q = a div d" and "r = a mod d" and "t = r + d - 1"
  have a: "a + d - 1 = t + q * d" using d div_mult_mod_eq [of a d] by (simp add: q_def r_def t_def)
  have "r < d" using d by (simp add: r_def)
  then have "t div d = (if r \<noteq> 0 then 1 else 0)"
    using d by (auto simp: t_def div_less_iff_less_mult intro: div_nat_eqI)
  moreover have "(t + q * d) div d = q + t div d" using d by (intro div_mult_self1) simp
  ultimately have "(a + d - 1) div d = q + (if r \<noteq> 0 then 1 else 0)" unfolding a by simp
  then show ?thesis by (simp add: q_def r_def)
qed

lemma unat_div_ceil: "1 < unat b \<Longrightarrow> unat (div_ceil_u64 a b) = (unat a + unat b - 1) div unat b"
proof -
  assume b: "1 < unat b"
  then have "unat a div unat b + 1 \<le> unat a div 2 + 1" by (simp add: div_le_mono2)
  also have "\<dots> < 2 ^ 64" using unat_bound [of a] by simp
  finally have "unat (a div b + 1) = unat a div unat b + 1" by (simp add: unat_add_no_wrap unat_div)
  moreover have "a mod b = 0 \<longleftrightarrow> unat a mod unat b = 0" by (metis unat_eq_zero unat_mod)
  ultimately show ?thesis using b ceil_div [of "unat b" "unat a"] by (simp add: div_ceil_u64_def unat_div)
qed

lemma table_region_cases:
  "table_region gpa count len = Inr (unat gpa, 4096 * count, unat gpa + 4096 * count) \<and> unat gpa + 4096 * count \<le> len
   \<or> (\<exists>e. table_region gpa count len = Inl e)"
  by (auto simp: table_region_def PAGE_BYTES_def Let_def mult.commute)

lemma page_aligned: "gpa AND (PAGE_SIZE - 1) = 0 \<Longrightarrow> 2 ^ 12 dvd unat gpa"
proof -
  assume "gpa AND (PAGE_SIZE - 1) = 0"
  then have "take_bit 12 gpa = 0" by (simp add: PAGE_SIZE_def and_offset(2) [symmetric])
  then have "unat (take_bit 12 gpa) = 0" by simp
  then have "unat gpa mod 2 ^ 12 = 0" by (simp add: take_bit_eq_mod unat_mod)
  then show ?thesis by (simp only: mod_eq_0_iff_dvd)
qed

lemma run_offset: "x div 512 * 4096 + x mod 512 * 8 = 8 * x" for x :: nat
  using div_mult_mod_eq [of x 512] by linarith

lemma table_ptr_of:
  "table_entry (gpa + PAGE_SIZE) tf = table_ptr gpa tf 1"
  "table_entry (gpa + 2 * PAGE_SIZE) tf = table_ptr gpa tf 2"
  "table_entry (gpa + 3 * PAGE_SIZE) tf = table_ptr gpa tf 3"
  "table_entry (gpa + PAGE_SIZE + of_nat k * PAGE_SIZE) tf = table_ptr gpa tf (1 + k)"
  "table_entry (gpa + 2 * PAGE_SIZE + of_nat k * PAGE_SIZE) tf = table_ptr gpa tf (2 + k)"
  "table_entry (gpa + PAGE_SIZE + of_nat m * PAGE_SIZE + of_nat k * PAGE_SIZE) tf = table_ptr gpa tf (1 + m + k)"
  "table_entry (gpa + 2 * PAGE_SIZE + of_nat m * PAGE_SIZE + of_nat k * PAGE_SIZE) tf = table_ptr gpa tf (2 + m + k)"
  by (simp_all add: table_ptr_def algebra_simps)

text \<open>The loops of the builders, as writes of levels.\<close>

lemma level_loops:
  assumes g: "unat gpa = 8 * b"
  shows "fold (\<lambda>k. write_entry (unat gpa + k * 8) (f k)) ks mem = poke (level b f ks) mem"
    and "fold (\<lambda>k. write_entry (unat gpa + PAGE_BYTES + k * 8) (f k)) ks mem = poke (level (b + 512) f ks) mem"
    and "fold (\<lambda>x. write_entry (unat gpa + PAGE_BYTES + x div 512 * PAGE_BYTES + x mod 512 * 8) (f x)) ks mem =
      poke (level (b + 512) f ks) mem"
    and "fold (\<lambda>x. write_entry (unat gpa + 2 * PAGE_BYTES + x div 512 * PAGE_BYTES + x mod 512 * 8) (f x)) ks mem =
      poke (level (b + 512 * 2) f ks) mem"
    and "fold (\<lambda>x. write_entry (unat gpa + PAGE_BYTES + m * PAGE_BYTES + x div 512 * PAGE_BYTES + x mod 512 * 8) (f x)) ks mem =
      poke (level (b + 512 * (1 + m)) f ks) mem"
    and "fold (\<lambda>x mem. if P x then mem else write_entry (unat gpa + 3 * PAGE_BYTES + x * 8) (f x) mem) ks mem =
      poke (level (b + 512 * 3) f (filter (\<lambda>k. \<not> P k) ks)) mem"
    and "fold (\<lambda>x mem. if P x then mem
        else write_entry (unat gpa + 2 * PAGE_BYTES + m * PAGE_BYTES + x div 512 * PAGE_BYTES + x mod 512 * 8) (f x) mem) ks mem =
      poke (level (b + 512 * (2 + m)) f (filter (\<lambda>k. \<not> P k) ks)) mem"
proof -
  have r: "c + x div 512 * PAGE_BYTES + x mod 512 * 8 = 8 * (q + x)" if "c = 8 * q" for c q x
    using that run_offset [of x] by (simp add: PAGE_BYTES_def)
  show "fold (\<lambda>k. write_entry (unat gpa + k * 8) (f k)) ks mem = poke (level b f ks) mem"
    "fold (\<lambda>k. write_entry (unat gpa + PAGE_BYTES + k * 8) (f k)) ks mem = poke (level (b + 512) f ks) mem"
    by (rule fold_level; simp add: g PAGE_BYTES_def)+
  show "fold (\<lambda>x. write_entry (unat gpa + PAGE_BYTES + x div 512 * PAGE_BYTES + x mod 512 * 8) (f x)) ks mem =
      poke (level (b + 512) f ks) mem"
    "fold (\<lambda>x. write_entry (unat gpa + 2 * PAGE_BYTES + x div 512 * PAGE_BYTES + x mod 512 * 8) (f x)) ks mem =
      poke (level (b + 512 * 2) f ks) mem"
    "fold (\<lambda>x. write_entry (unat gpa + PAGE_BYTES + m * PAGE_BYTES + x div 512 * PAGE_BYTES + x mod 512 * 8) (f x)) ks mem =
      poke (level (b + 512 * (1 + m)) f ks) mem"
    by (rule fold_level; rule r; simp add: g PAGE_BYTES_def)+
  show "fold (\<lambda>x mem. if P x then mem else write_entry (unat gpa + 3 * PAGE_BYTES + x * 8) (f x) mem) ks mem =
      poke (level (b + 512 * 3) f (filter (\<lambda>k. \<not> P k) ks)) mem"
    by (rule fold_level_guarded; simp add: g PAGE_BYTES_def)
  show "fold (\<lambda>x mem. if P x then mem
        else write_entry (unat gpa + 2 * PAGE_BYTES + m * PAGE_BYTES + x div 512 * PAGE_BYTES + x mod 512 * 8) (f x) mem) ks mem =
      poke (level (b + 512 * (2 + m)) f (filter (\<lambda>k. \<not> P k) ks)) mem"
    by (rule fold_level_guarded; rule r; simp add: g PAGE_BYTES_def)
qed

definition huge_leaf :: "u64 \<Rightarrow> nat \<Rightarrow> u64" where
  "huge_leaf fl page = huge_2mib_entry (of_nat page * HUGE_2MIB) (fl OR PRESENT)"

definition small_leaf :: "u64 \<Rightarrow> nat \<Rightarrow> u64" where
  "small_leaf fl page = pte_entry (of_nat page * PAGE_SIZE) (fl OR PRESENT)"

text \<open>The result of a builder whose tables are \<open>count\<close> pages.\<close>

definition built :: "u64 \<Rightarrow> nat \<Rightarrow> u8 list \<Rightarrow> u8 list \<Rightarrow> PagingError + PageTableLayout \<times> u8 list" where
  "built gpa count img mem =
     (case table_region gpa count (length mem) of
        Inl e \<Rightarrow> Inl e
      | Inr _ \<Rightarrow> Inr (\<lparr>cr3 = gpa, table_count = count, layout_bytes = 4096 * count\<rparr>, img))"

lemma built_eqI:
  assumes "unat gpa + 4096 * count \<le> length mem \<Longrightarrow>
      k (unat gpa, 4096 * count, unat gpa + 4096 * count) =
      Inr (\<lparr>cr3 = gpa, table_count = count, layout_bytes = 4096 * count\<rparr>, img)"
  shows "(case table_region gpa count (length mem) of Inl e \<Rightarrow> Inl e | Inr x \<Rightarrow> k x) = built gpa count img mem"
  using assms table_region_cases [of gpa count "length mem"] by (auto simp: built_def)

definition frames :: "u64 \<Rightarrow> nat" where
  "frames n = (unat n + 2 ^ 21 - 1) div 2 ^ 21"

definition tables_for :: "nat \<Rightarrow> nat" where
  "tables_for n = (n + 512 - 1) div 512"

lemma unat_counts:
  "unat (div_ceil_u64 n HUGE_2MIB) = frames n" "unat (div_ceil_u64 m TABLE_ENTRIES) = tables_for (unat m)"
  "m > TABLE_ENTRIES \<longleftrightarrow> 512 < unat m"
  by (simp_all add: unat_div_ceil HUGE_2MIB_def TABLE_ENTRIES_def frames_def tables_for_def word_less_nat_alt)

lemma gpa_slots: "gpa AND (PAGE_SIZE - 1) = 0 \<Longrightarrow> unat gpa = 8 * (unat gpa div 8)"
proof -
  assume "gpa AND (PAGE_SIZE - 1) = 0"
  from page_aligned [OF this] have "2 ^ 3 dvd unat gpa" by (rule dvd_trans [rotated]) simp
  then show ?thesis by simp
qed

lemma poke_single:
  assumes "gpa AND (PAGE_SIZE - 1) = 0"
  shows "poke (level (unat gpa div 8) f [0]) mem = write_entry (unat gpa) (f 0) mem"
    "poke (level (unat gpa div 8 + 512) f [0]) mem = write_entry (unat gpa + 4096) (f 0) mem"
    "poke (level (unat gpa div 8 + 1024) f [0]) mem = write_entry (unat gpa + 8192) (f 0) mem"
  using gpa_slots [OF assms] by (simp_all add: poke_def level_def)

lemmas layout_unfold = layout_image_def layout_writes_def poke_append huge_leaf_def [abs_def] small_leaf_def [abs_def]
  Let_def level_def [of _ _ "[]"] poke_def [of "[]"]

lemma build_2mib_multi_eq:
  assumes "bytes \<noteq> 0" "gpa AND (PAGE_SIZE - 1) = 0" "tables_for (tables_for (frames bytes)) \<le> 512"
    and n: "n2 = frames bytes" "n3 = tables_for n2" "n4 = tables_for n3"
  shows "build_identity_map_2mib_multi gpa bytes fl mem = built gpa (1 + n4 + n3)
    (layout_image gpa (PRESENT OR WRITABLE) n4 n3 (huge_leaf fl) n2 (\<lambda>_. 0) [] (1 + n4 + n3) mem) mem"
  unfolding build_identity_map_2mib_multi_def using assms(1-3)
  apply (simp only: unat_counts n [symmetric] Let_def if_False simp_thms not_less [symmetric])
  apply (rule built_eqI)
  apply (simp only: prod.case level_loops [OF gpa_slots] table_ptr_of)
  apply (simp add: layout_unfold)
  done

lemma build_2mib_with_eq:
  assumes "bytes \<noteq> 0" "gpa AND (PAGE_SIZE - 1) = 0" "tables_for (frames bytes) \<le> 512"
    and n: "n2 = frames bytes" "n3 = tables_for n2"
  shows "build_identity_map_2mib_with gpa bytes fl tf mem = built gpa (2 + n3)
    (layout_image gpa tf 1 n3 (huge_leaf fl) n2 (\<lambda>_. 0) [] (2 + n3) mem) mem"
  unfolding build_identity_map_2mib_with_def using assms(1-3)
  apply (simp only: unat_counts n [symmetric] Let_def if_False simp_thms not_less [symmetric])
  apply (rule built_eqI)
  apply (simp only: prod.case level_loops [OF gpa_slots] table_ptr_of)
  apply (simp add: layout_unfold poke_single)
  done

lemma build_4kib_multi_eq:
  assumes "n \<noteq> 0" "gpa AND (PAGE_SIZE - 1) = 0" "tables_for (tables_for (unat n)) \<le> 512"
    and g: "List.find (\<lambda>g. g \<ge> n) guards = None" and c: "n2 = tables_for (unat n)" "n3 = tables_for n2"
  shows "build_identity_map_4kib_multi gpa n fl guards mem = built gpa (2 + n3 + n2)
    (layout_image gpa (PRESENT OR WRITABLE) 1 n3 (\<lambda>t. table_ptr gpa (PRESENT OR WRITABLE) (1 + 1 + n3 + t)) n2
      (small_leaf fl) (filter (\<lambda>page. of_nat page \<notin> set guards) [0..<unat n]) (2 + n3 + n2) mem) mem"
  unfolding build_identity_map_4kib_multi_def g option.case using assms(1-3)
  apply (simp only: unat_counts c [symmetric] Let_def if_False simp_thms not_less [symmetric])
  apply (rule built_eqI)
  apply (simp only: prod.case level_loops [OF gpa_slots] table_ptr_of)
  apply (simp add: layout_unfold poke_single PAGE_BYTES_def)
  done

lemma build_4kib_eq:
  assumes "n \<noteq> 0" "gpa AND (PAGE_SIZE - 1) = 0" "n \<le> 512" and g: "List.find (\<lambda>g. g \<ge> n) guards = None"
  shows "build_identity_map_4kib gpa n fl guards mem = built gpa 4
    (layout_image gpa (PRESENT OR WRITABLE) 1 1 (\<lambda>t. table_ptr gpa (PRESENT OR WRITABLE) (1 + 1 + 1 + t)) 1
      (small_leaf fl) (filter (\<lambda>page. of_nat page \<notin> set guards) [0..<unat n]) 4 mem) mem"
  unfolding build_identity_map_4kib_def g option.case using assms(1-3)
  apply (simp only: TABLE_ENTRIES_def Let_def if_False simp_thms not_less [symmetric])
  apply (rule built_eqI)
  apply (simp only: prod.case level_loops [OF gpa_slots] table_ptr_of)
  apply (simp add: layout_unfold poke_single PAGE_BYTES_def numeral_2_eq_2 numeral_3_eq_3)
  done

lemma built_fits:
  "unat gpa + 4096 * count \<le> length mem \<Longrightarrow> length mem < 2 ^ 64 \<Longrightarrow>
   built gpa count img mem = Inr (\<lparr>cr3 = gpa, table_count = count, layout_bytes = 4096 * count\<rparr>, img)"
  by (simp add: built_def table_region_def PAGE_BYTES_def Let_def)

lemma built_InrD:
  assumes "built gpa count img mem = Inr (l, mem')"
  shows "cr3 l = gpa" "layout_bytes l = 4096 * count" "mem' = img" "unat gpa + 4096 * count \<le> length mem"
  using assms table_region_cases [of gpa count "length mem"] by (auto simp: built_def)

lemma layout_image_outside:
  assumes fit: "layout_fits gpa n4 n3 n2 pts ks1 count mem" and i: "i < unat gpa \<or> unat gpa + 4096 * count \<le> i"
  shows "layout_image gpa tf n4 n3 f2 n2 f1 ks1 count mem ! i = mem ! i"
proof -
  define b where "b = unat gpa div 8"
  have g: "unat gpa = 8 * b" using fit by (simp add: b_def layout_fits_def)
  have fin: "unat gpa + 4096 * count \<le> length mem" using fit by (simp add: layout_fits_def)
  let ?z = "fill_zero (unat gpa) (unat gpa + 4096 * count) mem"
  have z: "length ?z = length mem" using fin by (simp add: fill_zero_def)
  have "poke (layout_writes gpa tf n4 n3 f2 n2 f1 ks1) ?z ! i = ?z ! i"
  proof (rule poke_outside [OF _ i])
    have "b \<le> q \<and> q < b + 512 * count" if "(q, e) \<in> set (layout_writes gpa tf n4 n3 f2 n2 f1 ks1)" for q e
      using that fit unfolding layout_writes_def Let_def b_def [symmetric]
      by (fastforce simp: set_level layout_fits_def)
    then show "\<forall>(q, e) \<in> set (layout_writes gpa tf n4 n3 f2 n2 f1 ks1).
        unat gpa \<le> 8 * q \<and> 8 * q + 8 \<le> unat gpa + 4096 * count \<and> unat gpa + 4096 * count \<le> length ?z"
      using g z fin by fastforce
  qed
  also have "?z ! i = mem ! i"
    unfolding fill_zero_def using fin i by (intro nth_copy_outside) auto
  finally show ?thesis by (simp add: layout_image_def)
qed

lemma tables_for_ge: "n \<le> 512 * tables_for n"
  using ceil_ge [of 512 n] by (simp add: tables_for_def)

lemma less_frames: "k < frames n \<longleftrightarrow> k * 2 ^ 21 < unat n"
  unfolding frames_def by (rule ceil_less_iff) simp

lemma rights_of:
  "(PRESENT OR WRITABLE) AND fl AND (WRITABLE OR USER) = fl AND WRITABLE"
  "(PRESENT OR WRITABLE OR USER) AND (fl OR WRITABLE OR USER) AND (WRITABLE OR USER) = WRITABLE OR USER"
  by (rule bit_word_eqI; auto simp: bit_and_iff bit_or_iff PRESENT_def WRITABLE_def USER_def bit_1_iff)+

text \<open>A 2 MiB layout translates the frames that meet the mapped range to themselves, and nothing else.\<close>

lemma huge_layout:
  assumes al: "gpa AND (PAGE_SIZE - 1) = 0" and n: "n2 = frames bytes" "n3 = tables_for n2" "n3 \<le> 512 * n4" "n4 \<le> 512"
    and mem: "unat gpa + 4096 * (1 + n4 + n3) \<le> length mem" "length mem \<le> 2 ^ 52"
    and fl: "fl AND HUGE_2MIB_ADDR_MASK = 0" and tf: "pointer_flags tf" and v: "unat v < 2 ^ 48"
    and img: "img = layout_image gpa tf n4 n3 (huge_leaf fl) n2 (\<lambda>_. 0) [] (1 + n4 + n3) mem"
  shows "translate img gpa v =
      (if unat v div 2 ^ 21 * 2 ^ 21 < unat bytes then Some (v, tf AND fl AND (WRITABLE OR USER)) else None)"
    and "i < unat gpa \<or> unat gpa + 4096 * (1 + n4 + n3) \<le> i \<Longrightarrow> img ! i = mem ! i"
proof -
  have "8 dvd unat gpa" using gpa_slots [OF al] by (metis dvd_triv_left)
  then have fit: "layout_fits gpa n4 n3 n2 0 [] (1 + n4 + n3) mem"
    using n mem tables_for_ge [of n2] by (simp add: layout_fits_def)
  show "translate img gpa v =
      (if unat v div 2 ^ 21 * 2 ^ 21 < unat bytes then Some (v, tf AND fl AND (WRITABLE OR USER)) else None)"
    using translate_layout [OF fit page_aligned [OF al] mem(2) tf v img] walk_huge [OF v fl]
    by (simp only: n(1) less_frames huge_leaf_def)
  show "i < unat gpa \<or> unat gpa + 4096 * (1 + n4 + n3) \<le> i \<Longrightarrow> img ! i = mem ! i"
    unfolding img by (rule layout_image_outside [OF fit])
qed

section \<open>Correctness\<close>

text \<open>The 2 MiB builder for up to 256 TiB is an identity map.  When it succeeds, the
  architectural walk through the tables it has written takes every 48-bit address whose frame meets the
  requested range to itself, with exactly the write right asked for, and finds every other address not
  present; no byte outside the tables changes.\<close>

theorem identity_map_2mib:
  assumes "build_identity_map_2mib_multi gpa bytes fl mem = Inr (l, mem')"
    and "length mem \<le> 2 ^ 52" "fl AND HUGE_2MIB_ADDR_MASK = 0" "unat v < 2 ^ 48"
  shows "translate mem' (cr3 l) v =
      (if unat v div 2 ^ 21 * 2 ^ 21 < unat bytes then Some (v, fl AND WRITABLE) else None) \<and>
    (\<forall>i. i < unat gpa \<or> unat gpa + layout_bytes l \<le> i \<longrightarrow> mem' ! i = mem ! i)"
proof -
  define n2 n3 n4 where "n2 = frames bytes" and "n3 = tables_for n2" and "n4 = tables_for n3"
  have c: "bytes \<noteq> 0" "gpa AND (PAGE_SIZE - 1) = 0" "n4 \<le> 512"
    using assms(1) by (auto simp: build_identity_map_2mib_multi_def Let_def unat_counts n2_def n3_def n4_def not_less
        split: if_splits)
  note eq = build_2mib_multi_eq [OF c(1,2) c(3) [unfolded n4_def n3_def n2_def] n2_def n3_def n4_def]
  note d = built_InrD [OF assms(1) [unfolded eq]]
  have n34: "n3 \<le> 512 * n4" unfolding n4_def by (rule tables_for_ge)
  have pf: "pointer_flags (PRESENT OR WRITABLE)" by (simp add: pointer_flags_def)
  note h = huge_layout [OF c(2) n2_def n3_def n34 c(3) d(4) assms(2,3) pf assms(4) d(3)]
  show ?thesis using h(1) h(2) by (simp only: d(1,2) rights_of) blast
qed

theorem identity_map_2mib_witness:
  "\<exists>l mem'. build_identity_map_2mib_multi 0 0x300000 WRITABLE (replicate 12288 0) = Inr (l, mem') \<and>
     translate mem' (cr3 l) 0x3FFFFF = Some (0x3FFFFF, WRITABLE) \<and> translate mem' (cr3 l) 0x400000 = None"
proof -
  have n: "2 = frames 0x300000" "1 = tables_for 2" "1 = tables_for 1" by (simp_all add: frames_def tables_for_def)
  obtain l mem' where b: "build_identity_map_2mib_multi 0 0x300000 WRITABLE (replicate 12288 0) = Inr (l, mem')"
    using build_2mib_multi_eq [of "0x300000" 0 2 1 1 WRITABLE "replicate 12288 0"] n
    by (simp add: built_fits)
  have "length (replicate 12288 (0 :: u8)) \<le> 2 ^ 52" "WRITABLE AND HUGE_2MIB_ADDR_MASK = 0"
    by (simp_all add: WRITABLE_def HUGE_2MIB_ADDR_MASK_def bitmask_def)
  note t = identity_map_2mib [OF b this]
  have "translate mem' (cr3 l) 0x3FFFFF = Some (0x3FFFFF, WRITABLE)" "translate mem' (cr3 l) 0x400000 = None"
    using t [of "0x3FFFFF"] t [of "0x400000"] by simp_all
  with b show ?thesis by blast
qed

text \<open>C8 (safety).  The nested page table is usable by guest user mode.  When the NPT builder succeeds, every
  guest-physical address whose frame meets the requested range translates to itself with both the write
  and the user right present at every level of the walk, whatever extra leaf flags outside the address
  field are given, and every other 48-bit address faults.\<close>

theorem npt_identity_map:
  assumes "build_npt_identity_map_2mib gpa bytes fl mem = Inr (l, mem')"
    and "length mem \<le> 2 ^ 52" "fl AND HUGE_2MIB_ADDR_MASK = 0" "unat v < 2 ^ 48"
  shows "translate mem' (cr3 l) v =
      (if unat v div 2 ^ 21 * 2 ^ 21 < unat bytes then Some (v, WRITABLE OR USER) else None)"
proof -
  define n2 n3 where "n2 = frames bytes" and "n3 = tables_for n2"
  let ?tf = "PRESENT OR WRITABLE OR USER" and ?fl = "fl OR WRITABLE OR USER"
  note b = assms(1) [unfolded build_npt_identity_map_2mib_def]
  have c: "bytes \<noteq> 0" "gpa AND (PAGE_SIZE - 1) = 0" "n3 \<le> 512 * 1"
    using b by (auto simp: build_identity_map_2mib_with_def Let_def unat_counts n2_def n3_def not_less split: if_splits)
  have n3: "tables_for (frames bytes) \<le> 512" using c(3) by (simp add: n2_def n3_def)
  note eq = build_2mib_with_eq [OF c(1,2) n3 n2_def n3_def]
  note d = built_InrD [OF b [unfolded eq]]
  have cnt: "2 + n3 = 1 + 1 + n3" by simp
  have pf: "pointer_flags ?tf" by (simp add: pointer_flags_def)
  have fl: "?fl AND HUGE_2MIB_ADDR_MASK = 0"
    using assms(3) by (simp add: bit.conj_disj_distrib2 WRITABLE_def USER_def HUGE_2MIB_ADDR_MASK_def bitmask_def)
  have one: "(1 :: nat) \<le> 512" by simp
  note h = huge_layout(1) [OF c(2) n2_def n3_def c(3) one d(4) [unfolded cnt] assms(2) fl pf assms(4) d(3) [unfolded cnt]]
  show ?thesis using h by (simp only: d(1) rights_of)
qed

theorem npt_identity_map_witness:
  "\<exists>l mem'. build_npt_identity_map_2mib 0 0x300000 NO_CACHE (replicate 12288 0) = Inr (l, mem') \<and>
     translate mem' (cr3 l) 0x123456 = Some (0x123456, WRITABLE OR USER) \<and> translate mem' (cr3 l) 0x400000 = None"
proof -
  have n: "2 = frames 0x300000" "1 = tables_for 2" by (simp_all add: frames_def tables_for_def)
  obtain l mem' where b: "build_npt_identity_map_2mib 0 0x300000 NO_CACHE (replicate 12288 0) = Inr (l, mem')"
    using build_2mib_with_eq [of "0x300000" 0 2 1 "NO_CACHE OR WRITABLE OR USER" "PRESENT OR WRITABLE OR USER"
        "replicate 12288 0"] n
    by (simp add: built_fits build_npt_identity_map_2mib_def)
  have "length (replicate 12288 (0 :: u8)) \<le> 2 ^ 52" "NO_CACHE AND HUGE_2MIB_ADDR_MASK = 0"
    by (simp_all add: NO_CACHE_def HUGE_2MIB_ADDR_MASK_def bitmask_def)
  note t = npt_identity_map [OF b this]
  have "translate mem' (cr3 l) 0x123456 = Some (0x123456, WRITABLE OR USER)" "translate mem' (cr3 l) 0x400000 = None"
    using t [of "0x123456"] t [of "0x400000"] by simp_all
  with b show ?thesis by blast
qed

text \<open>C14 (functional).  The 4 KiB builder is an identity map with holes at the guard pages.  When it
  succeeds, the walk takes every address of the requested pages to itself unless its page is a guard
  page; a guard page and every other 48-bit address are not present, and no byte outside the tables
  changes.\<close>

theorem identity_map_4kib:
  assumes "build_identity_map_4kib_multi gpa n fl guards mem = Inr (l, mem')"
    and "length mem \<le> 2 ^ 52" "fl AND TABLE_ADDR_MASK = 0" "unat v < 2 ^ 48"
  shows "translate mem' (cr3 l) v =
      (if unat v div 2 ^ 12 < unat n \<and> v div PAGE_SIZE \<notin> set guards then Some (v, fl AND WRITABLE) else None) \<and>
    (\<forall>i. i < unat gpa \<or> unat gpa + layout_bytes l \<le> i \<longrightarrow> mem' ! i = mem ! i)"
proof -
  define n2 n3 where "n2 = tables_for (unat n)" and "n3 = tables_for n2"
  define ks where "ks = filter (\<lambda>page. of_nat page \<notin> set guards) [0..<unat n]"
  let ?tf = "PRESENT OR WRITABLE" and ?f2 = "\<lambda>t. table_ptr gpa (PRESENT OR WRITABLE) (1 + 1 + n3 + t)"
  have c: "n \<noteq> 0" "gpa AND (PAGE_SIZE - 1) = 0" "n3 \<le> 512"
    and g: "List.find (\<lambda>g. g \<ge> n) guards = None"
    using assms(1) by (auto simp: build_identity_map_4kib_multi_def Let_def unat_counts n2_def n3_def not_less
        split: if_splits option.splits)
  note eq = build_4kib_multi_eq [OF c(1,2) c(3) [unfolded n3_def n2_def] g n2_def n3_def, folded ks_def]
  note d = built_InrD [OF assms(1) [unfolded eq]]
  have img: "mem' = layout_image gpa ?tf 1 n3 ?f2 n2
      (\<lambda>page. pte_entry (of_nat page * PAGE_SIZE) (fl OR PRESENT)) ks (2 + n3 + n2) mem"
    using d(3) by (simp only: small_leaf_def [abs_def])
  have "8 dvd unat gpa" using gpa_slots [OF c(2)] by (metis dvd_triv_left)
  moreover have ks: "k < 512 * n2" if "k \<in> set ks" for k
    using that tables_for_ge [of "unat n"] by (simp add: ks_def n2_def)
  ultimately have fit: "layout_fits gpa 1 n3 n2 n2 ks (2 + n3 + n2) mem"
    using c(3) d(4) tables_for_ge [of n2] by (simp add: layout_fits_def n3_def)
  have pf: "pointer_flags ?tf" by (simp add: pointer_flags_def)
  note t = translate_layout [OF fit page_aligned [OF c(2)] assms(2) pf assms(4) img]
  have page: "unat v div 2 ^ 12 \<in> set ks \<longleftrightarrow> unat v div 2 ^ 12 < unat n \<and> v div PAGE_SIZE \<notin> set guards"
  proof -
    have "(of_nat (unat v div 2 ^ 12) :: u64) = v div PAGE_SIZE"
      by (simp add: word_unat_eq_iff unat_div PAGE_SIZE_def unat_of_nat_small [OF le_less_trans [OF div_le_dividend unat_bound]])
    then show ?thesis by (auto simp: ks_def)
  qed
  have "translate mem' gpa v = (if unat v div 2 ^ 12 \<in> set ks then Some (v, fl AND WRITABLE) else None)"
  proof (cases "unat v div 2 ^ 21 < n2")
    case True
    with t walk_small [OF fit page_aligned [OF c(2)] assms(2) pf assms(4) True assms(3) img] show ?thesis
      by (simp only: rights_of if_True)
  next
    case False
    then have "unat v div 2 ^ 12 \<notin> set ks"
      using ks [of "unat v div 2 ^ 12"] index_split(4) [OF assms(4)] by auto
    with t False show ?thesis by (simp only: if_False)
  qed
  moreover have "mem' ! i = mem ! i" if "i < unat gpa \<or> unat gpa + layout_bytes l \<le> i" for i
    unfolding img by (rule layout_image_outside [OF fit]) (use that in \<open>simp only: d(2)\<close>)
  ultimately show ?thesis by (simp only: d(1) page) blast
qed

theorem identity_map_4kib_witness:
  "\<exists>l mem'. build_identity_map_4kib_multi 0 4 WRITABLE [2] (replicate 16384 0) = Inr (l, mem') \<and>
     translate mem' (cr3 l) 0x1ABC = Some (0x1ABC, WRITABLE) \<and> translate mem' (cr3 l) 0x2ABC = None \<and>
     translate mem' (cr3 l) 0x4000 = None"
proof -
  have n: "1 = tables_for (unat (4 :: u64))" "1 = tables_for 1" by (simp_all add: tables_for_def)
  obtain l mem' where b: "build_identity_map_4kib_multi 0 4 WRITABLE [2] (replicate 16384 0) = Inr (l, mem')"
    using build_4kib_multi_eq [of 4 0 "[2]" 1 1 WRITABLE "replicate 16384 0"] n by (simp add: built_fits)
  have "length (replicate 16384 (0 :: u8)) \<le> 2 ^ 52" "WRITABLE AND TABLE_ADDR_MASK = 0"
    by (simp_all add: WRITABLE_def TABLE_ADDR_MASK_def bitmask_def)
  note t = identity_map_4kib [OF b this]
  have "translate mem' (cr3 l) 0x1ABC = Some (0x1ABC, WRITABLE)" "translate mem' (cr3 l) 0x2ABC = None"
    "translate mem' (cr3 l) 0x4000 = None"
    using t [of "0x1ABC"] t [of "0x2ABC"] t [of "0x4000"] by (simp_all add: PAGE_SIZE_def)
  with b show ?thesis by blast
qed

text \<open>The single-table builders are the special cases of the general ones: for a map of
  at most 512 GiB the one-PDPT 2 MiB builder, and for at most 512 pages the one-table 4 KiB builder, returns
  exactly what the multi-table builder returns, errors included, and leaves the same bytes.\<close>

theorem single_multi_agree:
  assumes "unat bytes \<le> 2 ^ 39" "n \<le> 512"
  shows "build_identity_map_2mib gpa bytes fl mem = build_identity_map_2mib_multi gpa bytes fl mem \<and>
    build_identity_map_4kib gpa n fl guards mem = build_identity_map_4kib_multi gpa n fl guards mem"
proof
  have one: "tables_for k = 1" if "0 < k" "k \<le> 512" for k
    using that by (auto simp: tables_for_def intro: div_nat_eqI)
  show "build_identity_map_2mib gpa bytes fl mem = build_identity_map_2mib_multi gpa bytes fl mem"
  proof (cases "bytes = 0 \<or> gpa AND (PAGE_SIZE - 1) \<noteq> 0")
    case True
    then show ?thesis
      by (auto simp: build_identity_map_2mib_def build_identity_map_2mib_with_def build_identity_map_2mib_multi_def)
  next
    case False
    define n2 n3 where "n2 = frames bytes" and "n3 = tables_for n2"
    have "\<not> 2 ^ 18 < n2" using less_frames [of "2 ^ 18" bytes] assms(1) by (simp add: n2_def)
    then have n3: "n3 \<le> 512" using ceil_less_iff [of 512 512 n2] by (simp add: n3_def tables_for_def)
    have "0 < n2" using False less_frames [of 0 bytes] by (simp add: n2_def unat_gt_0)
    then have "0 < n3" using tables_for_ge [of n2] by (simp add: n3_def)
    with n3 have n4: "1 = tables_for n3" by (simp add: one)
    have c: "bytes \<noteq> 0" "gpa AND (PAGE_SIZE - 1) = 0" "tables_for (frames bytes) \<le> 512"
      "tables_for (tables_for (frames bytes)) \<le> 512" using False n3 n4 by (simp_all add: n2_def n3_def)
    have "1 + 1 + n3 = 2 + n3" by simp
    then show ?thesis
      unfolding build_identity_map_2mib_def build_2mib_with_eq [OF c(1-3) n2_def n3_def]
        build_2mib_multi_eq [OF c(1,2,4) n2_def n3_def n4] by (simp only:)
  qed
  show "build_identity_map_4kib gpa n fl guards mem = build_identity_map_4kib_multi gpa n fl guards mem"
  proof (cases "n = 0 \<or> gpa AND (PAGE_SIZE - 1) \<noteq> 0")
    case True
    then show ?thesis by (auto simp: build_identity_map_4kib_def build_identity_map_4kib_multi_def)
  next
    case False
    have "unat n \<le> 512" using assms(2) by (simp add: word_le_nat_alt)
    then have t: "tables_for (unat n) = 1" "tables_for 1 = 1" using False by (simp_all add: one unat_gt_0)
    show ?thesis
    proof (cases "List.find (\<lambda>g. g \<ge> n) guards")
      case None
      then show ?thesis
        using build_4kib_multi_eq [of n gpa guards 1 1 fl mem] build_4kib_eq [of n gpa guards fl mem] False t assms(2)
        by simp
    next
      case (Some g)
      have "\<not> TABLE_ENTRIES < div_ceil_u64 (div_ceil_u64 n TABLE_ENTRIES) TABLE_ENTRIES" "\<not> TABLE_ENTRIES < n"
        using t \<open>unat n \<le> 512\<close> by (simp_all add: unat_counts)
      with Some False show ?thesis
        by (simp add: build_identity_map_4kib_def build_identity_map_4kib_multi_def Let_def)
    qed
  qed
qed

theorem single_multi_agree_witness:
  "build_identity_map_2mib 0x1000 0x300000 WRITABLE (replicate 100 0) =
     build_identity_map_2mib_multi 0x1000 0x300000 WRITABLE (replicate 100 0) \<and>
   build_identity_map_4kib 0x1000 4 WRITABLE [2] (replicate 100 0) =
     build_identity_map_4kib_multi 0x1000 4 WRITABLE [2] (replicate 100 0)"
  by (rule single_multi_agree) simp_all

end
