(* ===== verification/Scheduler.thy ===== *)
theory Scheduler
  imports Prelude "HOL-Library.Multiset" "HOL-Library.Sublist"
begin

text \<open>
  The priority scheduler (\<open>enlil-platform/src/threading/scheduler.rs\<close>): per-CPU run queues with one lane
  per priority, least-loaded submission, work stealing, and the priority-inheritance tracker of a lock.
  The closure of a task is the type parameter \<open>'w\<close>.  Each operation is first a function on the state, the
  behaviour of one call that nobody interleaves with; the calls of \<open>push\<close>, \<open>pop\<close> and \<open>steal\<close> are also broken
  into their atomic steps (the lane under its mutex, then the task counter), and a step relation
  interleaves them.
\<close>

section \<open>Priorities\<close>

datatype Priority = Critical | High | Normal | Low

definition COUNT :: nat where "COUNT = 4"

fun as_index :: "Priority \<Rightarrow> nat" where
  "as_index Critical = 0"
| "as_index High = 1"
| "as_index Normal = 2"
| "as_index Low = 3"

lemma as_index_eq [simp]: "as_index p = as_index q \<longleftrightarrow> p = q"
  by (cases p; cases q) simp_all

text \<open>The derived order of the enum: by discriminant.\<close>

instantiation Priority :: linorder
begin

definition less_eq_Priority :: "Priority \<Rightarrow> Priority \<Rightarrow> bool" where
  "less_eq_Priority p q \<longleftrightarrow> as_index p \<le> as_index q"

definition less_Priority :: "Priority \<Rightarrow> Priority \<Rightarrow> bool" where
  "less_Priority p q \<longleftrightarrow> as_index p < as_index q"

instance
  by standard (auto simp: less_eq_Priority_def less_Priority_def intro: antisym)

end

lemma as_index_less: "as_index p < 4"
  by (cases p) simp_all

record 'w SchedulerTask =
  task_id :: u64
  priority :: Priority
  work :: 'w

definition task_new :: "u64 \<Rightarrow> Priority \<Rightarrow> 'w \<Rightarrow> 'w SchedulerTask" where
  "task_new i p w = \<lparr>task_id = i, priority = p, work = w\<rparr>"

section \<open>Run queues\<close>

record 'w RunQueue =
  queues :: "'w SchedulerTask list list"
  rq_len :: u64
  cpu_id :: nat

definition rq_new :: "nat \<Rightarrow> 'w RunQueue" where
  "rq_new cpu = \<lparr>queues = [[], [], [], []], rq_len = 0, cpu_id = cpu\<rparr>"

definition rq_enqueue :: "'w SchedulerTask \<Rightarrow> 'w RunQueue \<Rightarrow> 'w RunQueue" where
  "rq_enqueue task rq =
     (let idx = as_index (priority task) in rq\<lparr>queues := (queues rq)[idx := queues rq ! idx @ [task]]\<rparr>)"

definition push :: "'w SchedulerTask \<Rightarrow> 'w RunQueue \<Rightarrow> 'w RunQueue" where
  "push task rq = (rq_enqueue task rq)\<lparr>rq_len := rq_len rq + 1\<rparr>"

text \<open>The scan of the lanes in order, each popped at the front, and in reverse order, popped at the back.\<close>

fun pop_scan :: "'a list list \<Rightarrow> ('a \<times> 'a list list) option" where
  "pop_scan [] = None"
| "pop_scan ((x # xs) # qs) = Some (x, xs # qs)"
| "pop_scan ([] # qs) = (case pop_scan qs of None \<Rightarrow> None | Some (x, qs') \<Rightarrow> Some (x, [] # qs'))"

fun steal_scan :: "'a list list \<Rightarrow> ('a \<times> 'a list list) option" where
  "steal_scan [] = None"
| "steal_scan (q # qs) =
     (if q \<noteq> [] then Some (last q, butlast q # qs)
      else case steal_scan qs of None \<Rightarrow> None | Some (x, qs') \<Rightarrow> Some (x, q # qs'))"

definition rq_dequeue :: "'w RunQueue \<Rightarrow> ('w SchedulerTask \<times> 'w RunQueue) option" where
  "rq_dequeue rq = map_option (\<lambda>(t, qs). (t, rq\<lparr>queues := qs\<rparr>)) (pop_scan (queues rq))"

definition rq_dequeue_back :: "'w RunQueue \<Rightarrow> ('w SchedulerTask \<times> 'w RunQueue) option" where
  "rq_dequeue_back rq = map_option (\<lambda>(t, qs). (t, rq\<lparr>queues := rev qs\<rparr>)) (steal_scan (rev (queues rq)))"

definition pop :: "'w RunQueue \<Rightarrow> 'w SchedulerTask option \<times> 'w RunQueue" where
  "pop rq =
     (case rq_dequeue rq of
        Some (task, rq') \<Rightarrow> (Some task, rq'\<lparr>rq_len := rq_len rq - 1\<rparr>)
      | None \<Rightarrow> (None, rq))"

definition steal :: "'w RunQueue \<Rightarrow> 'w SchedulerTask option \<times> 'w RunQueue" where
  "steal rq =
     (case rq_dequeue_back rq of
        Some (task, rq') \<Rightarrow> (Some task, rq'\<lparr>rq_len := rq_len rq - 1\<rparr>)
      | None \<Rightarrow> (None, rq))"

definition rq_is_empty :: "'w RunQueue \<Rightarrow> bool" where
  "rq_is_empty rq \<longleftrightarrow> rq_len rq = 0"

section \<open>The scheduler\<close>

record 'w Scheduler =
  run_queues :: "'w RunQueue list"
  next_task_id :: u64
  running :: bool

definition sched_new :: "nat \<Rightarrow> 'w Scheduler" where
  "sched_new num_cpus = \<lparr>run_queues = map rq_new [0..<num_cpus], next_task_id = 0, running = False\<rparr>"

text \<open>\<open>submit_to\<close> panics (remainder by zero) on a scheduler with no CPUs; \<open>None\<close> there.\<close>

definition submit_to :: "nat \<Rightarrow> Priority \<Rightarrow> 'w \<Rightarrow> 'w Scheduler \<Rightarrow> (u64 \<times> 'w Scheduler) option" where
  "submit_to cpu p w s =
     (let i = next_task_id s; n = length (run_queues s) in
      if n = 0 then None
      else Some (i, s\<lparr>run_queues := (run_queues s)[cpu mod n := push (task_new i p w) (run_queues s ! (cpu mod n))],
                     next_task_id := i + 1\<rparr>))"

definition least_loaded_cpu :: "'w Scheduler \<Rightarrow> nat" where
  "least_loaded_cpu s = (case min_index (\<lambda>_. True) rq_len (run_queues s) of None \<Rightarrow> 0 | Some i \<Rightarrow> i)"

definition submit :: "Priority \<Rightarrow> 'w \<Rightarrow> 'w Scheduler \<Rightarrow> (u64 \<times> 'w Scheduler) option" where
  "submit p w s = submit_to (least_loaded_cpu s) p w s"

definition steal_candidates :: "nat \<Rightarrow> 'w Scheduler \<Rightarrow> (nat \<times> u64) list" where
  "steal_candidates for_cpu s =
     sort_key (\<lambda>a. NOT (snd a))
       (filter (\<lambda>(_, len). len > 1)
         (map (\<lambda>(i, rq). (i, rq_len rq))
           (filter (\<lambda>(i, _). i \<noteq> for_cpu) (List.enumerate 0 (run_queues s)))))"

fun steal_from :: "(nat \<times> u64) list \<Rightarrow> 'w Scheduler \<Rightarrow> 'w SchedulerTask option \<times> 'w Scheduler" where
  "steal_from [] s = (None, s)"
| "steal_from ((cpu, l) # cs) s =
     (case steal (run_queues s ! cpu) of
        (Some task, rq) \<Rightarrow> (Some task, s\<lparr>run_queues := (run_queues s)[cpu := rq]\<rparr>)
      | (None, _) \<Rightarrow> steal_from cs s)"

definition try_steal :: "nat \<Rightarrow> 'w Scheduler \<Rightarrow> 'w SchedulerTask option \<times> 'w Scheduler" where
  "try_steal for_cpu s = steal_from (steal_candidates for_cpu s) s"

definition total_tasks :: "'w Scheduler \<Rightarrow> u64" where
  "total_tasks s = sum_list (map rq_len (run_queues s))"

definition start :: "'w Scheduler \<Rightarrow> 'w Scheduler" where "start s = s\<lparr>running := True\<rparr>"
definition stop :: "'w Scheduler \<Rightarrow> 'w Scheduler" where "stop s = s\<lparr>running := False\<rparr>"

section \<open>Priority inheritance\<close>

record PriorityInheritance =
  pi_base :: Priority
  waiters :: "Priority list"

definition pi_new :: "Priority \<Rightarrow> PriorityInheritance" where
  "pi_new b = \<lparr>pi_base = b, waiters = []\<rparr>"

definition add_waiter :: "Priority \<Rightarrow> PriorityInheritance \<Rightarrow> PriorityInheritance" where
  "add_waiter p l = l\<lparr>waiters := waiters l @ [p]\<rparr>"

text \<open>\<open>swap_remove\<close>: the last element takes the place of the removed one.\<close>

definition swap_remove :: "nat \<Rightarrow> 'a list \<Rightarrow> 'a list" where
  "swap_remove i xs = butlast (xs[i := last xs])"

definition remove_waiter :: "Priority \<Rightarrow> PriorityInheritance \<Rightarrow> bool \<times> PriorityInheritance" where
  "remove_waiter p l =
     (case position (\<lambda>w. w = p) (waiters l) of
        Some i \<Rightarrow> (True, l\<lparr>waiters := swap_remove i (waiters l)\<rparr>)
      | None \<Rightarrow> (False, l))"

definition set_base :: "Priority \<Rightarrow> PriorityInheritance \<Rightarrow> PriorityInheritance" where
  "set_base b l = l\<lparr>pi_base := b\<rparr>"

definition effective :: "PriorityInheritance \<Rightarrow> Priority" where
  "effective l = (case waiters l of [] \<Rightarrow> pi_base l | w # ws \<Rightarrow> min (fold min ws w) (pi_base l))"

definition is_boosted :: "PriorityInheritance \<Rightarrow> bool" where
  "is_boosted l \<longleftrightarrow> effective l \<noteq> pi_base l"

section \<open>Priority-ordered double-ended queues\<close>

text \<open>Insertion behind every element whose key is not greater: first in, first out within a key.\<close>

definition pinsert :: "('a \<Rightarrow> 'k::linorder) \<Rightarrow> 'a \<Rightarrow> 'a list \<Rightarrow> 'a list" where
  "pinsert key x xs = takeWhile (\<lambda>y. key y \<le> key x) xs @ x # dropWhile (\<lambda>y. key y \<le> key x) xs"

lemma while_split:
  assumes "\<forall>x \<in> set xs. P x" "\<forall>y \<in> set ys. \<not> P y"
  shows "takeWhile P (xs @ ys) = xs" "dropWhile P (xs @ ys) = ys"
  using assms by (induction xs) (auto simp: takeWhile_eq_Nil_iff dropWhile_eq_self_iff)

lemma pinsert_split:
  assumes "\<forall>y \<in> set xs. key y \<le> key x" "\<forall>y \<in> set ys. key x < key y"
  shows "pinsert key x (xs @ ys) = xs @ x # ys"
proof -
  have "\<forall>y \<in> set ys. \<not> key y \<le> key x" using assms(2) by auto
  with while_split [of xs "\<lambda>y. key y \<le> key x" ys] assms(1) show ?thesis by (simp add: pinsert_def)
qed

lemma sorted_split:
  "sorted (map key ys) \<Longrightarrow>
   \<exists>us vs. ys = us @ vs \<and> (\<forall>y \<in> set us. key y \<le> k) \<and> (\<forall>y \<in> set vs. k < key y)"
proof (induction ys)
  case (Cons y ys)
  then obtain us vs where s: "ys = us @ vs" "\<forall>y \<in> set us. key y \<le> k" "\<forall>y \<in> set vs. k < key y" by auto
  show ?case
  proof (cases "key y \<le> k")
    case True
    with s show ?thesis by (intro exI [of _ "y # us"] exI [of _ vs]) auto
  next
    case False
    with Cons.prems have "\<forall>z \<in> set (y # ys). k < key z" by (auto intro: less_le_trans)
    then show ?thesis by (intro exI [of _ "[]"] exI [of _ "y # ys"]) auto
  qed
qed simp

text \<open>Inserting the elements of a list one after the other sorts it stably.\<close>

lemma sort_key_snoc: "sort_key key (xs @ [x]) = pinsert key x (sort_key key xs)"
proof -
  obtain us vs where s: "sort_key key xs = us @ vs" "\<forall>y \<in> set us. key y \<le> key x" "\<forall>y \<in> set vs. key x < key y"
    using sorted_split [of key "sort_key key xs" "key x"] by auto
  have p: "pinsert key x (sort_key key xs) = us @ x # vs" unfolding s(1) by (rule pinsert_split [OF s(2,3)])
  show ?thesis unfolding p
  proof (rule properties_for_sort_key)
    have "mset (us @ vs) = mset xs" by (simp flip: s(1))
    then show "mset (us @ x # vs) = mset (xs @ [x])" by simp
    have "sorted (map key (us @ vs))" by (simp flip: s(1))
    with s(2,3) show "sorted (map key (us @ x # vs))" by (auto simp: sorted_append)
    fix k
    have f: "filter (\<lambda>y. key k = key y) (us @ vs) = filter (\<lambda>y. key k = key y) xs"
      using sort_key_stable [of key "key k" xs] by (simp add: eq_commute [of "key k"] flip: s(1))
    have "filter (\<lambda>y. key k = key y) vs = []" if "key k = key x" using s(3) that by (auto simp: filter_empty_conv)
    with f show "filter (\<lambda>y. key k = key y) (us @ x # vs) = filter (\<lambda>y. key k = key y) (xs @ [x])" by auto
  qed
qed

datatype 'a dq_op = Push 'a | Pop | Steal

text \<open>The specification: one list in service order, served at the front and stolen from at the back.\<close>

fun spec_op :: "('a \<Rightarrow> 'k::linorder) \<Rightarrow> 'a dq_op \<Rightarrow> 'a list \<Rightarrow> 'a option \<times> 'a list" where
  "spec_op key (Push x) xs = (None, pinsert key x xs)"
| "spec_op key Pop xs = (case xs of [] \<Rightarrow> (None, []) | y # ys \<Rightarrow> (Some y, ys))"
| "spec_op key Steal xs = (if xs = [] then (None, []) else (Some (last xs), butlast xs))"

fun run_ops :: "('o \<Rightarrow> 's \<Rightarrow> 'r \<times> 's) \<Rightarrow> 'o list \<Rightarrow> 's \<Rightarrow> 'r list \<times> 's" where
  "run_ops f [] s = ([], s)"
| "run_ops f (x # xs) s = (case f x s of (r, s1) \<Rightarrow> case run_ops f xs s1 of (rs, s2) \<Rightarrow> (r # rs, s2))"

locale priority_deque =
  fixes inv :: "'q \<Rightarrow> bool" and items :: "'q \<Rightarrow> 'a list" and key :: "'a \<Rightarrow> 'k::linorder"
    and enq :: "'a \<Rightarrow> 'q \<Rightarrow> 'q" and deq :: "'q \<Rightarrow> 'a option \<times> 'q" and deq_back :: "'q \<Rightarrow> 'a option \<times> 'q"
  assumes enq_spec: "inv q \<Longrightarrow> inv (enq x q) \<and> items (enq x q) = pinsert key x (items q)"
    and deq_spec: "inv q \<Longrightarrow> deq q = (r, q') \<Longrightarrow> inv q' \<and> (r, items q') = spec_op key Pop (items q)"
    and deq_back_spec: "inv q \<Longrightarrow> deq_back q = (r, q') \<Longrightarrow> inv q' \<and> (r, items q') = spec_op key Steal (items q)"
begin

definition dq_step :: "'a dq_op \<Rightarrow> 'q \<Rightarrow> 'a option \<times> 'q" where
  "dq_step op q = (case op of Push x \<Rightarrow> (None, enq x q) | Pop \<Rightarrow> deq q | Steal \<Rightarrow> deq_back q)"

lemma step_refines:
  assumes "inv q" "dq_step op q = (r, q')"
  shows "inv q' \<and> (r, items q') = spec_op key op (items q)"
proof (cases op)
  case (Push x)
  with assms enq_spec [of q x] show ?thesis by (auto simp: dq_step_def)
next
  case Pop
  with assms deq_spec [of q r q'] show ?thesis by (simp add: dq_step_def)
next
  case Steal
  with assms deq_back_spec [of q r q'] show ?thesis by (simp add: dq_step_def)
qed

lemma run_refines:
  "inv q \<Longrightarrow> run_ops dq_step ops q = (rs, q') \<Longrightarrow> inv q' \<and> run_ops (spec_op key) ops (items q) = (rs, items q')"
proof (induction ops arbitrary: q rs q')
  case (Cons op ops)
  obtain r q1 where 1: "dq_step op q = (r, q1)" by (cases "dq_step op q")
  obtain rs2 q2 where 2: "run_ops dq_step ops q1 = (rs2, q2)" by (cases "run_ops dq_step ops q1")
  from step_refines [OF Cons.prems(1) 1] have s: "inv q1" "spec_op key op (items q) = (r, items q1)" by simp_all
  from Cons.IH [OF s(1) 2] Cons.prems(2) 1 2 s(2) show ?case by auto
qed simp

lemma enq_all: "inv q \<Longrightarrow> items q = [] \<Longrightarrow> inv (fold enq xs q) \<and> items (fold enq xs q) = sort_key key xs"
proof (induction xs rule: rev_induct)
  case (snoc x xs)
  then show ?case using enq_spec [of "fold enq xs q" x] by (simp add: sort_key_snoc)
qed simp

end

section \<open>The run queue is one\<close>

definition tasks :: "'w RunQueue \<Rightarrow> 'w SchedulerTask list" where
  "tasks rq = concat (queues rq)"

definition rq_wf :: "'w RunQueue \<Rightarrow> bool" where
  "rq_wf rq \<longleftrightarrow> length (queues rq) = 4 \<and> (\<forall>i < 4. \<forall>t \<in> set (queues rq ! i). as_index (priority t) = i) \<and>
     rq_len rq = of_nat (length (tasks rq))"

definition sublanes :: "'a list list \<Rightarrow> 'a list list \<Rightarrow> bool" where
  "sublanes qs' qs \<longleftrightarrow> list_all2 (\<lambda>a b. set a \<subseteq> set b) qs' qs"

lemma sublanes_simps [simp]:
  "sublanes qs qs" "sublanes (a # as) (b # bs) \<longleftrightarrow> set a \<subseteq> set b \<and> sublanes as bs"
  "sublanes (rev as) (rev bs) \<longleftrightarrow> sublanes as bs"
  by (simp_all add: sublanes_def list.rel_refl)

lemma pop_scan_spec:
  "case pop_scan qs of
     None \<Rightarrow> concat qs = []
   | Some (x, qs') \<Rightarrow> concat qs = x # concat qs' \<and> sublanes qs' qs"
  by (induction qs rule: pop_scan.induct) (auto split: option.splits)

lemma steal_scan_spec:
  "case steal_scan qs of
     None \<Rightarrow> concat (rev qs) = []
   | Some (x, qs') \<Rightarrow> concat (rev qs) = concat (rev qs') @ [x] \<and> sublanes qs' qs"
  by (induction qs) (auto split: option.splits dest: in_set_butlastD)

lemma nth_concat_split:
  "i < length qs \<Longrightarrow> concat qs = concat (take i qs) @ qs ! i @ concat (drop (Suc i) qs)"
  by (subst id_take_nth_drop, assumption) simp

lemma concat_take_iff: "y \<in> set (concat (take k qs) @ zs) \<longleftrightarrow> (\<exists>j < min k (length qs). y \<in> set (qs ! j)) \<or> y \<in> set zs"
  by (auto simp: set_conv_nth [of "take k qs"])

lemma concat_drop_iff: "y \<in> set (concat (drop k qs)) \<longleftrightarrow> (\<exists>j < length qs. k \<le> j \<and> y \<in> set (qs ! j))"
proof
  assume "y \<in> set (concat (drop k qs))"
  then obtain i where "i < length qs - k" "y \<in> set (qs ! (k + i))" by (auto simp: set_conv_nth [of "drop k qs"])
  then show "\<exists>j < length qs. k \<le> j \<and> y \<in> set (qs ! j)" by (intro exI [of _ "k + i"]) auto
next
  assume "\<exists>j < length qs. k \<le> j \<and> y \<in> set (qs ! j)"
  then obtain j where "j < length qs" "k \<le> j" "y \<in> set (qs ! j)" by blast
  then have "drop k qs ! (j - k) = qs ! j" "j - k < length (drop k qs)" by simp_all
  with \<open>y \<in> set (qs ! j)\<close> show "y \<in> set (concat (drop k qs))" by (metis UN_I nth_mem set_concat)
qed

lemma rq_enqueue_spec:
  assumes "length (queues rq) = 4" "\<forall>i < 4. \<forall>t \<in> set (queues rq ! i). as_index (priority t) = i"
  shows "tasks (rq_enqueue t rq) = pinsert priority t (tasks rq)"
    and "\<forall>i < 4. \<forall>u \<in> set (queues (rq_enqueue t rq) ! i). as_index (priority u) = i"
proof -
  define idx qs where "idx = as_index (priority t)" and "qs = queues rq"
  have i: "idx < length qs" using as_index_less [of "priority t"] assms(1) by (simp add: idx_def qs_def)
  let ?us = "concat (take idx qs) @ qs ! idx" and ?vs = "concat (drop (Suc idx) qs)"
  have lane: "as_index (priority y) = j" if "j < length qs" "y \<in> set (qs ! j)" for j y
    using that assms by (simp add: qs_def)
  have "\<exists>j < length qs. y \<in> set (qs ! j) \<and> j \<le> idx" if "y \<in> set ?us" for y
    using that i unfolding concat_take_iff by (metis less_imp_le_nat less_trans min_less_iff_conj order_refl)
  then have us: "\<forall>y \<in> set ?us. priority y \<le> priority t"
    using lane by (fastforce simp: less_eq_Priority_def idx_def)
  have "\<exists>j < length qs. y \<in> set (qs ! j) \<and> idx < j" if "y \<in> set ?vs" for y
    using that unfolding concat_drop_iff by (metis Suc_le_eq)
  then have vs: "\<forall>y \<in> set ?vs. priority t < priority y"
    using lane by (fastforce simp: less_Priority_def idx_def)
  have "tasks rq = ?us @ ?vs" using nth_concat_split [OF i] by (simp add: tasks_def qs_def)
  moreover have "tasks (rq_enqueue t rq) = ?us @ t # ?vs"
    using i by (simp add: tasks_def rq_enqueue_def Let_def upd_conv_take_nth_drop idx_def qs_def)
  ultimately show "tasks (rq_enqueue t rq) = pinsert priority t (tasks rq)"
    using pinsert_split [OF us vs] by simp
  show "\<forall>i < 4. \<forall>u \<in> set (queues (rq_enqueue t rq) ! i). as_index (priority u) = i"
    using assms as_index_less [of "priority t"] by (auto simp: rq_enqueue_def Let_def nth_list_update split: if_splits)
qed

lemma mset_pinsert [simp]: "mset (pinsert key x xs) = add_mset x (mset xs)"
proof -
  have "mset (takeWhile (\<lambda>y. key y \<le> key x) xs) + mset (dropWhile (\<lambda>y. key y \<le> key x) xs) = mset xs"
    by (metis mset_append takeWhile_dropWhile_id)
  then show ?thesis by (simp add: pinsert_def)
qed

lemma length_pinsert [simp]: "length (pinsert key x xs) = Suc (length xs)"
  by (metis mset_pinsert size_add_mset size_mset)

lemma push_spec:
  assumes "rq_wf rq"
  shows "rq_wf (push t rq) \<and> tasks (push t rq) = pinsert priority t (tasks rq)"
proof -
  have w: "length (queues rq) = 4" "\<forall>i < 4. \<forall>t \<in> set (queues rq ! i). as_index (priority t) = i"
    "rq_len rq = of_nat (length (tasks rq))" using assms unfolding rq_wf_def by blast+
  note e = rq_enqueue_spec [OF w(1,2), of t]
  have q: "queues (push t rq) = queues (rq_enqueue t rq)" "rq_len (push t rq) = rq_len rq + 1" by (simp_all add: push_def)
  then have t: "tasks (push t rq) = pinsert priority t (tasks rq)" using e(1) by (simp add: tasks_def)
  have "length (queues (rq_enqueue t rq)) = 4" using w(1) by (simp add: rq_enqueue_def Let_def)
  moreover have "rq_len (push t rq) = of_nat (length (tasks (push t rq)))" using q(2) w(3) t by simp
  ultimately show ?thesis using e(2) t unfolding rq_wf_def q(1) by blast
qed

text \<open>Taking a task out of some lane keeps the lanes sorted by priority.\<close>

lemma sublanes_wf:
  assumes "rq_wf rq" "sublanes qs (queues rq)" "Suc (length (concat qs)) = length (tasks rq)"
  shows "rq_wf (rq\<lparr>queues := qs, rq_len := rq_len rq - 1\<rparr>)"
proof -
  have l: "length qs = length (queues rq)" using assms(2) by (simp add: sublanes_def list_all2_lengthD)
  have sub: "set (qs ! i) \<subseteq> set (queues rq ! i)" if "i < length qs" for i
    using assms(2) that by (auto simp: sublanes_def dest: list_all2_nthD)
  have w: "length (queues rq) = 4" "\<And>i t. i < 4 \<Longrightarrow> t \<in> set (queues rq ! i) \<Longrightarrow> as_index (priority t) = i"
    "rq_len rq = of_nat (length (tasks rq))" using assms(1) unfolding rq_wf_def by blast+
  have "rq_len rq - 1 = of_nat (length (concat qs))" using w(3) by (simp flip: assms(3))
  moreover have "\<forall>i < 4. \<forall>t \<in> set (qs ! i). as_index (priority t) = i"
  proof (intro allI impI ballI)
    fix i t assume "i < 4" "t \<in> set (qs ! i)"
    with sub [of i] l w(1) show "as_index (priority t) = i" by (intro w(2)) auto
  qed
  ultimately show ?thesis using l w(1) unfolding rq_wf_def tasks_def by simp
qed

lemma pop_spec:
  assumes "rq_wf rq" "pop rq = (r, rq')"
  shows "rq_wf rq' \<and> (r, tasks rq') = spec_op priority Pop (tasks rq)"
proof (cases "pop_scan (queues rq)")
  case None
  then have "tasks rq = []" using pop_scan_spec [of "queues rq"] by (simp only: tasks_def option.case)
  moreover have "rq' = rq" "r = None" using None assms(2) by (simp_all add: pop_def rq_dequeue_def)
  ultimately show ?thesis using assms(1) by simp
next
  case (Some x)
  obtain t qs where x: "pop_scan (queues rq) = Some (t, qs)" using Some by (cases x) auto
  with pop_scan_spec [of "queues rq"] have q: "tasks rq = t # concat qs" "sublanes qs (queues rq)"
    by (simp_all add: tasks_def)
  have "rq_wf (rq\<lparr>queues := qs, rq_len := rq_len rq - 1\<rparr>)" by (rule sublanes_wf [OF assms(1) q(2)]) (simp add: q(1))
  with q x assms(2) show ?thesis by (auto simp: pop_def rq_dequeue_def tasks_def)
qed

lemma steal_spec:
  assumes "rq_wf rq" "steal rq = (r, rq')"
  shows "rq_wf rq' \<and> (r, tasks rq') = spec_op priority Steal (tasks rq)"
proof (cases "steal_scan (rev (queues rq))")
  case None
  then have "tasks rq = []" using steal_scan_spec [of "rev (queues rq)"] by (simp only: tasks_def option.case rev_rev_ident)
  moreover have "rq' = rq" "r = None" using None assms(2) by (simp_all add: steal_def rq_dequeue_back_def)
  ultimately show ?thesis using assms(1) by simp
next
  case (Some x)
  obtain t qs where x: "steal_scan (rev (queues rq)) = Some (t, qs)" using Some by (cases x) auto
  with steal_scan_spec [of "rev (queues rq)"] have q: "tasks rq = concat (rev qs) @ [t]" "sublanes qs (rev (queues rq))"
    by (simp_all add: tasks_def)
  have "sublanes (rev qs) (queues rq)" using q(2) sublanes_simps(3) [of qs "rev (queues rq)"] by simp
  then have "rq_wf (rq\<lparr>queues := rev qs, rq_len := rq_len rq - 1\<rparr>)"
    by (rule sublanes_wf [OF assms(1)]) (simp add: q(1))
  with q x assms(2) show ?thesis by (auto simp: steal_def rq_dequeue_back_def tasks_def)
qed

interpretation rq: priority_deque rq_wf tasks priority push pop steal
  using push_spec pop_spec steal_spec by unfold_locales blast+

lemma rq_new_wf [simp]: "rq_wf (rq_new cpu)" "tasks (rq_new cpu) = []"
  by (auto simp: rq_wf_def rq_new_def tasks_def less_Suc_eq numeral_eq_Suc)

section \<open>Submission and stealing\<close>

definition load :: "'w RunQueue \<Rightarrow> nat" where
  "load rq = length (tasks rq)"

definition all_tasks :: "'w Scheduler \<Rightarrow> 'w SchedulerTask multiset" where
  "all_tasks s = sum_list (map (\<lambda>rq. mset (tasks rq)) (run_queues s))"

fun submit_all :: "(Priority \<times> 'w) list \<Rightarrow> 'w Scheduler \<Rightarrow> 'w Scheduler option" where
  "submit_all [] s = Some s"
| "submit_all ((p, w) # ws) s = (case submit p w s of None \<Rightarrow> None | Some (_, s') \<Rightarrow> submit_all ws s')"

lemma sum_list_add_at:
  "i < length xs \<Longrightarrow> sum_list (xs[i := a + xs ! i]) = a + sum_list xs" for a :: "'a::comm_monoid_add"
  by (induction xs arbitrary: i) (auto simp: algebra_simps nth_Cons split: nat.splits)

lemma rq_len_load: "rq_wf rq \<Longrightarrow> load rq < 2 ^ 64 \<Longrightarrow> unat (rq_len rq) = load rq"
  by (simp add: rq_wf_def load_def unat_of_nat_small)

text \<open>After \<open>k\<close> submissions: every queue is well formed, the loads add up to \<open>k\<close> and differ by at most one.\<close>

definition balanced :: "nat \<Rightarrow> 'w Scheduler \<Rightarrow> bool" where
  "balanced k s \<longleftrightarrow> run_queues s \<noteq> [] \<and> list_all rq_wf (run_queues s) \<and> next_task_id s = of_nat k \<and>
     sum_list (map load (run_queues s)) = k \<and>
     (\<forall>rq \<in> set (run_queues s). \<forall>rq' \<in> set (run_queues s). load rq \<le> load rq' + 1)"

lemma submit_balanced:
  assumes b: "balanced k s" and k: "k < 2 ^ 64 - 1"
  obtains s' where "submit p w s = Some (of_nat k, s')" "balanced (Suc k) s'"
    "all_tasks s' = add_mset (task_new (of_nat k) p w) (all_tasks s)"
proof -
  let ?rqs = "run_queues s" and ?t = "task_new (of_nat k) p w"
  have ne: "?rqs \<noteq> []" and wf: "\<And>rq. rq \<in> set ?rqs \<Longrightarrow> rq_wf rq" and sum: "sum_list (map load ?rqs) = k"
    and diff: "\<And>rq rq'. rq \<in> set ?rqs \<Longrightarrow> rq' \<in> set ?rqs \<Longrightarrow> load rq \<le> load rq' + 1"
    and id: "next_task_id s = of_nat k"
    using b by (auto simp: balanced_def list_all_iff)
  have small: "load rq < 2 ^ 64" if "rq \<in> set ?rqs" for rq
    using member_le_sum_list [of "load rq" "map load ?rqs"] that sum k by simp
  note len = rq_len_load [OF wf small]
  obtain i where i: "min_index (\<lambda>_. True) rq_len ?rqs = Some i"
    using ne by (cases "min_index (\<lambda>_. True) rq_len ?rqs") (auto simp: min_index_None_iff)
  note m = min_index_SomeD [OF i]
  then have il: "i < length ?rqs" and iset: "?rqs ! i \<in> set ?rqs" by auto
  have least: "load (?rqs ! i) \<le> load rq" if "rq \<in> set ?rqs" for rq
    using m that len [OF iset iset] len [OF that that] by (auto simp: word_le_nat_alt)
  let ?q = "push ?t (?rqs ! i)"
  let ?s = "s\<lparr>run_queues := ?rqs[i := ?q], next_task_id := of_nat k + 1\<rparr>"
  have sub: "submit p w s = Some (of_nat k, ?s)"
    using i il ne by (simp add: submit_def submit_to_def least_loaded_cpu_def Let_def id)
  have q: "rq_wf ?q" "load ?q = 1 + load (?rqs ! i)" "mset (tasks ?q) = {#?t#} + mset (tasks (?rqs ! i))"
    using push_spec [OF wf [OF iset], of ?t] by (simp_all add: load_def)
  have "sum_list (map load (?rqs[i := ?q])) = Suc k"
    using sum_list_add_at [of i "map load ?rqs" 1] il sum by (simp add: map_update q(2))
  moreover have "list_all rq_wf (?rqs[i := ?q])"
    using wf q(1) set_update_subset_insert [of ?rqs i ?q] by (auto simp: list_all_iff)
  moreover have "load rq \<le> load rq' + 1" if "rq \<in> set (?rqs[i := ?q])" "rq' \<in> set (?rqs[i := ?q])" for rq rq'
  proof -
    have "rq = ?q \<or> rq \<in> set ?rqs" "rq' = ?q \<or> rq' \<in> set ?rqs"
      using that set_update_subset_insert [of ?rqs i ?q] by auto
    then show ?thesis using diff [of rq rq'] least [of rq'] diff [of rq "?rqs ! i"] iset q(2) by auto
  qed
  ultimately have "balanced (Suc k) ?s" using ne by (simp add: balanced_def)
  moreover have "all_tasks ?s = add_mset ?t (all_tasks s)"
    using sum_list_add_at [of i "map (\<lambda>rq. mset (tasks rq)) ?rqs" "{#?t#}"] il
    by (simp add: all_tasks_def map_update q(3))
  ultimately show thesis using that sub by blast
qed

lemma submit_all_balanced:
  "balanced k s \<Longrightarrow> k + length ws < 2 ^ 64 \<Longrightarrow>
   \<exists>s'. submit_all ws s = Some s' \<and> balanced (k + length ws) s' \<and>
     all_tasks s' = all_tasks s + mset (map (\<lambda>(i, p, w). task_new (of_nat i) p w) (List.enumerate k ws))"
proof (induction ws arbitrary: k s)
  case (Cons x ws)
  obtain p w where x: "x = (p, w)" by (cases x)
  have "k < 2 ^ 64 - 1" using Cons.prems(2) by simp
  then obtain s1 where 1: "submit p w s = Some (of_nat k, s1)" "balanced (Suc k) s1"
    "all_tasks s1 = add_mset (task_new (of_nat k) p w) (all_tasks s)"
    using submit_balanced [OF Cons.prems(1)] by metis
  with Cons.IH [OF 1(2)] Cons.prems(2) show ?case by (auto simp: x)
qed simp

lemma not_le_iff: "NOT a \<le> NOT b \<longleftrightarrow> b \<le> a" for a b :: u64
proof -
  have "unat (NOT x) = unat (- 1 :: u64) - unat x" for x :: u64
    using unat_diff [of x "- 1"] by (simp add: not_eq_complement minus_diff_commute)
  moreover have "unat x \<le> unat (- 1 :: u64)" for x :: u64 by (simp add: word_le_nat_alt [symmetric])
  ultimately show ?thesis by (simp only: word_le_nat_alt le_diff_iff')
qed

lemma set_candidates:
  "(i, l) \<in> set (steal_candidates cpu s) \<longleftrightarrow>
   i < length (run_queues s) \<and> i \<noteq> cpu \<and> l = rq_len (run_queues s ! i) \<and> 1 < l"
  by (auto simp: steal_candidates_def in_set_enumerate_eq image_iff split: prod.splits)

lemma candidates_head:
  assumes "steal_candidates cpu s = (v, l) # cs" "(i, l') \<in> set (steal_candidates cpu s)"
  shows "l' \<le> l"
proof -
  have "sorted (map (\<lambda>a. NOT (snd a)) (steal_candidates cpu s))"
    unfolding steal_candidates_def by (rule sorted_sort_key)
  then show ?thesis using assms by (auto simp: not_le_iff)
qed

text \<open>
  C35 (safety).  Stealing for a CPU on a scheduler with well-formed queues either finds every other CPU with at
  most one task and changes nothing, or takes the task that would be served last from a most loaded other CPU,
  one with at least two tasks, and changes no other queue.
\<close>
theorem try_steal_busiest:
  assumes "list_all rq_wf (run_queues s)" "\<forall>rq \<in> set (run_queues s). load rq < 2 ^ 64"
  shows "case try_steal cpu s of
      (None, s') \<Rightarrow> s' = s \<and> (\<forall>i < length (run_queues s). i \<noteq> cpu \<longrightarrow> load (run_queues s ! i) \<le> 1)
    | (Some t, s') \<Rightarrow> \<exists>v rq. v < length (run_queues s) \<and> v \<noteq> cpu \<and> 1 < load (run_queues s ! v) \<and>
        (\<forall>i < length (run_queues s). i \<noteq> cpu \<longrightarrow> load (run_queues s ! i) \<le> load (run_queues s ! v)) \<and>
        s' = s\<lparr>run_queues := (run_queues s)[v := rq]\<rparr> \<and> rq_wf rq \<and> tasks (run_queues s ! v) = tasks rq @ [t]"
proof -
  let ?rqs = "run_queues s"
  have wf: "rq_wf (?rqs ! i)" and len: "unat (rq_len (?rqs ! i)) = load (?rqs ! i)" if "i < length ?rqs" for i
    using assms that by (simp_all add: list_all_length rq_len_load)
  have cand: "(i, rq_len (?rqs ! i)) \<in> set (steal_candidates cpu s)"
    if "i < length ?rqs" "i \<noteq> cpu" "1 < load (?rqs ! i)" for i
    using that len [of i] by (simp add: set_candidates word_less_nat_alt)
  show ?thesis
  proof (cases "steal_candidates cpu s")
    case Nil
    then have "load (?rqs ! i) \<le> 1" if "i < length ?rqs" "i \<noteq> cpu" for i
      using cand [OF that] by (cases "1 < load (?rqs ! i)") auto
    then show ?thesis using Nil by (simp add: try_steal_def)
  next
    case (Cons c cs)
    obtain v l where c: "steal_candidates cpu s = (v, l) # cs" using Cons by (cases c) simp
    then have "(v, l) \<in> set (steal_candidates cpu s)" by simp
    then have v: "v < length ?rqs" "v \<noteq> cpu" "l = rq_len (?rqs ! v)" "1 < l" unfolding set_candidates by blast+
    then have big: "1 < load (?rqs ! v)" using len [of v] by (simp add: word_less_nat_alt)
    have most: "load (?rqs ! i) \<le> load (?rqs ! v)" if "i < length ?rqs" "i \<noteq> cpu" for i
    proof (cases "1 < load (?rqs ! i)")
      case True
      from candidates_head [OF c cand [OF that True]] show ?thesis
        using len [OF that(1)] len [OF v(1)] v(3) by (simp add: word_le_nat_alt)
    qed (use big in simp)
    obtain r rq where st: "steal (?rqs ! v) = (r, rq)" by (cases "steal (?rqs ! v)")
    from steal_spec [OF wf [OF v(1)] st] big
    have r: "rq_wf rq" "r = Some (last (tasks (?rqs ! v)))" "tasks rq = butlast (tasks (?rqs ! v))"
      "tasks (?rqs ! v) \<noteq> []" by (auto simp: load_def split: if_splits)
    then have "try_steal cpu s = (Some (last (tasks (?rqs ! v))), s\<lparr>run_queues := ?rqs[v := rq]\<rparr>)"
      using c st by (simp add: try_steal_def)
    moreover have "tasks (?rqs ! v) = tasks rq @ [last (tasks (?rqs ! v))]" using r(3,4) by simp
    ultimately show ?thesis using v(1,2) big most r(1) by (simp only: prod.case option.case) blast
  qed
qed

definition demo_rq :: "nat RunQueue" where
  "demo_rq = push (task_new 2 Low 30) (push (task_new 1 Critical 20) (push (task_new 0 Low 10) (rq_new 1)))"

definition demo_sched :: "nat Scheduler" where
  "demo_sched = \<lparr>run_queues = [rq_new 0, demo_rq], next_task_id = 3, running = True\<rparr>"

lemma demo_sched_wf: "list_all rq_wf (run_queues demo_sched)" "\<forall>rq \<in> set (run_queues demo_sched). load rq < 2 ^ 64"
proof -
  show "list_all rq_wf (run_queues demo_sched)" by (simp add: demo_sched_def demo_rq_def push_spec)
  show "\<forall>rq \<in> set (run_queues demo_sched). load rq < 2 ^ 64"
    by (simp add: demo_sched_def demo_rq_def load_def push_spec)
qed

theorem try_steal_busiest_witness:
  "\<exists>s' rq. try_steal 0 demo_sched = (Some (task_new 2 Low 30), s') \<and> s' = demo_sched\<lparr>run_queues := [rq_new 0, rq]\<rparr> \<and>
     tasks demo_rq = tasks rq @ [task_new 2 Low 30]"
proof -
  have 1: "fst (try_steal 0 demo_sched) = Some (task_new 2 Low 30)" "length (run_queues demo_sched) = 2"
    "run_queues demo_sched ! 1 = demo_rq" "(run_queues demo_sched)[1 := r] = [rq_new 0, r]" for r
    by code_simp+
  then obtain s' where s: "try_steal 0 demo_sched = (Some (task_new 2 Low 30), s')"
    by (cases "try_steal 0 demo_sched") simp
  from try_steal_busiest [OF demo_sched_wf, of 0]
  obtain v rq where "v < 2" "v \<noteq> 0" "s' = demo_sched\<lparr>run_queues := (run_queues demo_sched)[v := rq]\<rparr>"
    "tasks (run_queues demo_sched ! v) = tasks rq @ [task_new 2 Low 30]"
    unfolding s prod.case option.case 1(2) by blast
  moreover from this have "v = 1" by simp
  ultimately show ?thesis using s 1(3,4) by auto
qed

text \<open>
  C34 (bounds).  A fresh scheduler with at least one CPU accepts any batch of submissions (fewer than \<open>2 ^ 64\<close>):
  no task is lost or duplicated, task \<open>i\<close> of the batch gets the id \<open>i\<close>, the counters add up to the batch and the
  loads of any two CPUs differ by at most one.
\<close>
theorem submit_balances:
  fixes ws :: "(Priority \<times> 'w) list"
  assumes "0 < n" "length ws < 2 ^ 64"
  shows "\<exists>s. submit_all ws (sched_new n) = Some s \<and>
    all_tasks s = mset (map (\<lambda>(i, p, w). task_new (of_nat i) p w) (List.enumerate 0 ws)) \<and>
    total_tasks s = of_nat (length ws) \<and>
    (\<forall>rq \<in> set (run_queues s). \<forall>rq' \<in> set (run_queues s). load rq \<le> load rq' + 1)"
proof -
  have "sum_list (map load (map rq_new [0..<n] :: 'w RunQueue list)) = 0"
    "sum_list (map (\<lambda>i. mset (tasks (rq_new i :: 'w RunQueue))) [0..<n]) = {#}"
    by (induction n) (simp_all add: load_def)
  then have "balanced 0 (sched_new n :: 'w Scheduler)" "all_tasks (sched_new n :: 'w Scheduler) = {#}"
    using assms(1) by (auto simp: balanced_def sched_new_def all_tasks_def list_all_iff load_def comp_def)
  with submit_all_balanced [of 0 "sched_new n" ws] assms(2)
  obtain s where s: "submit_all ws (sched_new n) = Some s" "balanced (length ws) s"
    "all_tasks s = mset (map (\<lambda>(i, p, w). task_new (of_nat i) p w) (List.enumerate 0 ws))" by auto
  have "sum_list (map rq_len rqs) = of_nat (sum_list (map load rqs))" if "list_all rq_wf rqs" for rqs :: "'w RunQueue list"
    using that by (induction rqs) (simp_all add: rq_wf_def load_def)
  with s show ?thesis by (auto simp: balanced_def total_tasks_def)
qed

theorem submit_balances_witness:
  "\<exists>s. submit_all [(Low, 10::nat), (High, 20), (Low, 30)] (sched_new 2) = Some s \<and> total_tasks s = 3 \<and>
     task_new 1 High 20 \<in># all_tasks s"
  using submit_balances [of 2 "[(Low, 10::nat), (High, 20), (Low, 30)]"] by auto

fun rq_op :: "'w SchedulerTask dq_op \<Rightarrow> 'w RunQueue \<Rightarrow> 'w SchedulerTask option \<times> 'w RunQueue" where
  "rq_op (Push t) rq = (None, push t rq)"
| "rq_op Pop rq = pop rq"
| "rq_op Steal rq = steal rq"

lemma rq_op_eq: "rq.dq_step = rq_op"
  by (intro ext, rename_tac x q, case_tac x) (simp_all add: rq.dq_step_def)

text \<open>
  C11 (refinement).  A run queue behaves as one list kept in service order: any sequence of \<open>push\<close>, \<open>pop\<close> and
  \<open>steal\<close> on a fresh queue returns what the specification returns on the empty list, and leaves the queue holding
  the specification's list, counted correctly.  Pushing alone sorts the tasks stably by priority.
\<close>
theorem run_queue_refines:
  "case run_ops rq_op ops (rq_new cpu) of
     (rs, rq) \<Rightarrow> run_ops (spec_op priority) ops [] = (rs, tasks rq) \<and> rq_len rq = of_nat (length (tasks rq)) \<and>
       tasks (fold push ts (rq_new cpu)) = sort_key priority ts"
proof -
  obtain rs q where 1: "run_ops rq_op ops (rq_new cpu) = (rs, q)" by (cases "run_ops rq_op ops (rq_new cpu)")
  from rq.run_refines [OF rq_new_wf(1) 1 [folded rq_op_eq]]
  have "rq_wf q" "run_ops (spec_op priority) ops [] = (rs, tasks q)" by simp_all
  then show ?thesis using rq.enq_all [OF rq_new_wf, of ts] by (simp add: 1 rq_wf_def)
qed

section \<open>Interleaved calls\<close>

text \<open>
  The calls of several CPUs on one run queue.  Each lane is a mutex and the counter is atomic, so a call is a
  sequence of atomic steps, between which the other CPUs run: \<open>push\<close> appends to a lane and then counts
  the task; \<open>pop\<close> visits the lanes in order and \<open>steal\<close> in reverse order, one lock at a time, up to
  the first lane that is not empty when it is visited, takes its front or its back, and then discounts the task.
  The state keeps how far the call of each CPU is: \<open>Popping i\<close> has passed the lanes below \<open>i\<close>,
  \<open>Stealing i\<close> has passed all but the lanes below \<open>i\<close>, \<open>Took t\<close> has taken \<open>t\<close>.
  The histories \<open>pushed\<close> and \<open>returned\<close> are auxiliary: the tasks appended so far, in order, and
  the tasks the calls of \<open>pop\<close> and \<open>steal\<close> have returned.
\<close>

datatype 'w Call = Idle | Pushed | Popping nat | Stealing nat | Took "'w SchedulerTask"

record 'w Shared =
  queue :: "'w RunQueue"
  calls :: "'w Call list"
  pushed :: "'w SchedulerTask list"
  returned :: "'w SchedulerTask list"

definition at_call :: "'w Shared \<Rightarrow> nat \<Rightarrow> 'w Call \<Rightarrow> bool" where
  "at_call s k c \<longleftrightarrow> k < length (calls s) \<and> calls s ! k = c"

definition goto_call :: "nat \<Rightarrow> 'w Call \<Rightarrow> 'w Shared \<Rightarrow> 'w Shared" where
  "goto_call k c s = s\<lparr>calls := (calls s)[k := c]\<rparr>"

definition set_lane :: "nat \<Rightarrow> 'w SchedulerTask list \<Rightarrow> 'w Shared \<Rightarrow> 'w Shared" where
  "set_lane i q s = s\<lparr>queue := (queue s)\<lparr>queues := (queues (queue s))[i := q]\<rparr>\<rparr>"

definition add_len :: "u64 \<Rightarrow> 'w Shared \<Rightarrow> 'w Shared" where
  "add_len n s = s\<lparr>queue := (queue s)\<lparr>rq_len := rq_len (queue s) + n\<rparr>\<rparr>"

inductive rq_step :: "'w Shared \<Rightarrow> 'w Shared \<Rightarrow> bool" where
  Enqueue: "at_call s k Idle \<Longrightarrow>
    rq_step s (goto_call k Pushed (s\<lparr>queue := rq_enqueue t (queue s), pushed := pushed s @ [t]\<rparr>))"
| Count: "at_call s k Pushed \<Longrightarrow> rq_step s (goto_call k Idle (add_len 1 s))"
| Pop_call: "at_call s k Idle \<Longrightarrow> rq_step s (goto_call k (Popping 0) s)"
| Pop_front: "at_call s k (Popping i) \<Longrightarrow> i < length (queues (queue s)) \<Longrightarrow> queues (queue s) ! i = t # q \<Longrightarrow>
    rq_step s (goto_call k (Took t) (set_lane i q s))"
| Pop_next: "at_call s k (Popping i) \<Longrightarrow> i < length (queues (queue s)) \<Longrightarrow> queues (queue s) ! i = [] \<Longrightarrow>
    rq_step s (goto_call k (Popping (Suc i)) s)"
| Pop_none: "at_call s k (Popping i) \<Longrightarrow> i = length (queues (queue s)) \<Longrightarrow> rq_step s (goto_call k Idle s)"
| Steal_call: "at_call s k Idle \<Longrightarrow> rq_step s (goto_call k (Stealing (length (queues (queue s)))) s)"
| Steal_back: "at_call s k (Stealing (Suc i)) \<Longrightarrow> i < length (queues (queue s)) \<Longrightarrow> queues (queue s) ! i = q @ [t] \<Longrightarrow>
    rq_step s (goto_call k (Took t) (set_lane i q s))"
| Steal_next: "at_call s k (Stealing (Suc i)) \<Longrightarrow> i < length (queues (queue s)) \<Longrightarrow> queues (queue s) ! i = [] \<Longrightarrow>
    rq_step s (goto_call k (Stealing i) s)"
| Steal_none: "at_call s k (Stealing 0) \<Longrightarrow> rq_step s (goto_call k Idle s)"
| Discount: "at_call s k (Took t) \<Longrightarrow>
    rq_step s (goto_call k Idle (add_len (- 1) (s\<lparr>returned := returned s @ [t]\<rparr>)))"

definition shared_new :: "nat \<Rightarrow> nat \<Rightarrow> 'w Shared" where
  "shared_new n cpu = \<lparr>queue = rq_new cpu, calls = replicate n Idle, pushed = [], returned = []\<rparr>"

inductive rq_reachable :: "nat \<Rightarrow> nat \<Rightarrow> 'w Shared \<Rightarrow> bool" for n cpu where
  Start: "rq_reachable n cpu (shared_new n cpu)"
| Step: "rq_reachable n cpu s \<Longrightarrow> rq_step s s' \<Longrightarrow> rq_reachable n cpu s'"

text \<open>What the calls in flight have appended but not counted, and taken but not discounted.\<close>

fun uncounted_by :: "'w Call \<Rightarrow> nat" where
  "uncounted_by Pushed = 1"
| "uncounted_by _ = 0"

fun taken_by :: "'w Call \<Rightarrow> 'w SchedulerTask multiset" where
  "taken_by (Took t) = {#t#}"
| "taken_by _ = {#}"

definition uncounted :: "'w Shared \<Rightarrow> nat" where
  "uncounted s = sum_list (map uncounted_by (calls s))"

definition in_hand :: "'w Shared \<Rightarrow> 'w SchedulerTask multiset" where
  "in_hand s = sum_list (map taken_by (calls s))"

text \<open>The invariant: a lane holds tasks of its priority in the order they were pushed; every task pushed is in a
  lane, in the hand of one call, or returned, and in one of them only; and the counter is off by the calls in
  flight.\<close>

definition shared_inv :: "'w Shared \<Rightarrow> bool" where
  "shared_inv s \<longleftrightarrow> length (queues (queue s)) = 4 \<and>
     (\<forall>i < 4. subseq (queues (queue s) ! i) (filter (\<lambda>t. as_index (priority t) = i) (pushed s))) \<and>
     mset (pushed s) = mset (tasks (queue s)) + in_hand s + mset (returned s) \<and>
     rq_len (queue s) + of_nat (uncounted s) = of_nat (length (tasks (queue s))) + of_nat (size (in_hand s))"

lemma sum_list_update_add:
  fixes f :: "'a \<Rightarrow> 'b::comm_monoid_add"
  assumes "k < length xs"
  shows "sum_list (map f (xs[k := y])) + f (xs ! k) = sum_list (map f xs) + f y"
proof -
  have "map f xs = map f (take k xs) @ f (xs ! k) # map f (drop (Suc k) xs)"
    by (subst id_take_nth_drop [OF assms]) simp
  then show ?thesis using assms by (simp add: upd_conv_take_nth_drop ac_simps)
qed

text \<open>The effect of moving one call on, and of the two changes of the queue.\<close>

lemma goto_call_simps [simp]:
  "queue (goto_call k c s) = queue s" "pushed (goto_call k c s) = pushed s"
  "returned (goto_call k c s) = returned s"
  by (simp_all add: goto_call_def)

lemma goto_call_flight:
  assumes "at_call s k c" "calls s' = calls s"
  shows "uncounted (goto_call k c' s') + uncounted_by c = uncounted s + uncounted_by c'"
    and "in_hand (goto_call k c' s') + taken_by c = in_hand s + taken_by c'"
  using assms sum_list_update_add [of k "calls s" uncounted_by c'] sum_list_update_add [of k "calls s" taken_by c']
  by (simp_all add: uncounted_def in_hand_def goto_call_def at_call_def)

lemma set_lane_simps [simp]:
  "calls (set_lane i q s) = calls s" "pushed (set_lane i q s) = pushed s" "returned (set_lane i q s) = returned s"
  "queues (queue (set_lane i q s)) = (queues (queue s))[i := q]" "rq_len (queue (set_lane i q s)) = rq_len (queue s)"
  by (simp_all add: set_lane_def)

lemma add_len_simps [simp]:
  "calls (add_len n s) = calls s" "pushed (add_len n s) = pushed s" "returned (add_len n s) = returned s"
  "queues (queue (add_len n s)) = queues (queue s)" "rq_len (queue (add_len n s)) = rq_len (queue s) + n"
  "tasks (queue (add_len n s)) = tasks (queue s)"
  by (simp_all add: add_len_def tasks_def)

lemma lane_removed:
  assumes "i < length qs" "mset (qs ! i) = add_mset t (mset q)"
  shows "mset (concat qs) = add_mset t (mset (concat (qs[i := q])))"
proof -
  have "mset (concat qs) = mset (concat (take i qs)) + mset (qs ! i) + mset (concat (drop (Suc i) qs))"
    by (subst nth_concat_split [OF assms(1)]) simp
  then show ?thesis using assms by (simp add: upd_conv_take_nth_drop)
qed

lemma take_inv:
  assumes inv: "shared_inv s" and c: "at_call s k c" "uncounted_by c = 0" "taken_by c = {#}"
    and i: "i < length (queues (queue s))" "mset (queues (queue s) ! i) = add_mset t (mset q)"
      "subseq q (queues (queue s) ! i)"
  shows "shared_inv (goto_call k (Took t) (set_lane i q s))"
proof -
  let ?s = "goto_call k (Took t) (set_lane i q s)"
  have f: "uncounted ?s = uncounted s" "in_hand ?s = add_mset t (in_hand s)"
    using goto_call_flight [OF c(1), of "set_lane i q s" "Took t"] c(2,3) by simp_all
  have m: "mset (tasks (queue s)) = add_mset t (mset (tasks (queue ?s)))"
    using lane_removed [OF i(1,2)] by (simp add: tasks_def)
  have "length (tasks (queue s)) = Suc (length (tasks (queue ?s)))"
    using arg_cong [OF m, of size] by simp
  moreover have "subseq (queues (queue ?s) ! j) (filter (\<lambda>t. as_index (priority t) = j) (pushed s))" if "j < 4" for j
    using inv i that subseq_order.trans [OF i(3)] by (auto simp: shared_inv_def nth_list_update)
  ultimately show ?thesis
    using inv m f unfolding shared_inv_def by (simp add: algebra_simps)
qed

lemma move_inv:
  assumes "shared_inv s" "at_call s k c" "uncounted_by c = uncounted_by c'" "taken_by c = taken_by c'"
  shows "shared_inv (goto_call k c' s)"
proof -
  have "uncounted (goto_call k c' s) = uncounted s" "in_hand (goto_call k c' s) = in_hand s"
    using goto_call_flight [OF assms(2) refl, of c'] assms(3,4) by simp_all
  then show ?thesis using assms(1) by (simp add: shared_inv_def)
qed

lemma enqueue_inv:
  assumes inv: "shared_inv s" and c: "at_call s k Idle"
  shows "shared_inv (goto_call k Pushed (s\<lparr>queue := rq_enqueue t (queue s), pushed := pushed s @ [t]\<rparr>))"
proof -
  let ?s = "goto_call k Pushed (s\<lparr>queue := rq_enqueue t (queue s), pushed := pushed s @ [t]\<rparr>)"
  have f: "uncounted ?s = Suc (uncounted s)" "in_hand ?s = in_hand s"
    using goto_call_flight [OF c, of "s\<lparr>queue := rq_enqueue t (queue s), pushed := pushed s @ [t]\<rparr>" Pushed] by simp_all
  define i where "i = as_index (priority t)"
  have i: "i < length (queues (queue s))"
    using inv as_index_less [of "priority t"] by (simp add: shared_inv_def i_def)
  have q: "queues (rq_enqueue t (queue s)) = (queues (queue s))[i := queues (queue s) ! i @ [t]]"
    "rq_len (rq_enqueue t (queue s)) = rq_len (queue s)" by (simp_all add: rq_enqueue_def Let_def i_def)
  have m: "mset (tasks (rq_enqueue t (queue s))) = add_mset t (mset (tasks (queue s)))"
    using nth_concat_split [OF i] i by (simp add: tasks_def q upd_conv_take_nth_drop)
  have "length (tasks (rq_enqueue t (queue s))) = Suc (length (tasks (queue s)))"
    using arg_cong [OF m, of size] by simp
  moreover have "subseq (queues (rq_enqueue t (queue s)) ! j) (filter (\<lambda>u. as_index (priority u) = j) (pushed s @ [t]))"
    if "j < 4" for j
    using inv i that unfolding shared_inv_def q(1)
    by (cases "j = i") (auto simp: i_def [symmetric] intro: list_emb_append_mono)
  ultimately show ?thesis using inv m f q unfolding shared_inv_def by (simp add: algebra_simps)
qed

lemma rq_step_inv:
  assumes "rq_step s s'" "shared_inv s"
  shows "shared_inv s'"
  using assms(1)
proof cases
  case (Count k)
  have f: "uncounted s = Suc (uncounted s')" "in_hand s' = in_hand s"
    using goto_call_flight [OF Count(2), of "add_len 1 s" Idle] by (simp_all add: Count(1))
  show ?thesis using assms(2) unfolding shared_inv_def f by (simp add: Count(1) algebra_simps)
next
  case (Discount k t)
  let ?s = "add_len (- 1) (s\<lparr>returned := returned s @ [t]\<rparr>)"
  have f: "uncounted s' = uncounted s" "in_hand s = add_mset t (in_hand s')"
    using goto_call_flight [OF Discount(2), of ?s Idle] by (simp_all add: Discount(1))
  show ?thesis using assms(2) unfolding shared_inv_def f by (simp add: Discount(1) algebra_simps)
next
  case (Pop_front k i t q)
  then show ?thesis unfolding Pop_front(1) by (intro take_inv [OF assms(2) Pop_front(2)]) auto
next
  case (Steal_back k i q t)
  then show ?thesis unfolding Steal_back(1) by (intro take_inv [OF assms(2) Steal_back(2)]) auto
qed (use assms(2) in \<open>auto intro: enqueue_inv move_inv\<close>)

lemma idle_flight:
  assumes "set (calls s) \<subseteq> {Idle}"
  shows "uncounted s = 0" "in_hand s = {#}"
proof -
  have "sum_list (map uncounted_by cs) = 0 \<and> sum_list (map taken_by cs) = {#}" if "set cs \<subseteq> {Idle}" for cs :: "'a Call list"
    using that by (induction cs) auto
  with assms show "uncounted s = 0" "in_hand s = {#}" by (simp_all add: uncounted_def in_hand_def)
qed

lemma shared_new_inv: "shared_inv (shared_new n cpu)"
proof -
  define s where "s = (shared_new n cpu :: 'w Shared)"
  have "set (calls s) \<subseteq> {Idle}" by (simp add: s_def shared_new_def set_replicate_conv_if)
  moreover have "queue s = rq_new cpu" "pushed s = []" "returned s = []" by (simp_all add: s_def shared_new_def)
  ultimately have "shared_inv s"
    using idle_flight [of s] by (auto simp: shared_inv_def rq_new_def tasks_def less_Suc_eq numeral_eq_Suc)
  then show "shared_inv (shared_new n cpu :: 'w Shared)" by (simp add: s_def)
qed

lemma reachable_inv: "rq_reachable n cpu s \<Longrightarrow> shared_inv s"
  by (induction rule: rq_reachable.induct) (auto intro: shared_new_inv rq_step_inv)

text \<open>
  C15 (invariant).  Concurrent use of one run queue by \<open>n\<close> CPUs.  In every state between two atomic steps, whatever
  the interleaving: each lane holds only tasks of its priority, in the order they were pushed; no task is lost or
  duplicated, every pushed task being in a lane, in the hand of a \<open>pop\<close> or \<open>steal\<close> that is about
  to return it, or returned; and the counter differs from the number of queued tasks by exactly the calls between
  their two steps.  Hence when no call is in flight the queue is well formed again, as the sequential operations
  require.
\<close>
theorem concurrent_queue_wf:
  assumes "rq_reachable n cpu s"
  shows "length (queues (queue s)) = 4 \<and>
    (\<forall>i < 4. subseq (queues (queue s) ! i) (filter (\<lambda>t. as_index (priority t) = i) (pushed s))) \<and>
    mset (pushed s) = mset (tasks (queue s)) + in_hand s + mset (returned s) \<and>
    rq_len (queue s) + of_nat (uncounted s) = of_nat (length (tasks (queue s))) + of_nat (size (in_hand s)) \<and>
    (set (calls s) \<subseteq> {Idle} \<longrightarrow> rq_wf (queue s) \<and> mset (pushed s) = mset (tasks (queue s)) + mset (returned s))"
proof -
  note inv = reachable_inv [OF assms, unfolded shared_inv_def]
  have p: "as_index (priority t) = i" if "i < 4" "t \<in> set (queues (queue s) ! i)" for i t
  proof -
    have "subseq (queues (queue s) ! i) (filter (\<lambda>t. as_index (priority t) = i) (pushed s))"
      using inv that(1) by blast
    from list_emb_set [OF this that(2)] show ?thesis by auto
  qed
  have "rq_wf (queue s) \<and> mset (pushed s) = mset (tasks (queue s)) + mset (returned s)" if "set (calls s) \<subseteq> {Idle}"
    using inv p idle_flight [OF that] by (simp add: rq_wf_def)
  with inv show ?thesis by blast
qed

text \<open>CPU 1 pops the task, and discounts it, before the call of CPU 0 that pushed it counts it.\<close>

lemma overtaking:
  fixes t :: "'w SchedulerTask"
  assumes "as_index (priority t) = 0"
  shows "rq_reachable 2 cpu
    \<lparr>queue = (rq_new cpu)\<lparr>rq_len := - 1\<rparr>, calls = [Pushed, Idle], pushed = [t], returned = [t]\<rparr>"
proof -
  note step = goto_call_def set_lane_def add_len_def at_call_def rq_new_def
  have 1: "rq_reachable 2 cpu
      \<lparr>queue = (rq_new cpu)\<lparr>queues := [[t], [], [], []]\<rparr>, calls = [Pushed, Idle], pushed = [t], returned = []\<rparr>"
    using rq_reachable.Step [OF rq_reachable.Start rq_step.Enqueue [of _ 0 t], of 2 cpu] assms
    by (simp add: shared_new_def rq_enqueue_def step numeral_2_eq_2)
  have 2: "rq_reachable 2 cpu
      \<lparr>queue = (rq_new cpu)\<lparr>queues := [[t], [], [], []]\<rparr>, calls = [Pushed, Popping 0], pushed = [t], returned = []\<rparr>"
    using rq_reachable.Step [OF 1 rq_step.Pop_call [of _ 1]] by (simp add: step)
  have 3: "rq_reachable 2 cpu
      \<lparr>queue = rq_new cpu, calls = [Pushed, Took t], pushed = [t], returned = []\<rparr>"
    using rq_reachable.Step [OF 2 rq_step.Pop_front [of _ 1 0 t "[]"]] by (simp add: step)
  show ?thesis using rq_reachable.Step [OF 3 rq_step.Discount [of _ 1 t]] by (simp add: step)
qed

theorem concurrent_queue_wf_witness:
  "\<exists>s s' :: nat Shared. rq_reachable 2 0 s \<and> rq_step s s' \<and>
     calls s = [Pushed, Idle] \<and> uncounted s = 1 \<and> tasks (queue s) = [] \<and> rq_len (queue s) = - 1 \<and>
     rq_len (queue s) + of_nat (uncounted s) = of_nat (length (tasks (queue s))) + of_nat (size (in_hand s)) \<and>
     calls s' = [Idle, Idle] \<and> rq_wf (queue s') \<and> returned s' = [task_new 0 Critical 7] \<and>
     mset (pushed s') = mset (tasks (queue s')) + mset (returned s')"
proof -
  let ?t = "task_new 0 Critical (7 :: nat)"
  let ?s = "\<lparr>queue = (rq_new 0)\<lparr>rq_len := - 1\<rparr>, calls = [Pushed, Idle], pushed = [?t], returned = [?t]\<rparr>"
  let ?s' = "goto_call 0 Idle (add_len 1 ?s)"
  have r: "rq_reachable 2 0 ?s" by (rule overtaking) (simp add: task_new_def)
  have st: "rq_step ?s ?s'" by (rule rq_step.Count) (simp add: at_call_def)
  have c: "calls ?s' = [Idle, Idle]" "returned ?s' = [?t]" by (simp_all add: goto_call_def)
  have d: "tasks (queue ?s) = []" "uncounted ?s = 1" by (simp_all add: tasks_def rq_new_def uncounted_def)
  from concurrent_queue_wf [OF rq_reachable.Step [OF r st]] c
  have w: "rq_wf (queue ?s')" "mset (pushed ?s') = mset (tasks (queue ?s')) + mset (returned ?s')" by auto
  from concurrent_queue_wf [OF r]
  have "rq_len (queue ?s) + of_nat (uncounted ?s) = of_nat (length (tasks (queue ?s))) + of_nat (size (in_hand ?s))"
    by blast
  with r st c d w show ?thesis by (intro exI [of _ ?s] exI [of _ ?s']) simp
qed

section \<open>Priority inheritance\<close>

lemma mset_swap_remove:
  assumes "i < length xs"
  shows "mset (swap_remove i xs) = mset xs - {#xs ! i#}"
proof -
  obtain ys y where xs: "xs = ys @ [y]" using assms by (cases xs rule: rev_cases) auto
  show ?thesis
  proof (cases "i < length ys")
    case True
    then show ?thesis by (simp add: xs swap_remove_def list_update_append butlast_append nth_append mset_update)
  next
    case False
    with assms have "i = length ys" by (simp add: xs)
    then show ?thesis by (simp add: xs swap_remove_def)
  qed
qed

lemma effective_Min: "effective l = Min (insert (pi_base l) (set (waiters l)))"
proof (cases "waiters l")
  case (Cons w ws)
  have "fold min ws w = Min (set (w # ws))" by (simp only: Min.set_eq_fold)
  then show ?thesis using Cons by (simp add: effective_def min.commute)
qed (simp add: effective_def)

text \<open>Removing a waiter takes out exactly one entry of its priority, and reports whether there was one.\<close>

lemma remove_waiter_mset:
  "case remove_waiter p l of
     (r, l') \<Rightarrow> r = (p \<in> set (waiters l)) \<and> mset (waiters l') = mset (waiters l) - {#p#} \<and> pi_base l' = pi_base l"
proof (cases "position (\<lambda>w. w = p) (waiters l)")
  case None
  then have "p \<notin># mset (waiters l)" by (auto simp: position_None_iff)
  with None show ?thesis by (simp add: remove_waiter_def diff_single_trivial)
next
  case (Some i)
  from position_SomeD [OF Some] mset_swap_remove [of i "waiters l"] Some show ?thesis
    by (auto simp: remove_waiter_def)
qed

end
