(* ===== verification/Guest_Memory.thy ===== *)
theory Guest_Memory
  imports Ordered_Map "HOL-Library.Multiset"
begin

text \<open>
  The allocator of guest RAM (\<open>enlil-core/src/memory.rs\<close>): a bump pointer over the host memory behind the hypervisor's
  own part, a free list of returned blocks, the regions by base address and the memory map of each guest.  Arithmetic
  wraps as in the release profile.  The text of an error is its case; the \<open>unwrap\<close> of \<open>deallocate\<close> is the case
  \<open>Inconsistent\<close>.
\<close>

section \<open>Memory maps\<close>

definition LARGE_PAGE_SIZE :: u64 where
  "LARGE_PAGE_SIZE = 2 * 1024 * 1024"

definition core_align_up :: "u64 \<Rightarrow> u64 \<Rightarrow> u64" where
  "core_align_up v align = (v + align - 1) AND NOT (align - 1)"

record CoreMemoryRegion =
  host_base :: u64
  cr_size :: u64
  cr_guest_id :: string

record MemoryMapEntry =
  me_gpa :: u64
  me_hpa :: u64
  me_size :: u64

record CoreMemoryMap =
  cm_guest_id :: string
  cm_entries :: "MemoryMapEntry list"

definition cm_new :: "string \<Rightarrow> CoreMemoryMap" where
  "cm_new guest_id = \<lparr>cm_guest_id = guest_id, cm_entries = []\<rparr>"

definition cm_add :: "u64 \<Rightarrow> u64 \<Rightarrow> u64 \<Rightarrow> CoreMemoryMap \<Rightarrow> CoreMemoryMap" where
  "cm_add gpa hpa sz m = m\<lparr>cm_entries := cm_entries m @ [\<lparr>me_gpa = gpa, me_hpa = hpa, me_size = sz\<rparr>]\<rparr>"

definition cm_translate :: "CoreMemoryMap \<Rightarrow> u64 \<Rightarrow> u64 option" where
  "cm_translate m gpa =
     map_option (\<lambda>e. me_hpa e + (gpa - me_gpa e))
       (List.find (\<lambda>e. gpa \<ge> me_gpa e \<and> gpa < me_gpa e + me_size e) (cm_entries m))"

definition cm_mapped_bytes :: "CoreMemoryMap \<Rightarrow> u64" where
  "cm_mapped_bytes m = sum_list (map me_size (cm_entries m))"

section \<open>The manager\<close>

datatype MemoryError = AlreadyAllocated string | CannotAllocate u64 string u64 | Overlaps string string | NoRegion string | Inconsistent

record MemoryManager =
  total_bytes :: u64
  reserved_bytes :: u64
  mgr_regions :: "(u64, CoreMemoryRegion) omap"
  memory_maps :: "string \<rightharpoonup> CoreMemoryMap"
  next_base :: u64
  free_list :: "(u64 \<times> u64) list"

definition mgr_new :: "u64 \<Rightarrow> u64 \<Rightarrow> MemoryManager" where
  "mgr_new total_mb reserved_mb =
     (let reserved = core_align_up (reserved_mb * 1024 * 1024) LARGE_PAGE_SIZE;
          total = core_align_up (total_mb * 1024 * 1024) LARGE_PAGE_SIZE
      in \<lparr>total_bytes = total, reserved_bytes = reserved, mgr_regions = [], memory_maps = Map.empty,
          next_base = reserved, free_list = []\<rparr>)"

definition get_region :: "MemoryManager \<Rightarrow> string \<Rightarrow> CoreMemoryRegion option" where
  "get_region m guest_id = List.find (\<lambda>r. cr_guest_id r = guest_id) (map snd (mgr_regions m))"

definition get_memory_map :: "MemoryManager \<Rightarrow> string \<Rightarrow> CoreMemoryMap option" where
  "get_memory_map m guest_id = memory_maps m guest_id"

definition mgr_allocated_bytes :: "MemoryManager \<Rightarrow> u64" where
  "mgr_allocated_bytes m = sum_list (map (cr_size \<circ> snd) (mgr_regions m))"

definition available_bytes :: "MemoryManager \<Rightarrow> u64" where
  "available_bytes m = saturating_sub (saturating_sub (total_bytes m) (reserved_bytes m)) (mgr_allocated_bytes m)"

definition check_overlap :: "u64 \<Rightarrow> u64 \<Rightarrow> string \<Rightarrow> MemoryManager \<Rightarrow> MemoryError option" where
  "check_overlap base sz guest_id m =
     map_option (\<lambda>(_, r). Overlaps guest_id (cr_guest_id r))
       (List.find (\<lambda>(existing_base, r). base < existing_base + cr_size r \<and> base + sz > existing_base) (mgr_regions m))"

definition find_free_slot :: "u64 \<Rightarrow> MemoryManager \<Rightarrow> nat option" where
  "find_free_slot sz m = position (\<lambda>(_, free_size). free_size \<ge> sz) (free_list m)"

definition merge_free :: "u64 \<times> u64 \<Rightarrow> (u64 \<times> u64) list \<Rightarrow> (u64 \<times> u64) list" where
  "merge_free b merged =
     (if merged \<noteq> [] \<and> fst (last merged) + snd (last merged) = fst b
      then butlast merged @ [(fst (last merged), snd (last merged) + snd b)]
      else merged @ [b])"

definition coalesce_free_list :: "MemoryManager \<Rightarrow> MemoryManager" where
  "coalesce_free_list m =
     (if length (free_list m) < 2 then m
      else m\<lparr>free_list := fold merge_free (sort_key fst (free_list m)) []\<rparr>)"

text \<open>Where a request of \<open>sz\<close> bytes goes: the first free block that holds it, else the bump pointer.\<close>

definition take_space :: "string \<Rightarrow> u64 \<Rightarrow> MemoryManager \<Rightarrow> MemoryError + u64 \<times> MemoryManager" where
  "take_space guest_id sz m =
     (case find_free_slot sz m of
        Some idx \<Rightarrow>
          let (free_base, free_size) = free_list m ! idx;
              rest = take idx (free_list m) @ drop (Suc idx) (free_list m);
              leftover = free_size - sz
          in Inr (free_base, m\<lparr>free_list := (if leftover > 0 then rest @ [(free_base + sz, leftover)] else rest)\<rparr>)
      | None \<Rightarrow>
          let base = core_align_up (next_base m) LARGE_PAGE_SIZE in
          if base + sz > total_bytes m
          then Inl (CannotAllocate (sz div (1024 * 1024)) guest_id (saturating_sub (total_bytes m) base div (1024 * 1024)))
          else Inr (base, m\<lparr>next_base := base + sz\<rparr>))"

definition mgr_allocate :: "string \<Rightarrow> u64 \<Rightarrow> MemoryManager \<Rightarrow> (MemoryError + u64) \<times> MemoryManager" where
  "mgr_allocate guest_id size_mb m =
     (if list_ex (\<lambda>(_, r). cr_guest_id r = guest_id) (mgr_regions m) then (Inl (AlreadyAllocated guest_id), m)
      else let sz = core_align_up (size_mb * 1024 * 1024) LARGE_PAGE_SIZE in
      case take_space guest_id sz m of
        Inl e \<Rightarrow> (Inl e, m)
      | Inr (base, m1) \<Rightarrow>
     (case check_overlap base sz guest_id m1 of
        Some e \<Rightarrow> (Inl e, m1)
      | None \<Rightarrow>
          (Inr base,
           m1\<lparr>mgr_regions := om_insert base \<lparr>host_base = base, cr_size = sz, cr_guest_id = guest_id\<rparr> (mgr_regions m1),
              memory_maps := (memory_maps m1)(guest_id \<mapsto> cm_add 0 base sz (cm_new guest_id))\<rparr>)))"

definition mgr_deallocate :: "string \<Rightarrow> MemoryManager \<Rightarrow> (MemoryError + unit) \<times> MemoryManager" where
  "mgr_deallocate guest_id m =
     (case get_region m guest_id of
        None \<Rightarrow> (Inl (NoRegion guest_id), m)
      | Some found \<Rightarrow>
     (case map_of (mgr_regions m) (host_base found) of
        None \<Rightarrow> (Inl Inconsistent, m)
      | Some region \<Rightarrow>
          (Inr (),
           coalesce_free_list
             (m\<lparr>mgr_regions := om_remove (host_base found) (mgr_regions m),
                memory_maps := (memory_maps m)(guest_id := None),
                free_list := free_list m @ [(host_base region, cr_size region)]\<rparr>))))"

section \<open>Blocks\<close>

text \<open>How many of some blocks cover a byte.\<close>

definition in_block :: "nat \<Rightarrow> u64 \<times> u64 \<Rightarrow> bool" where
  "in_block a b \<longleftrightarrow> unat (fst b) \<le> a \<and> a < unat (fst b) + unat (snd b)"

definition cover :: "(u64 \<times> u64) list \<Rightarrow> nat \<Rightarrow> nat" where
  "cover bs a = (\<Sum>b\<leftarrow>bs. of_bool (in_block a b))"

lemma cover_simps [simp]:
  "cover [] a = 0" "cover (b # bs) a = of_bool (in_block a b) + cover bs a" "cover (bs @ cs) a = cover bs a + cover cs a"
  by (simp_all add: cover_def)

lemma cover_sum_mset: "cover bs a = sum_mset (image_mset (\<lambda>b. of_bool (in_block a b)) (mset bs))"
  by (induction bs) simp_all

lemma cover_mset: "mset bs = mset cs \<Longrightarrow> cover bs a = cover cs a"
  by (simp add: cover_sum_mset)

lemma cover_pos_iff: "0 < cover bs a \<longleftrightarrow> (\<exists>b \<in> set bs. in_block a b)"
  by (induction bs) auto

lemma cover_two:
  assumes "i < length bs" "j < length bs" "i \<noteq> j" "in_block a (bs ! i)" "in_block a (bs ! j)"
  shows "2 \<le> cover bs a"
  using assms
proof (induction bs arbitrary: i j)
  case (Cons b bs)
  have pos: "0 < cover bs a" if "k < length bs" "in_block a (bs ! k)" for k
    using that by (auto simp: cover_pos_iff)
  consider k where "i = 0" "j = Suc k" | k where "i = Suc k" "j = 0" | k l where "i = Suc k" "j = Suc l"
    using Cons.prems(3) by (cases i; cases j) auto
  then show ?case
  proof cases
    case (3 k l)
    then show ?thesis using Cons.IH [of k l] Cons.prems by simp
  qed (use Cons.prems pos in \<open>auto simp: Suc_le_eq\<close>)
qed simp

text \<open>A block and its two parts cover the same bytes.\<close>

lemma cover_split:
  assumes "sz \<le> s" "unat b + unat s \<le> 2 ^ 63"
  shows "of_bool (in_block a (b, sz)) + of_bool (in_block a (b + sz, s - sz)) = (of_bool (in_block a (b, s)) :: nat)"
proof -
  have "unat sz \<le> unat s" using assms(1) by (simp add: word_le_nat_alt)
  moreover have "unat (b + sz) = unat b + unat sz" using assms(2) calculation by (intro unat_add_no_wrap) simp
  moreover have "unat (s - sz) = unat s - unat sz" using assms(1) by (rule unat_diff)
  ultimately show ?thesis by (auto simp: in_block_def)
qed

lemma cover_join:
  assumes "unat b + unat s + unat t \<le> 2 ^ 63"
  shows "of_bool (in_block a (b, s)) + of_bool (in_block a (b + s, t)) = (of_bool (in_block a (b, s + t)) :: nat)"
proof -
  have "unat (s + t) = unat s + unat t" "unat (b + s) = unat b + unat s"
    using assms by (auto intro!: unat_add_no_wrap)
  then show ?thesis by (auto simp: in_block_def)
qed

section \<open>Alignment\<close>

lemma large_page: "LARGE_PAGE_SIZE = bitmask 21"
  by (simp add: LARGE_PAGE_SIZE_def bitmask_numeral push_bit_eq_mult)

lemma align_up_large:
  assumes "unat v \<le> 2 ^ 63"
  shows "unat (core_align_up v LARGE_PAGE_SIZE) = (unat v + 2 ^ 21 - 1) div 2 ^ 21 * 2 ^ 21"
  using unat_align_up [of 21 v] assms by (simp add: core_align_up_def large_page)

lemma align_up_bounds:
  assumes "unat v \<le> 2 ^ 62"
  shows "2 ^ 21 dvd unat (core_align_up v LARGE_PAGE_SIZE)" "unat v \<le> unat (core_align_up v LARGE_PAGE_SIZE)"
    "unat (core_align_up v LARGE_PAGE_SIZE) < unat v + 2 ^ 21"
proof -
  have u: "unat (core_align_up v LARGE_PAGE_SIZE) = (unat v + 2 ^ 21 - 1) div 2 ^ 21 * 2 ^ 21"
    using assms by (intro align_up_large) simp
  show "2 ^ 21 dvd unat (core_align_up v LARGE_PAGE_SIZE)" unfolding u by simp
  have "(unat v + 2 ^ 21 - 1) div 2 ^ 21 * 2 ^ 21 + (unat v + 2 ^ 21 - 1) mod 2 ^ 21 = unat v + 2 ^ 21 - 1"
    by (rule div_mult_mod_eq)
  moreover have "(unat v + 2 ^ 21 - 1) mod 2 ^ 21 < 2 ^ 21" by simp
  ultimately show "unat v \<le> unat (core_align_up v LARGE_PAGE_SIZE)" "unat (core_align_up v LARGE_PAGE_SIZE) < unat v + 2 ^ 21"
    unfolding u by linarith+
qed

lemma align_up_id:
  assumes "2 ^ 21 dvd unat v" "unat v \<le> 2 ^ 63"
  shows "core_align_up v LARGE_PAGE_SIZE = v"
proof -
  obtain c where c: "unat v = 2 ^ 21 * c" using assms(1) by (rule dvdE)
  have "unat (core_align_up v LARGE_PAGE_SIZE) = unat v" unfolding align_up_large [OF assms(2)] c by simp
  then show ?thesis by (simp add: word_unat_eq_iff)
qed

lemma mb_unat: "unat mb \<le> 2 ^ 42 \<Longrightarrow> unat (mb * 1024 * 1024 :: u64) = unat mb * 2 ^ 20"
proof -
  assume m: "unat mb \<le> 2 ^ 42"
  have a: "unat (mb * 1024) = unat mb * 1024" using unat_mul_no_wrap [of mb 1024] m by simp
  then show ?thesis using unat_mul_no_wrap [of "mb * 1024" 1024] m by simp
qed

section \<open>The free list\<close>

definition block_ok :: "u64 \<times> u64 \<Rightarrow> bool" where
  "block_ok b \<longleftrightarrow> 0 < snd b \<and> 2 ^ 21 dvd unat (fst b) \<and> 2 ^ 21 dvd unat (snd b) \<and> unat (fst b) + unat (snd b) \<le> 2 ^ 63"

lemma block_end: "block_ok b \<Longrightarrow> unat (fst b + snd b) = unat (fst b) + unat (snd b)"
  by (intro unat_add_no_wrap) (simp add: block_ok_def)

lemma merge_free_ok:
  assumes "list_all block_ok merged" "block_ok b"
  shows "list_all block_ok (merge_free b merged) \<and> cover (merge_free b merged) a = cover merged a + of_bool (in_block a b)"
proof (cases "merged \<noteq> [] \<and> fst (last merged) + snd (last merged) = fst b")
  case True
  then obtain ms l where m: "merged = ms @ [l]" by (metis append_butlast_last_id)
  have e: "fst b = fst l + snd l" using True by (simp add: m)
  have l: "block_ok l" using assms(1) by (simp add: m)
  have "unat (fst l) + unat (snd l) + unat (snd b) \<le> 2 ^ 63" using assms(2) block_end [OF l] by (simp add: block_ok_def e)
  moreover from this have "unat (snd l + snd b) = unat (snd l) + unat (snd b)" by (intro unat_add_no_wrap) simp
  ultimately have "block_ok (fst l, snd l + snd b)"
    and "of_bool (in_block a l) + of_bool (in_block a b) = (of_bool (in_block a (fst l, snd l + snd b)) :: nat)"
    using l assms(2) cover_join [of "fst l" "snd l" "snd b" a]
    by (simp_all add: block_ok_def dvd_add word_less_nat_alt in_block_def e)
  then show ?thesis using assms(1) e by (simp add: m merge_free_def)
next
  case False
  then show ?thesis using assms by (auto simp: merge_free_def)
qed

lemma fold_merge_ok:
  "list_all block_ok bs \<Longrightarrow> list_all block_ok merged \<Longrightarrow>
   list_all block_ok (fold merge_free bs merged) \<and> cover (fold merge_free bs merged) a = cover merged a + cover bs a"
proof (induction bs arbitrary: merged)
  case (Cons b bs)
  have "list_all block_ok (merge_free b merged)" "cover (merge_free b merged) a = cover merged a + of_bool (in_block a b)"
    using merge_free_ok [of merged b a] Cons.prems by simp_all
  then show ?case using Cons.IH [of "merge_free b merged"] Cons.prems by simp
qed simp

text \<open>Disjoint blocks in the order of their addresses are left with a gap between any two.\<close>

definition gapped :: "(u64 \<times> u64) list \<Rightarrow> bool" where
  "gapped bs \<longleftrightarrow> sorted_wrt (\<lambda>x y. unat (fst x) + unat (snd x) < unat (fst y)) bs"

lemma cover_disjoint:
  assumes "cover bs a \<le> 1" "bs = xs @ x # ys" "y \<in> set ys" "in_block a x"
  shows "\<not> in_block a y"
proof
  assume "in_block a y"
  then have "0 < cover ys a" using assms(3) by (auto simp: cover_pos_iff)
  then show False using assms(1,2,4) by simp
qed

lemma before_next:
  assumes "\<And>a. cover (xs @ x # ys) a \<le> 1" "y \<in> set ys" "fst x \<le> fst y" "0 < snd y"
  shows "unat (fst x) + unat (snd x) \<le> unat (fst y)"
proof (rule ccontr)
  assume "\<not> ?thesis"
  then have "in_block (unat (fst y)) x" "in_block (unat (fst y)) y"
    using assms(3,4) by (simp_all add: in_block_def word_le_nat_alt word_less_nat_alt)
  then show False using cover_disjoint [OF assms(1) refl assms(2)] by blast
qed

lemma fold_merge_gapped:
  assumes "\<And>a. cover (merged @ bs) a \<le> 1" "list_all block_ok merged" "list_all block_ok bs"
    "sorted_wrt (\<lambda>x y. fst x \<le> fst y) bs" "\<forall>x \<in> set merged. \<forall>y \<in> set bs. fst x \<le> fst y" "gapped merged"
  shows "gapped (fold merge_free bs merged)"
  using assms
proof (induction bs arbitrary: merged)
  case (Cons b bs)
  note ok = merge_free_ok [OF Cons.prems(2), of b] and b = Cons.prems(3)
  have "gapped (merge_free b merged) \<and> (\<forall>x \<in> set (merge_free b merged). \<forall>y \<in> set bs. fst x \<le> fst y)"
  proof (cases merged rule: rev_cases)
    case Nil
    then show ?thesis using Cons.prems(4) by (simp add: merge_free_def gapped_def)
  next
    case (snoc ms l)
    have l: "block_ok l" using Cons.prems(2) by (simp add: snoc)
    have "unat (fst l) + unat (snd l) \<le> unat (fst b)"
      using before_next [of ms l "b # bs" b] Cons.prems(1,3,5) by (simp add: snoc block_ok_def)
    moreover have "\<forall>x \<in> set ms. unat (fst x) + unat (snd x) < unat (fst l)"
      using Cons.prems(6) by (simp add: snoc gapped_def sorted_wrt_append)
    moreover have "fst l + snd l = fst b \<longleftrightarrow> unat (fst l) + unat (snd l) = unat (fst b)"
      using block_end [OF l] by (simp add: word_unat_eq_iff)
    ultimately show ?thesis using Cons.prems(4-6)
      by (fastforce simp: merge_free_def snoc gapped_def sorted_wrt_append)
  qed
  moreover have "cover (merge_free b merged @ bs) a \<le> 1" for a
    using Cons.prems(1) [of a] ok [of a] b by simp
  ultimately show ?case using Cons.IH [of "merge_free b merged"] Cons.prems(4) ok b by simp
qed simp

section \<open>The invariant\<close>

lemma mset_om_insert: "map_of m k = None \<Longrightarrow> mset (om_insert k v m) = add_mset (k, v) (mset m)"
  by (induction k v m rule: om_insert.induct) (auto split: if_splits)

lemma mset_om_remove:
  "distinct (map fst m) \<Longrightarrow> map_of m k = Some v \<Longrightarrow> mset m = add_mset (k, v) (mset (om_remove k m))"
proof (induction m)
  case (Cons p m)
  obtain a b where p: "p = (a, b)" by (cases p)
  show ?case
  proof (cases "a = k")
    case True
    then have "om_remove k m = m" using Cons.prems p by (force simp: om_remove_def filter_id_conv)
    then show ?thesis using Cons.prems True p by (simp add: om_remove_def)
  next
    case False
    then show ?thesis using Cons p by (simp add: om_remove_def)
  qed
qed simp

definition region_block :: "u64 \<times> CoreMemoryRegion \<Rightarrow> u64 \<times> u64" where
  "region_block p = (fst p, cr_size (snd p))"

definition blocks :: "MemoryManager \<Rightarrow> (u64 \<times> u64) list" where
  "blocks m = map region_block (mgr_regions m) @ free_list m"

text \<open>The blocks that are handed out or free cover every byte between the reserved part and the bump pointer once.\<close>

definition space_ok :: "u64 \<Rightarrow> u64 \<Rightarrow> u64 \<Rightarrow> (u64 \<times> u64) list \<Rightarrow> bool" where
  "space_ok r t n bs \<longleftrightarrow> list_all block_ok bs \<and> 2 ^ 21 dvd unat n \<and> unat r \<le> unat n \<and>
     unat n \<le> max (unat r) (unat t) \<and> unat n \<le> 2 ^ 63 \<and>
     (\<forall>a. cover bs a = of_bool (unat r \<le> a \<and> a < unat n))"

definition regions_ok :: "(u64, CoreMemoryRegion) omap \<Rightarrow> bool" where
  "regions_ok rs \<longleftrightarrow> om_wf rs \<and> (\<forall>(k, r) \<in> set rs. host_base r = k) \<and> distinct (map (cr_guest_id \<circ> snd) rs)"

definition guest_map :: "string \<Rightarrow> CoreMemoryRegion \<Rightarrow> CoreMemoryMap" where
  "guest_map g r = cm_add 0 (host_base r) (cr_size r) (cm_new g)"

definition mgr_wf :: "MemoryManager \<Rightarrow> bool" where
  "mgr_wf m \<longleftrightarrow> regions_ok (mgr_regions m) \<and> (\<forall>g. memory_maps m g = map_option (guest_map g) (get_region m g)) \<and>
     unat (total_bytes m) \<le> 2 ^ 63 \<and> space_ok (reserved_bytes m) (total_bytes m) (next_base m) (blocks m)"

lemma space_ok_mset: "mset bs = mset cs \<Longrightarrow> space_ok r t n bs = space_ok r t n cs"
  using cover_mset [of bs cs] by (simp add: space_ok_def list_all_iff set_mset_mset [symmetric] del: set_mset_mset)

lemma space_ok_cover: "space_ok r t n bs \<Longrightarrow> list_all block_ok cs \<Longrightarrow> (\<And>a. cover cs a = cover bs a) \<Longrightarrow> space_ok r t n cs"
  by (simp add: space_ok_def)

lemma space_bounds:
  assumes "space_ok r t n bs" "b \<in> set bs"
  shows "unat r \<le> unat (fst b)" "unat (fst b) + unat (snd b) \<le> unat n"
proof -
  have c: "0 < cover bs a \<longleftrightarrow> unat r \<le> a \<and> a < unat n" for a using assms(1) by (simp add: space_ok_def)
  have "0 < unat (snd b)" using assms by (auto simp: space_ok_def list_all_iff block_ok_def word_less_nat_alt)
  then have "in_block (unat (fst b)) b" "in_block (unat (fst b) + unat (snd b) - 1) b" by (auto simp: in_block_def)
  then have "0 < cover bs (unat (fst b))" "0 < cover bs (unat (fst b) + unat (snd b) - 1)"
    using assms(2) by (auto simp: cover_pos_iff)
  then show "unat r \<le> unat (fst b)" "unat (fst b) + unat (snd b) \<le> unat n" unfolding c by linarith+
qed

lemma get_region_iff:
  assumes "regions_ok (mgr_regions m)"
  shows "get_region m g = Some r \<longleftrightarrow> (\<exists>k. (k, r) \<in> set (mgr_regions m)) \<and> cr_guest_id r = g"
proof
  assume "get_region m g = Some r"
  then show "(\<exists>k. (k, r) \<in> set (mgr_regions m)) \<and> cr_guest_id r = g"
    unfolding get_region_def by (force dest: find_SomeD)
next
  assume r: "(\<exists>k. (k, r) \<in> set (mgr_regions m)) \<and> cr_guest_id r = g"
  then have "\<exists>x. get_region m g = Some x" unfolding get_region_def
    by (force simp: find_None_iff not_None_eq [symmetric] simp del: not_None_eq)
  then obtain x where x: "get_region m g = Some x" ..
  then have "x \<in> snd ` set (mgr_regions m)" "cr_guest_id x = g" unfolding get_region_def by (auto dest: find_SomeD)
  moreover have "inj_on (cr_guest_id \<circ> snd) (set (mgr_regions m))" using assms by (simp add: regions_ok_def distinct_map)
  ultimately have "x = r" using r by (auto simp: inj_on_def)
  with x show "get_region m g = Some r" by simp
qed

lemma get_region_None_iff: "get_region m g = None \<longleftrightarrow> (\<forall>(k, r) \<in> set (mgr_regions m). cr_guest_id r \<noteq> g)"
  by (auto simp: get_region_def find_None_iff)

lemma mgr_new_wf:
  assumes "unat total_mb \<le> 2 ^ 42" "unat reserved_mb \<le> 2 ^ 42"
  shows "mgr_wf (mgr_new total_mb reserved_mb)"
proof -
  have "unat (total_mb * 1024 * 1024) \<le> 2 ^ 62" "unat (reserved_mb * 1024 * 1024) \<le> 2 ^ 62"
    using mb_unat [OF assms(1)] mb_unat [OF assms(2)] assms by simp_all
  from align_up_bounds [OF this(1)] align_up_bounds [OF this(2)] this show ?thesis
    by (simp add: mgr_wf_def mgr_new_def Let_def regions_ok_def get_region_def space_ok_def blocks_def)
qed

section \<open>The operations\<close>

lemma take_space_spec:
  assumes wf: "mgr_wf m" and sz: "0 < sz" "2 ^ 21 dvd unat sz" "unat sz < 2 ^ 63" and t: "take_space g sz m = Inr (base, m1)"
  shows "mgr_regions m1 = mgr_regions m \<and> memory_maps m1 = memory_maps m \<and> total_bytes m1 = total_bytes m \<and>
    reserved_bytes m1 = reserved_bytes m \<and> space_ok (reserved_bytes m) (total_bytes m) (next_base m1) ((base, sz) # blocks m1)"
proof (cases "find_free_slot sz m")
  case (Some i)
  obtain b s where bs: "free_list m ! i = (b, s)" by (cases "free_list m ! i")
  have i: "i < length (free_list m)" "sz \<le> s"
    using position_SomeD [OF Some [unfolded find_free_slot_def]] by (simp_all add: bs)
  define rest where "rest = take i (free_list m) @ drop (Suc i) (free_list m)"
  have "free_list m = take i (free_list m) @ (b, s) # drop (Suc i) (free_list m)"
    using id_take_nth_drop [OF i(1)] by (simp add: bs)
  from arg_cong [OF this, of mset] have ms: "mset (free_list m) = add_mset (b, s) (mset rest)" by (simp add: rest_def)
  then have sp: "space_ok (reserved_bytes m) (total_bytes m) (next_base m) ((b, s) # map region_block (mgr_regions m) @ rest)"
    using wf space_ok_mset [of "blocks m" "(b, s) # map region_block (mgr_regions m) @ rest"] by (simp add: mgr_wf_def blocks_def)
  then have ok: "block_ok (b, s)" by (simp add: space_ok_def)
  have m1: "base = b" "m1 = m\<lparr>free_list := (if s - sz > 0 then rest @ [(b + sz, s - sz)] else rest)\<rparr>"
    using t by (auto simp: take_space_def Some bs rest_def Let_def)
  have le: "unat sz \<le> unat s" "unat (s - sz) = unat s - unat sz" using i(2) by (simp_all add: word_le_nat_alt unat_diff)
  have "unat b + unat s \<le> 2 ^ 63" using ok by (simp add: block_ok_def)
  note split = cover_split [OF i(2) this]
  have "unat (b + sz) = unat b + unat sz" using ok le(1) by (intro unat_add_no_wrap) (simp add: block_ok_def)
  then have parts: "block_ok (b, sz)" "s - sz > 0 \<Longrightarrow> block_ok (b + sz, s - sz)"
    using ok sz le by (simp_all add: block_ok_def dvd_add dvd_diff_nat)
  have "s = sz" if "\<not> s - sz > 0" using that by (simp add: word_gt_0)
  then have "cover ((base, sz) # blocks m1) a = cover ((b, s) # map region_block (mgr_regions m) @ rest) a" for a
    using split [of a] by (auto simp: m1 blocks_def)
  moreover have "list_all block_ok ((base, sz) # blocks m1)"
    using sp parts by (simp add: space_ok_def m1 blocks_def)
  ultimately have "space_ok (reserved_bytes m) (total_bytes m) (next_base m) ((base, sz) # blocks m1)"
    using space_ok_cover [OF sp] by blast
  then show ?thesis by (simp add: m1)
next
  case None
  have n: "2 ^ 21 dvd unat (next_base m)" "unat (next_base m) \<le> 2 ^ 63"
    and sp: "space_ok (reserved_bytes m) (total_bytes m) (next_base m) (blocks m)"
    using wf by (simp_all add: mgr_wf_def space_ok_def)
  have m1: "base = next_base m" "m1 = m\<lparr>next_base := next_base m + sz\<rparr>" "next_base m + sz \<le> total_bytes m"
    using t align_up_id [OF n] by (auto simp: take_space_def None Let_def not_less split: if_splits)
  have u: "unat (next_base m + sz) = unat (next_base m) + unat sz" using n(2) sz(3) by (intro unat_add_no_wrap) simp
  have "unat (next_base m) + unat sz \<le> unat (total_bytes m)" "unat (total_bytes m) \<le> 2 ^ 63"
    using m1(3) u wf by (simp_all add: word_le_nat_alt mgr_wf_def)
  then have "space_ok (reserved_bytes m) (total_bytes m) (next_base m1) ((base, sz) # blocks m1)"
    using sp n sz u by (auto simp: space_ok_def m1 blocks_def block_ok_def in_block_def dvd_add)
  then show ?thesis by (simp add: m1)
qed

lemma no_overlap:
  assumes sp: "space_ok r t n ((base, sz) # blocks m)"
  shows "check_overlap base sz g m = None" "map_of (mgr_regions m) base = None"
proof -
  have apart: "\<not> (base < k + cr_size x \<and> base + sz > k) \<and> k \<noteq> base" if x: "(k, x) \<in> set (mgr_regions m)" for k x
  proof -
    have b: "block_ok (base, sz)" "block_ok (k, cr_size x)" and in_bs: "(k, cr_size x) \<in> set (blocks m)"
      using sp x by (force simp: space_ok_def blocks_def list_all_iff region_block_def)+
    have c: "cover ((base, sz) # blocks m) a \<le> 1" for a using sp by (simp add: space_ok_def)
    have "\<not> (in_block a (base, sz) \<and> in_block a (k, cr_size x))" for a
      using cover_disjoint [OF c, of "[]" "(base, sz)" "blocks m" "(k, cr_size x)" a] in_bs by simp
    from this [of "max (unat base) (unat k)"] show ?thesis
      using b block_end [OF b(1)] block_end [OF b(2)] by (auto simp: in_block_def word_less_nat_alt block_ok_def split: split_max)
  qed
  show "check_overlap base sz g m = None" using apart by (force simp: check_overlap_def find_None_iff)
  show "map_of (mgr_regions m) base = None" using apart by (force simp: map_of_eq_None_iff)
qed

lemma mgr_allocate_wf:
  assumes wf: "mgr_wf m" and sz: "0 < size_mb" "unat size_mb \<le> 2 ^ 42" and a: "mgr_allocate g size_mb m = (r, m')"
  shows "mgr_wf m' \<and> total_bytes m' = total_bytes m \<and> reserved_bytes m' = reserved_bytes m"
proof -
  define s where "s = core_align_up (size_mb * 1024 * 1024) LARGE_PAGE_SIZE"
  have "unat (size_mb * 1024 * 1024) \<le> 2 ^ 62" "0 < unat (size_mb * 1024 * 1024)"
    using mb_unat [OF sz(2)] sz by (simp_all add: word_less_nat_alt)
  from align_up_bounds [OF this(1)] this have s: "0 < s" "2 ^ 21 dvd unat s" "unat s < 2 ^ 63"
    by (simp_all add: s_def word_less_nat_alt)
  note al = a [unfolded mgr_allocate_def, folded s_def, unfolded Let_def]
  show ?thesis
  proof (cases "get_region m g = None \<and> (\<exists>b m1. take_space g s m = Inr (b, m1))")
    case False
    then have "m' = m" using al by (auto simp: get_region_None_iff list_ex_iff split: if_splits sum.splits)
    then show ?thesis using wf by simp
  next
    case True
    then obtain b m1 where t: "take_space g s m = Inr (b, m1)" by blast
    note sp = take_space_spec [OF wf s t]
    note no = no_overlap [of "reserved_bytes m" "total_bytes m" "next_base m1" b s m1]
    have new: "\<forall>(k, r) \<in> set (mgr_regions m). cr_guest_id r \<noteq> g" using True by (simp add: get_region_None_iff)
    define x where "x = \<lparr>host_base = b, cr_size = s, cr_guest_id = g\<rparr>"
    have m': "m' = m1\<lparr>mgr_regions := om_insert b x (mgr_regions m), memory_maps := (memory_maps m)(g \<mapsto> guest_map g x)\<rparr>"
      using al t no(1) sp new by (auto simp: list_ex_iff x_def guest_map_def split: if_splits)
    have ms: "mset (om_insert b x (mgr_regions m)) = mset ((b, x) # mgr_regions m)"
      using no(2) sp by (simp add: mset_om_insert)
    have rg: "regions_ok (mgr_regions m)" and maps: "\<And>g. memory_maps m g = map_option (guest_map g) (get_region m g)"
      using wf by (simp_all add: mgr_wf_def)
    have "distinct (map (cr_guest_id \<circ> snd) (om_insert b x (mgr_regions m))) \<longleftrightarrow> distinct (map (cr_guest_id \<circ> snd) ((b, x) # mgr_regions m))"
      using ms by (intro mset_eq_imp_distinct_iff) (simp only: mset_map)
    moreover have "set (om_insert b x (mgr_regions m)) = insert (b, x) (set (mgr_regions m))"
      using mset_eq_setD [OF ms] by simp
    ultimately have rg': "regions_ok (mgr_regions m')" using rg new om_insert_wf [of "mgr_regions m" b x]
      by (auto simp: regions_ok_def m' x_def)
    have reg: "get_region m' h = (if h = g then Some x else get_region m h)" for h
    proof -
      have "get_region m' h = Some y \<longleftrightarrow> (if h = g then Some x else get_region m h) = Some y" for y
        using new unfolding get_region_iff [OF rg'] using get_region_iff [OF rg, of h y]
          \<open>set (om_insert b x (mgr_regions m)) = _\<close> by (auto simp: m' x_def)
      then show ?thesis by (metis not_Some_eq)
    qed
    have "mset (blocks m') = mset ((b, s) # blocks m1)"
      using sp ms by (simp add: blocks_def m' region_block_def x_def mset_map [symmetric] del: mset_map) (simp add: region_block_def)
    then have "space_ok (reserved_bytes m) (total_bytes m) (next_base m1) (blocks m')" using sp space_ok_mset by blast
    moreover have "\<forall>h. memory_maps m' h = map_option (guest_map h) (get_region m' h)" unfolding reg by (simp add: m' maps)
    ultimately show ?thesis using rg' sp wf by (simp add: mgr_wf_def m')
  qed
qed

lemma coalesce_blocks:
  assumes "list_all block_ok (free_list m)"
  shows "list_all block_ok (free_list (coalesce_free_list m))" "cover (free_list (coalesce_free_list m)) a = cover (free_list m) a"
proof -
  have "list_all block_ok (sort_key fst (free_list m))" using assms by (simp add: list_all_iff)
  from fold_merge_ok [OF this, of "[]" a] cover_mset [of "sort_key fst (free_list m)" "free_list m" a] assms
  show "list_all block_ok (free_list (coalesce_free_list m))" "cover (free_list (coalesce_free_list m)) a = cover (free_list m) a"
    by (simp_all add: coalesce_free_list_def)
qed

lemma coalesce_gapped:
  assumes "list_all block_ok (free_list m)" "\<And>a. cover (free_list m) a \<le> 1"
  shows "gapped (free_list (coalesce_free_list m))"
proof (cases "length (free_list m) < 2")
  case True
  then obtain b where "free_list m = [] \<or> free_list m = [b]" by (cases "free_list m" rule: remdups_adj.cases) auto
  then show ?thesis by (auto simp: coalesce_free_list_def gapped_def)
next
  case False
  have "sorted_wrt (\<lambda>x y. fst x \<le> fst y) (sort_key fst (free_list m))" using sorted_sort_key [of fst "free_list m"] by (simp add: sorted_map)
  then have "gapped (fold merge_free (sort_key fst (free_list m)) [])"
    using assms cover_mset [of "sort_key fst (free_list m)" "free_list m"]
    by (intro fold_merge_gapped) (simp_all add: list_all_iff gapped_def)
  then show ?thesis using False by (simp add: coalesce_free_list_def)
qed

lemma coalesce_fields [simp]:
  "mgr_regions (coalesce_free_list m) = mgr_regions m" "memory_maps (coalesce_free_list m) = memory_maps m"
  "total_bytes (coalesce_free_list m) = total_bytes m" "reserved_bytes (coalesce_free_list m) = reserved_bytes m"
  "next_base (coalesce_free_list m) = next_base m"
  by (simp_all add: coalesce_free_list_def)

lemma mgr_deallocate_cases:
  assumes wf: "mgr_wf m" and d: "mgr_deallocate g m = (r, m')"
  obtains (missing) "r = Inl (NoRegion g)" "m' = m" "get_region m g = None"
  | (freed) k x m1 where "r = Inr ()" "m' = coalesce_free_list m1" "(k, x) \<in> set (mgr_regions m)" "cr_guest_id x = g"
      "mset (mgr_regions m) = add_mset (k, x) (mset (mgr_regions m1))"
      "m1 = m\<lparr>mgr_regions := om_remove k (mgr_regions m), memory_maps := (memory_maps m)(g := None), free_list := free_list m @ [(k, cr_size x)]\<rparr>"
proof (cases "get_region m g")
  case None
  then show ?thesis using d missing by (auto simp: mgr_deallocate_def)
next
  case (Some x)
  have rg: "regions_ok (mgr_regions m)" using wf by (simp add: mgr_wf_def)
  from Some obtain k where k: "(k, x) \<in> set (mgr_regions m)" "cr_guest_id x = g" by (auto simp: get_region_iff [OF rg])
  have om: "om_wf (mgr_regions m)" "host_base x = k" using rg k(1) by (auto simp: regions_ok_def)
  then have mk: "map_of (mgr_regions m) k = Some x" using k(1) by (simp add: map_of_iff_mem)
  note ms = mset_om_remove [OF om_wf_distinct [OF om(1)] mk]
  show ?thesis using d freed [OF _ _ k] ms by (auto simp: mgr_deallocate_def Some om(2) mk)
qed

lemma mgr_deallocate_space:
  assumes wf: "mgr_wf m" and ms: "mset (mgr_regions m) = add_mset (k, x) (mset (mgr_regions m1))"
    and fl: "free_list m1 = free_list m @ [(k, cr_size x)]"
  shows "space_ok (reserved_bytes m) (total_bytes m) (next_base m) (blocks m1)"
    "space_ok (reserved_bytes m) (total_bytes m) (next_base m) (blocks (coalesce_free_list m1))"
proof -
  have "mset (map region_block (mgr_regions m)) = add_mset (k, cr_size x) (mset (map region_block (mgr_regions m1)))"
    using ms by (simp add: region_block_def)
  then have "mset (blocks m) = mset (blocks m1)" by (simp add: blocks_def fl)
  from space_ok_mset [OF this] show sp: "space_ok (reserved_bytes m) (total_bytes m) (next_base m) (blocks m1)"
    using wf by (simp add: mgr_wf_def)
  then have ok: "list_all block_ok (map region_block (mgr_regions m1))" "list_all block_ok (free_list m1)"
    by (simp_all add: space_ok_def blocks_def)
  show "space_ok (reserved_bytes m) (total_bytes m) (next_base m) (blocks (coalesce_free_list m1))"
    by (rule space_ok_cover [OF sp]) (use ok coalesce_blocks [OF ok(2)] in \<open>simp_all add: blocks_def\<close>)
qed

lemma mgr_deallocate_wf:
  assumes wf: "mgr_wf m" and d: "mgr_deallocate g m = (r, m')"
  shows "mgr_wf m' \<and> total_bytes m' = total_bytes m \<and> reserved_bytes m' = reserved_bytes m"
  using wf d
proof (cases rule: mgr_deallocate_cases)
  case missing
  then show ?thesis using wf by simp
next
  case (freed k x m1)
  have fl: "free_list m1 = free_list m @ [(k, cr_size x)]" by (simp add: freed(6))
  note sp = mgr_deallocate_space [OF wf freed(5) fl]
  have rg: "regions_ok (mgr_regions m)" and maps: "\<And>g. memory_maps m g = map_option (guest_map g) (get_region m g)"
    using wf by (simp_all add: mgr_wf_def)
  have "distinct (map (cr_guest_id \<circ> snd) (mgr_regions m)) \<longleftrightarrow> distinct (map (cr_guest_id \<circ> snd) ((k, x) # mgr_regions m1))"
    using freed(5) by (intro mset_eq_imp_distinct_iff) simp
  then have dist: "distinct (map (cr_guest_id \<circ> snd) ((k, x) # mgr_regions m1))" using rg by (simp add: regions_ok_def)
  have set: "set (mgr_regions m) = insert (k, x) (set (mgr_regions m1))" using mset_eq_setD [of "mgr_regions m" "(k, x) # mgr_regions m1"] freed(5) by simp
  have rg': "regions_ok (mgr_regions m1)" using rg dist set om_remove_wf [of "mgr_regions m" k] by (auto simp: regions_ok_def freed(6))
  have "get_region m1 h = (if h = g then None else get_region m h)" for h
  proof -
    have "get_region m1 h = Some y \<longleftrightarrow> (if h = g then None else get_region m h) = Some y" for y
      using dist freed(4) unfolding get_region_iff [OF rg'] using get_region_iff [OF rg, of h y] set by (auto simp: image_iff)
    then show ?thesis by (metis not_Some_eq)
  qed
  moreover have "get_region m' = get_region m1" by (simp add: freed(2) get_region_def fun_eq_iff)
  ultimately have "\<forall>h. memory_maps m' h = map_option (guest_map h) (get_region m' h)" by (simp add: freed(2,6) maps)
  then show ?thesis using wf rg' sp(2) by (simp add: mgr_wf_def freed(2)) (simp add: freed(6))
qed

datatype mgr_op = Allocate string u64 | Deallocate string

fun mgr_step :: "mgr_op \<Rightarrow> MemoryManager \<Rightarrow> MemoryManager" where
  "mgr_step (Allocate g size_mb) m = snd (mgr_allocate g size_mb m)"
| "mgr_step (Deallocate g) m = snd (mgr_deallocate g m)"

text \<open>Sizes a caller has checked: at least one megabyte, and no more than 4 EiB, so that no byte count wraps.\<close>

fun op_ok :: "mgr_op \<Rightarrow> bool" where
  "op_ok (Allocate g size_mb) \<longleftrightarrow> 0 < size_mb \<and> size_mb \<le> bitmask 42"
| "op_ok (Deallocate g) \<longleftrightarrow> True"

definition mgr_run :: "mgr_op list \<Rightarrow> u64 \<Rightarrow> u64 \<Rightarrow> MemoryManager" where
  "mgr_run ops total_mb reserved_mb = fold mgr_step ops (mgr_new total_mb reserved_mb)"

lemma size_bound: "v \<le> bitmask 42 \<longleftrightarrow> unat v \<le> 2 ^ 42" for v :: u64
  by (simp add: word_le_nat_alt bitmask_numeral push_bit_eq_mult)

lemma mgr_run_wf:
  assumes "total_mb \<le> bitmask 42" "reserved_mb \<le> bitmask 42" "list_all op_ok ops"
  shows "mgr_wf (mgr_run ops total_mb reserved_mb)"
proof -
  have "mgr_wf (fold mgr_step ops m)" if "mgr_wf m" "list_all op_ok ops" for m
    using that
  proof (induction ops arbitrary: m)
    case (Cons op ops)
    have "mgr_wf (mgr_step op m)"
    proof (cases op)
      case (Allocate g n)
      then show ?thesis using Cons.prems mgr_allocate_wf [of m n g] by (cases "mgr_allocate g n m") (simp add: size_bound)
    next
      case (Deallocate g)
      then show ?thesis using Cons.prems mgr_deallocate_wf [of m g] by (cases "mgr_deallocate g m") simp
    qed
    then show ?case using Cons by simp
  qed simp
  then show ?thesis using assms mgr_new_wf by (simp add: mgr_run_def size_bound)
qed

section \<open>Translation and accounting\<close>

lemma guest_map_translate:
  assumes "unat (host_base r) + unat (cr_size r) \<le> 2 ^ 63" "cm_translate (guest_map g r) a = Some p"
  shows "unat p = unat (host_base r) + unat a" "in_block (unat p) (host_base r, cr_size r)"
proof -
  have a: "unat a < unat (cr_size r)" "p = host_base r + a"
    using assms(2) by (auto simp: cm_translate_def guest_map_def cm_add_def cm_new_def word_less_nat_alt split: if_splits)
  then show "unat p = unat (host_base r) + unat a" using assms(1) by (simp add: unat_add_no_wrap)
  with a(1) show "in_block (unat p) (host_base r, cr_size r)" by (simp add: in_block_def)
qed

lemma guest_region:
  assumes "mgr_wf m" "get_memory_map m g = Some mg" "cm_translate mg a = Some p"
  shows "\<exists>k r. (k, r) \<in> set (mgr_regions m) \<and> cr_guest_id r = g \<and> unat p = unat k + unat a \<and>
    in_block (unat p) (region_block (k, r)) \<and> unat (reserved_bytes m) \<le> unat p \<and> unat p < unat (next_base m)"
proof -
  have rg: "regions_ok (mgr_regions m)" and sp: "space_ok (reserved_bytes m) (total_bytes m) (next_base m) (blocks m)"
    using assms(1) by (simp_all add: mgr_wf_def)
  obtain r where r: "get_region m g = Some r" "mg = guest_map g r"
    using assms(1,2) by (auto simp: mgr_wf_def get_memory_map_def)
  from r(1) obtain k where k: "(k, r) \<in> set (mgr_regions m)" "cr_guest_id r = g" by (auto simp: get_region_iff [OF rg])
  have kb: "host_base r = k" using rg k(1) by (auto simp: regions_ok_def)
  have bl: "region_block (k, r) \<in> set (blocks m)" using k(1) by (auto simp: blocks_def)
  have "block_ok (region_block (k, r))" using sp bl by (auto simp: space_ok_def list_all_iff)
  then have "unat (host_base r) + unat (cr_size r) \<le> 2 ^ 63" by (simp add: block_ok_def region_block_def kb)
  note t = guest_map_translate [OF this assms(3) [unfolded r(2)]]
  then show ?thesis using k kb space_bounds [OF sp bl] by (force simp: region_block_def in_block_def)
qed

lemma one_owner:
  assumes "mgr_wf m" "(k, r) \<in> set (mgr_regions m)" "(k', r') \<in> set (mgr_regions m)"
    "in_block a (region_block (k, r))" "in_block a (region_block (k', r'))"
  shows "(k, r) = (k', r')"
proof (rule ccontr)
  assume ne: "(k, r) \<noteq> (k', r')"
  from assms(2,3) obtain i j where ij: "i < length (mgr_regions m)" "mgr_regions m ! i = (k, r)"
    "j < length (mgr_regions m)" "mgr_regions m ! j = (k', r')" by (auto simp: in_set_conv_nth)
  then have "2 \<le> cover (blocks m) a"
    using assms(4,5) ne by (intro cover_two [of i _ j]) (auto simp: blocks_def nth_append)
  moreover have "cover (blocks m) a \<le> 1" using assms(1) by (simp add: mgr_wf_def space_ok_def)
  ultimately show False by simp
qed

lemma next_in_total:
  assumes "mgr_wf m" "unat (reserved_bytes m) \<le> unat p" "unat p < unat (next_base m)"
  shows "unat p < unat (total_bytes m)"
  using assms by (auto simp: mgr_wf_def space_ok_def max_def split: if_splits)

lemma take_space_iff:
  assumes "mgr_wf m" "unat sz < 2 ^ 63"
  shows "(\<exists>b m1. take_space g sz m = Inr (b, m1)) \<longleftrightarrow>
    (\<exists>(b, s) \<in> set (free_list m). sz \<le> s) \<or> unat (next_base m) + unat sz \<le> unat (total_bytes m)"
proof -
  have n: "2 ^ 21 dvd unat (next_base m)" "unat (next_base m) \<le> 2 ^ 63" using assms(1) by (simp_all add: mgr_wf_def space_ok_def)
  have "unat (next_base m + sz) = unat (next_base m) + unat sz" using n(2) assms(2) by (intro unat_add_no_wrap) simp
  then show ?thesis using position_None_iff [of "\<lambda>(_, free_size). free_size \<ge> sz" "free_list m"] align_up_id [OF n]
    by (auto simp: take_space_def find_free_slot_def Let_def word_less_nat_alt split: option.splits prod.splits)
qed

text \<open>Blocks with gaps that cover a whole interval are one block.\<close>

lemma gapped_full:
  assumes "gapped bs" "space_ok r t n bs" "bs \<noteq> []"
  shows "bs = [(r, n - r)]"
proof -
  have c: "0 < cover bs a \<longleftrightarrow> unat r \<le> a \<and> a < unat n" for a using assms(2) by (simp add: space_ok_def)
  obtain b cs where bs: "bs = b # cs" using assms(3) by (cases bs) auto
  have "b \<in> set bs" by (simp add: bs)
  note bd = space_bounds [OF assms(2) this]
  have ok: "0 < unat (snd b)" using assms(2) by (simp add: space_ok_def bs block_ok_def word_less_nat_alt)
  have gap: "\<forall>y \<in> set cs. unat (fst b) + unat (snd b) < unat (fst y)" using assms(1) by (simp add: gapped_def bs)
  have first: "unat (fst b) = unat r"
  proof (rule ccontr)
    assume "unat (fst b) \<noteq> unat r"
    then have "unat r < unat (fst b)" using bd(1) by simp
    moreover from this have "unat r < unat n" using bd(2) by simp
    then have "0 < cover bs (unat r)" by (simp add: c)
    then obtain x where "x \<in> set bs" "in_block (unat r) x" by (auto simp: cover_pos_iff)
    ultimately show False using gap by (auto simp: bs in_block_def)
  qed
  have last: "unat (fst b) + unat (snd b) = unat n"
  proof (rule ccontr)
    assume "unat (fst b) + unat (snd b) \<noteq> unat n"
    then have "0 < cover bs (unat (fst b) + unat (snd b))" unfolding c using bd by linarith
    then obtain x where "x \<in> set bs" "in_block (unat (fst b) + unat (snd b)) x" by (auto simp: cover_pos_iff)
    then show False using gap by (auto simp: bs in_block_def)
  qed
  have "cs = []"
  proof (rule ccontr)
    assume "cs \<noteq> []"
    then obtain y where y: "y \<in> set cs" by (cases cs) auto
    then show False using gap last space_bounds(2) [OF assms(2), of y] by (auto simp: bs)
  qed
  moreover have "unat (n - r) = unat n - unat r" using assms(2) by (intro unat_diff) (simp add: word_le_nat_alt space_ok_def)
  then have "b = (r, n - r)" using first last by (auto simp: prod_eq_iff word_unat_eq_iff)
  ultimately show ?thesis by (simp add: bs)
qed

text \<open>
  Without the bounds on the sizes the books do not hold.  A guest of size 0 gets the address of the bump pointer, the next
  guest the same one, and the entry of the first is overwritten while its memory map stays.  A size whose byte count wraps
  is taken for a small one.
\<close>

lemma zero_size_guest_lost:
  "let m = snd (mgr_allocate ''b'' 2 (snd (mgr_allocate ''a'' 0 (mgr_new 16 0)))) in
     get_region m ''a'' = None \<and> get_memory_map m ''a'' \<noteq> None"
  by code_simp

lemma request_wraps:
  "fst (mgr_allocate ''a'' 0x100000000002 (mgr_new 16 0)) = Inr 0"
  by code_simp

section \<open>Properties\<close>

text \<open>
  C1 (safety).  Guests are isolated.  Whatever guests come and go, no two guest-physical addresses, of two guests or of one,
  translate to the same host address, and every translation lands outside the part reserved for the hypervisor and inside the
  host memory.
\<close>

theorem guest_isolation:
  assumes "total_mb \<le> bitmask 42" "reserved_mb \<le> bitmask 42" "list_all op_ok ops"
    and "m = mgr_run ops total_mb reserved_mb"
    and "get_memory_map m g = Some mg" "cm_translate mg a = Some p"
    and "get_memory_map m h = Some mh" "cm_translate mh b = Some p"
  shows "g = h \<and> a = b \<and> reserved_bytes m \<le> p \<and> p < total_bytes m"
proof -
  have wf: "mgr_wf m" using mgr_run_wf [OF assms(1-3)] assms(4) by simp
  from guest_region [OF wf assms(5,6)] obtain k r where r: "(k, r) \<in> set (mgr_regions m)" "cr_guest_id r = g"
    "unat p = unat k + unat a" "in_block (unat p) (region_block (k, r))"
    "unat (reserved_bytes m) \<le> unat p" "unat p < unat (next_base m)" by blast
  from guest_region [OF wf assms(7,8)] obtain k' r' where r': "(k', r') \<in> set (mgr_regions m)" "cr_guest_id r' = h"
    "unat p = unat k' + unat b" "in_block (unat p) (region_block (k', r'))" by blast
  have "(k, r) = (k', r')" by (rule one_owner [OF wf r(1) r'(1) r(4) r'(4)])
  then show ?thesis using r r' next_in_total [OF wf r(5,6)] by (auto simp: word_unat_eq_iff word_le_nat_alt word_less_nat_alt)
qed

theorem guest_isolation_witness:
  "\<exists>m mg mh. m = mgr_run [Allocate ''a'' 3, Allocate ''b'' 2] 16 1 \<and>
     get_memory_map m ''a'' = Some mg \<and> cm_translate mg 0x3FFFFF = Some 0x5FFFFF \<and>
     get_memory_map m ''b'' = Some mh \<and> (\<forall>b. cm_translate mh b \<noteq> Some 0x5FFFFF)"
proof -
  define m where "m = mgr_run [Allocate ''a'' 3, Allocate ''b'' 2] 16 1"
  have "(case get_memory_map m ''a'' of None \<Rightarrow> None | Some mg \<Rightarrow> cm_translate mg 0x3FFFFF) = Some 0x5FFFFF"
    and "get_memory_map m ''b'' \<noteq> None" unfolding m_def by code_simp+
  then obtain mg mh where g: "get_memory_map m ''a'' = Some mg" "cm_translate mg 0x3FFFFF = Some 0x5FFFFF"
    "get_memory_map m ''b'' = Some mh" by (auto split: option.splits)
  have "cm_translate mh b \<noteq> Some 0x5FFFFF" for b
    using guest_isolation [OF _ _ _ m_def g(1,2,3), of b] by (auto simp: bitmask_numeral push_bit_eq_mult)
  with g m_def show ?thesis by blast
qed

text \<open>
  C39 (error).  A request is refused exactly when the guest has a region already, or when no free block holds it and the host
  memory behind the bump pointer does not either; the overlap check never fails.
\<close>

theorem allocate_succeeds_iff:
  assumes "total_mb \<le> bitmask 42" "reserved_mb \<le> bitmask 42" "list_all op_ok ops"
    and "m = mgr_run ops total_mb reserved_mb" and "0 < size_mb" "size_mb \<le> bitmask 42"
    and "sz = core_align_up (size_mb * 1024 * 1024) LARGE_PAGE_SIZE"
  shows "(\<exists>base m'. mgr_allocate g size_mb m = (Inr base, m')) \<longleftrightarrow>
    get_region m g = None \<and> ((\<exists>(b, s) \<in> set (free_list m). sz \<le> s) \<or> unat (next_base m) + unat sz \<le> unat (total_bytes m))"
proof -
  have wf: "mgr_wf m" using mgr_run_wf [OF assms(1-3)] assms(4) by simp
  have "unat (size_mb * 1024 * 1024) \<le> 2 ^ 62" "0 < unat (size_mb * 1024 * 1024)"
    using mb_unat [of size_mb] assms(5,6) by (simp_all add: size_bound word_less_nat_alt)
  from align_up_bounds [OF this(1)] this have s: "0 < sz" "2 ^ 21 dvd unat sz" "unat sz < 2 ^ 63"
    by (simp_all add: assms(7) word_less_nat_alt)
  have "check_overlap b sz g m1 = None" if "take_space g sz m = Inr (b, m1)" for b m1
    using take_space_spec [OF wf s that] no_overlap(1) by blast
  then have "(\<exists>base m'. mgr_allocate g size_mb m = (Inr base, m')) \<longleftrightarrow>
      get_region m g = None \<and> (\<exists>b m1. take_space g sz m = Inr (b, m1))"
    unfolding mgr_allocate_def assms(7) [symmetric] Let_def
    by (auto simp: get_region_None_iff list_ex_iff split: sum.splits)
  then show ?thesis using take_space_iff [OF wf s(3)] by simp
qed

theorem allocate_succeeds_iff_witness:
  "(\<exists>base m'. mgr_allocate ''b'' 2 (mgr_run [Allocate ''a'' 3] 8 1) = (Inr base, m')) \<and>
   \<not> (\<exists>base m'. mgr_allocate ''b'' 3 (mgr_run [Allocate ''a'' 3] 8 1) = (Inr base, m'))"
proof -
  let ?m = "mgr_run [Allocate ''a'' 3] 8 1"
  have m: "get_region ?m ''b'' = None" "free_list ?m = []" "next_base ?m = 0x600000" "total_bytes ?m = 0x800000" by code_simp+
  have s: "core_align_up (2 * 1024 * 1024) LARGE_PAGE_SIZE = 0x200000" "core_align_up (3 * 1024 * 1024) LARGE_PAGE_SIZE = 0x400000"
    by code_simp+
  show ?thesis
    using allocate_succeeds_iff [OF _ _ _ refl, of 8 1 "[Allocate ''a'' 3]" 2 _ "''b''"]
      allocate_succeeds_iff [OF _ _ _ refl, of 8 1 "[Allocate ''a'' 3]" 3 _ "''b''"]
    unfolding m s by (simp add: bitmask_numeral push_bit_eq_mult)
qed

text \<open>
  C40 (liveness).  Memory is reclaimed: when the last guest has been deallocated the free list is one block that holds all the
  memory that was ever handed out.
\<close>

theorem memory_reclaimed:
  assumes "total_mb \<le> bitmask 42" "reserved_mb \<le> bitmask 42" "list_all op_ok ops"
    and "m = mgr_run ops total_mb reserved_mb" and "mgr_deallocate g m = (Inr (), m')" and "mgr_regions m' = []"
  shows "free_list m' = [(reserved_bytes m', next_base m' - reserved_bytes m')]"
proof -
  have wf: "mgr_wf m" using mgr_run_wf [OF assms(1-3)] assms(4) by simp
  from wf assms(5) obtain k x m1 where m1: "m' = coalesce_free_list m1" "mset (mgr_regions m) = add_mset (k, x) (mset (mgr_regions m1))"
    "free_list m1 = free_list m @ [(k, cr_size x)]" "next_base m1 = next_base m" "reserved_bytes m1 = reserved_bytes m"
    by (cases rule: mgr_deallocate_cases) auto
  note sp = mgr_deallocate_space [OF wf m1(2,3)]
  have r1: "mgr_regions m1 = []" using assms(6) m1(1) by simp
  have "gapped (free_list m')" unfolding m1(1) using sp(1) r1 by (intro coalesce_gapped) (simp_all add: space_ok_def blocks_def)
  moreover have fl: "space_ok (reserved_bytes m) (total_bytes m) (next_base m) (free_list m')"
    using sp(2) assms(6) by (simp add: m1(1) blocks_def)
  moreover have "free_list m' \<noteq> []"
  proof
    assume "free_list m' = []"
    then have "cover (free_list m1) a = 0" for a using coalesce_blocks(2) [of m1 a] sp(1) r1 m1(1) by (simp add: space_ok_def blocks_def)
    moreover have "block_ok (k, cr_size x)" using sp(1) m1(3) by (simp add: space_ok_def blocks_def)
    then have "in_block (unat k) (k, cr_size x)" by (simp add: in_block_def block_ok_def word_less_nat_alt)
    ultimately show False using m1(3) by simp
  qed
  ultimately show ?thesis using gapped_full [of "free_list m'"] by (simp add: m1(1,4,5))
qed

theorem memory_reclaimed_witness:
  "\<exists>m'. mgr_deallocate ''b'' (mgr_run [Allocate ''a'' 3, Allocate ''b'' 2, Deallocate ''a''] 16 1) = (Inr (), m') \<and>
     free_list m' = [(0x200000, 0x600000)]"
proof -
  let ?m = "mgr_run [Allocate ''a'' 3, Allocate ''b'' 2, Deallocate ''a''] 16 1"
  obtain r m' where d: "mgr_deallocate ''b'' ?m = (r, m')" by (cases "mgr_deallocate ''b'' ?m")
  have "fst (mgr_deallocate ''b'' ?m) = Inr ()" "mgr_regions (snd (mgr_deallocate ''b'' ?m)) = []"
    "reserved_bytes (snd (mgr_deallocate ''b'' ?m)) = 0x200000" "next_base (snd (mgr_deallocate ''b'' ?m)) = 0x800000"
    by code_simp+
  then have e: "r = Inr ()" "mgr_regions m' = []" "reserved_bytes m' = 0x200000" "next_base m' = 0x800000" by (simp_all add: d)
  have "free_list m' = [(reserved_bytes m', next_base m' - reserved_bytes m')]"
    using memory_reclaimed [OF _ _ _ refl d [unfolded e(1)] e(2)] by (simp add: bitmask_numeral push_bit_eq_mult)
  then show ?thesis using d e by simp
qed

end
