(* ===== verification/Ept.thy ===== *)
theory Ept
  imports Ordered_Map "HOL-Library.Multiset"
begin

text \<open>
  The per-guest second-level page table manager (\<open>enlil-core/src/ept.rs\<close>): mapping of pages and ranges,
  write protection for snapshots, and the dirty log for live migration.  The mappings are an ordered map and the
  two hash sets are sets; a vector collected from a hash set has no order to rely on, so the dirty bitmap is
  returned as the set of its elements.  Counters are 64-bit words.
\<close>

section \<open>Pages and mappings\<close>

definition PAGE_SIZE_4K :: u64 where "PAGE_SIZE_4K = 4096"
definition PAGE_SIZE_2M :: u64 where "PAGE_SIZE_2M = 2 * 1024 * 1024"
definition PAGE_SIZE_1G :: u64 where "PAGE_SIZE_1G = 1024 * 1024 * 1024"

record EptPermissions =
  ept_read :: bool
  ept_write :: bool
  ept_execute :: bool

definition EPT_RWX :: EptPermissions where "EPT_RWX = \<lparr>ept_read = True, ept_write = True, ept_execute = True\<rparr>"
definition EPT_RX :: EptPermissions where "EPT_RX = \<lparr>ept_read = True, ept_write = False, ept_execute = True\<rparr>"
definition EPT_RW :: EptPermissions where "EPT_RW = \<lparr>ept_read = True, ept_write = True, ept_execute = False\<rparr>"
definition EPT_RO :: EptPermissions where "EPT_RO = \<lparr>ept_read = True, ept_write = False, ept_execute = False\<rparr>"
definition EPT_NONE :: EptPermissions where "EPT_NONE = \<lparr>ept_read = False, ept_write = False, ept_execute = False\<rparr>"

datatype EptMemoryType = Uncacheable | WriteCombining | WriteThrough | WriteProtected | WriteBack

datatype PageSize = Page4K | Page2M | Page1G

fun page_bytes :: "PageSize \<Rightarrow> u64" where
  "page_bytes Page4K = PAGE_SIZE_4K"
| "page_bytes Page2M = PAGE_SIZE_2M"
| "page_bytes Page1G = PAGE_SIZE_1G"

record EptMapping =
  m_gpa :: u64
  m_hpa :: u64
  m_page_size :: PageSize
  m_permissions :: EptPermissions
  m_memory_type :: EptMemoryType
  m_dirty :: bool
  m_write_protected :: bool

definition effective_permissions :: "EptMapping \<Rightarrow> EptPermissions" where
  "effective_permissions m =
     (if m_write_protected m then (m_permissions m)\<lparr>ept_write := False\<rparr> else m_permissions m)"

section \<open>The manager\<close>

record EptStats =
  total_mappings :: u64
  write_protected_count :: u64
  dirty_page_count :: u64
  total_mapped_bytes :: u64
  map_operations :: u64
  unmap_operations :: u64
  protect_operations :: u64
  dirty_clears :: u64

record EptManager =
  guest_id :: string
  mappings :: "(u64, EptMapping) omap"
  write_protected_pages :: "u64 set"
  dirty_pages :: "u64 set"
  dirty_tracking_enabled :: bool
  stats :: EptStats

datatype EptError =
    MisalignedGpa u64 u64
  | MisalignedHpa u64 u64
  | AlreadyMapped u64
  | NotMapped u64
  | OverlappingMapping u64 u64

definition ept_new :: "string \<Rightarrow> EptManager" where
  "ept_new gid =
     \<lparr>guest_id = gid, mappings = [], write_protected_pages = {}, dirty_pages = {}, dirty_tracking_enabled = False,
      stats = \<lparr>total_mappings = 0, write_protected_count = 0, dirty_page_count = 0, total_mapped_bytes = 0,
               map_operations = 0, unmap_operations = 0, protect_operations = 0, dirty_clears = 0\<rparr>\<rparr>"

abbreviation on_stats :: "(EptStats \<Rightarrow> EptStats) \<Rightarrow> EptManager \<Rightarrow> EptManager" where
  "on_stats f e \<equiv> e\<lparr>stats := f (stats e)\<rparr>"

definition ept_lookup :: "u64 \<Rightarrow> EptManager \<Rightarrow> EptMapping option" where
  "ept_lookup gpa e = map_of (mappings e) gpa"

definition ept_map ::
  "u64 \<Rightarrow> u64 \<Rightarrow> PageSize \<Rightarrow> EptPermissions \<Rightarrow> EptMemoryType \<Rightarrow> EptManager \<Rightarrow> EptError + EptManager" where
  "ept_map gpa hpa page_size permissions memory_type e =
     (let sz = page_bytes page_size in
      if gpa mod sz \<noteq> 0 then Inl (MisalignedGpa gpa sz)
      else if hpa mod sz \<noteq> 0 then Inl (MisalignedHpa hpa sz)
      else if map_of (mappings e) gpa \<noteq> None then Inl (AlreadyMapped gpa)
      else
        let m = \<lparr>m_gpa = gpa, m_hpa = hpa, m_page_size = page_size, m_permissions = permissions,
                 m_memory_type = memory_type, m_dirty = False, m_write_protected = False\<rparr>
        in Inr (on_stats (\<lambda>st. st\<lparr>total_mappings := total_mappings st + 1,
                                 total_mapped_bytes := total_mapped_bytes st + sz,
                                 map_operations := map_operations st + 1\<rparr>)
                  (e\<lparr>mappings := om_insert gpa m (mappings e)\<rparr>)))"

lemma ept_map_mappings:
  assumes "ept_map gpa hpa ps pm mt e = Inr e'"
  shows "map_of (mappings e) gpa = None"
    "mappings e' = om_insert gpa \<lparr>m_gpa = gpa, m_hpa = hpa, m_page_size = ps, m_permissions = pm,
       m_memory_type = mt, m_dirty = False, m_write_protected = False\<rparr> (mappings e)"
  using assms by (auto simp: ept_map_def Let_def split: if_splits)

text \<open>The loop of \<open>map_range\<close> ends on every manager: each round that does not fail maps a page that was not mapped.\<close>

definition range_page_size :: "u64 \<Rightarrow> u64 \<Rightarrow> u64 \<Rightarrow> PageSize" where
  "range_page_size gpa hpa remaining =
     (if gpa mod PAGE_SIZE_2M = 0 \<and> hpa mod PAGE_SIZE_2M = 0 \<and> remaining \<ge> PAGE_SIZE_2M then Page2M else Page4K)"

function map_range_loop ::
  "u64 \<Rightarrow> u64 \<Rightarrow> u64 \<Rightarrow> EptPermissions \<Rightarrow> EptMemoryType \<Rightarrow> u64 \<Rightarrow> u64 \<Rightarrow> EptManager \<Rightarrow> (EptError + u64) \<times> EptManager" where
  "map_range_loop gpa_base hpa_base sz pm mt offset pages e =
     (if offset < sz then
        let gpa = gpa_base + offset; hpa = hpa_base + offset;
            ps = range_page_size gpa hpa (sz - offset)
        in case ept_map gpa hpa ps pm mt e of
             Inl err \<Rightarrow> (Inl err, e)
           | Inr e' \<Rightarrow> map_range_loop gpa_base hpa_base sz pm mt (offset + page_bytes ps) (pages + 1) e'
      else (Inr pages, e))"
  by pat_completeness auto

termination
proof (relation "measure (\<lambda>(gb, hb, sz, pm, mt, off, n, e). card (- dom (map_of (mappings e))))", goal_cases)
  case (2 gb hb sz pm mt off n e gpa hpa ps e')
  note m = ept_map_mappings [OF 2(5)]
  have "- dom (map_of (mappings e')) \<subset> - dom (map_of (mappings e))" using m by auto
  then show ?case by (simp add: psubset_card_mono)
qed simp

declare map_range_loop.simps [simp del]

definition map_range ::
  "u64 \<Rightarrow> u64 \<Rightarrow> u64 \<Rightarrow> EptPermissions \<Rightarrow> EptMemoryType \<Rightarrow> EptManager \<Rightarrow> (EptError + u64) \<times> EptManager" where
  "map_range gpa_base hpa_base sz pm mt e = map_range_loop gpa_base hpa_base sz pm mt 0 0 e"

definition ept_unmap :: "u64 \<Rightarrow> EptManager \<Rightarrow> EptError + EptMapping \<times> EptManager" where
  "ept_unmap gpa e =
     (case map_of (mappings e) gpa of
        None \<Rightarrow> Inl (NotMapped gpa)
      | Some m \<Rightarrow>
          let e1 = e\<lparr>mappings := om_remove gpa (mappings e), write_protected_pages := write_protected_pages e - {gpa},
                     dirty_pages := dirty_pages e - {gpa}\<rparr>;
              e2 = on_stats (\<lambda>st. st\<lparr>total_mappings := total_mappings st - 1,
                                    total_mapped_bytes := total_mapped_bytes st - page_bytes (m_page_size m),
                                    unmap_operations := unmap_operations st + 1\<rparr>) e1
          in Inr (m, if m_write_protected m
                     then on_stats (\<lambda>st. st\<lparr>write_protected_count := write_protected_count st - 1\<rparr>) e2 else e2))"

subsection \<open>Write protection\<close>

abbreviation protect_mapping :: "bool \<Rightarrow> EptMapping \<Rightarrow> EptMapping" where
  "protect_mapping b m \<equiv> m\<lparr>m_write_protected := b\<rparr>"

definition ept_set_write_protect :: "u64 \<Rightarrow> EptManager \<Rightarrow> EptError + EptManager" where
  "ept_set_write_protect gpa e =
     (case map_of (mappings e) gpa of
        None \<Rightarrow> Inl (NotMapped gpa)
      | Some m \<Rightarrow>
          Inr (if m_write_protected m then e
               else on_stats (\<lambda>st. st\<lparr>write_protected_count := write_protected_count st + 1,
                                     protect_operations := protect_operations st + 1\<rparr>)
                      (e\<lparr>mappings := om_insert gpa (protect_mapping True m) (mappings e),
                         write_protected_pages := insert gpa (write_protected_pages e)\<rparr>)))"

definition ept_clear_write_protect :: "u64 \<Rightarrow> EptManager \<Rightarrow> EptError + EptManager" where
  "ept_clear_write_protect gpa e =
     (case map_of (mappings e) gpa of
        None \<Rightarrow> Inl (NotMapped gpa)
      | Some m \<Rightarrow>
          Inr (if m_write_protected m
               then on_stats (\<lambda>st. st\<lparr>write_protected_count := write_protected_count st - 1,
                                     protect_operations := protect_operations st + 1\<rparr>)
                      (e\<lparr>mappings := om_insert gpa (protect_mapping False m) (mappings e),
                         write_protected_pages := write_protected_pages e - {gpa}\<rparr>)
               else e))"

fun protect_pages :: "u64 list \<Rightarrow> u64 \<Rightarrow> EptManager \<Rightarrow> u64 \<times> EptManager" where
  "protect_pages [] cnt e = (cnt, e)"
| "protect_pages (gpa # gpas) cnt e =
     (case map_of (mappings e) gpa of
        Some m \<Rightarrow>
          if m_write_protected m then protect_pages gpas cnt e
          else protect_pages gpas (cnt + 1)
                 (on_stats (\<lambda>st. st\<lparr>write_protected_count := write_protected_count st + 1\<rparr>)
                    (e\<lparr>mappings := om_insert gpa (protect_mapping True m) (mappings e),
                       write_protected_pages := insert gpa (write_protected_pages e)\<rparr>))
      | None \<Rightarrow> protect_pages gpas cnt e)"

definition write_protect_all :: "EptManager \<Rightarrow> u64 \<times> EptManager" where
  "write_protect_all e =
     (case protect_pages (map fst (mappings e)) 0 e of
        (cnt, e') \<Rightarrow> (cnt, on_stats (\<lambda>st. st\<lparr>protect_operations := protect_operations st + 1\<rparr>) e'))"

text \<open>The loop writes each mapping of the set once, so its order does not matter.\<close>

definition clear_all_write_protect :: "EptManager \<Rightarrow> u64 \<times> EptManager" where
  "clear_all_write_protect e =
     (of_nat (card (write_protected_pages e)),
      on_stats (\<lambda>st. st\<lparr>write_protected_count := 0, protect_operations := protect_operations st + 1\<rparr>)
        (e\<lparr>mappings := om_values (\<lambda>k m. if k \<in> write_protected_pages e then protect_mapping False m else m) (mappings e),
           write_protected_pages := {}\<rparr>))"

definition is_write_protected :: "u64 \<Rightarrow> EptManager \<Rightarrow> bool" where
  "is_write_protected gpa e \<longleftrightarrow> gpa \<in> write_protected_pages e"

subsection \<open>Dirty log\<close>

definition enable_dirty_tracking :: "EptManager \<Rightarrow> EptManager" where
  "enable_dirty_tracking e = e\<lparr>dirty_tracking_enabled := True\<rparr>"

definition disable_dirty_tracking :: "EptManager \<Rightarrow> EptManager" where
  "disable_dirty_tracking e =
     on_stats (\<lambda>st. st\<lparr>dirty_page_count := 0\<rparr>)
       (e\<lparr>dirty_tracking_enabled := False, dirty_pages := {},
          mappings := om_values (\<lambda>k m. m\<lparr>m_dirty := False\<rparr>) (mappings e)\<rparr>)"

definition mark_dirty :: "u64 \<Rightarrow> EptManager \<Rightarrow> EptError + EptManager" where
  "mark_dirty gpa e =
     (case map_of (mappings e) gpa of
        None \<Rightarrow> Inl (NotMapped gpa)
      | Some m \<Rightarrow>
          Inr (if dirty_tracking_enabled e \<and> \<not> m_dirty m
               then on_stats (\<lambda>st. st\<lparr>dirty_page_count := dirty_page_count st + 1\<rparr>)
                      (e\<lparr>mappings := om_insert gpa (m\<lparr>m_dirty := True\<rparr>) (mappings e),
                         dirty_pages := insert gpa (dirty_pages e)\<rparr>)
               else e))"

definition ept_get_and_clear_dirty_bitmap :: "EptManager \<Rightarrow> u64 set \<times> EptManager" where
  "ept_get_and_clear_dirty_bitmap e =
     (dirty_pages e,
      on_stats (\<lambda>st. st\<lparr>dirty_page_count := 0, dirty_clears := dirty_clears st + 1\<rparr>)
        (e\<lparr>mappings := om_values (\<lambda>k m. if k \<in> dirty_pages e then m\<lparr>m_dirty := False\<rparr> else m) (mappings e),
           dirty_pages := {}\<rparr>))"

text \<open>A failing step of the handler returns its error with the state reached so far.\<close>

definition handle_ept_violation :: "u64 \<Rightarrow> bool \<Rightarrow> EptManager \<Rightarrow> (EptError + EptMapping) \<times> EptManager" where
  "handle_ept_violation gpa clear_protection e =
     (case mark_dirty gpa e of
        Inl err \<Rightarrow> (Inl err, e)
      | Inr e1 \<Rightarrow>
          case (if clear_protection then ept_clear_write_protect gpa e1 else Inr e1) of
            Inl err \<Rightarrow> (Inl err, e1)
          | Inr e2 \<Rightarrow> ((case map_of (mappings e2) gpa of None \<Rightarrow> Inl (NotMapped gpa) | Some m \<Rightarrow> Inr m), e2))"

section \<open>Consistency\<close>

text \<open>
  Every mapping is filed under its own aligned address; the two sets hold exactly the pages whose mapping carries the
  flag, and no page is dirty while the log is off; the counters of mappings, bytes and protected pages are exact.
\<close>

definition flagged :: "(EptMapping \<Rightarrow> bool) \<Rightarrow> (u64, EptMapping) omap \<Rightarrow> u64 set" where
  "flagged P ms = {k. \<exists>m. map_of ms k = Some m \<and> P m}"

definition entry_ok :: "u64 \<Rightarrow> EptMapping \<Rightarrow> bool" where
  "entry_ok k m \<longleftrightarrow> m_gpa m = k \<and> k mod page_bytes (m_page_size m) = 0 \<and> m_hpa m mod page_bytes (m_page_size m) = 0"

definition mapped_bytes :: "(u64, EptMapping) omap \<Rightarrow> u64" where
  "mapped_bytes ms = sum_list (map (\<lambda>(_, m). page_bytes (m_page_size m)) ms)"

definition mapped_pages :: "(u64, EptMapping) omap \<Rightarrow> u64" where
  "mapped_pages ms = sum_list (map (\<lambda>_. 1) ms)"

definition ept_wf :: "EptManager \<Rightarrow> bool" where
  "ept_wf e \<longleftrightarrow> om_wf (mappings e) \<and> (\<forall>k m. map_of (mappings e) k = Some m \<longrightarrow> entry_ok k m) \<and>
     write_protected_pages e = flagged m_write_protected (mappings e) \<and> dirty_pages e = flagged m_dirty (mappings e) \<and>
     (\<not> dirty_tracking_enabled e \<longrightarrow> flagged m_dirty (mappings e) = {}) \<and>
     total_mappings (stats e) = mapped_pages (mappings e) \<and> total_mapped_bytes (stats e) = mapped_bytes (mappings e) \<and>
     write_protected_count (stats e) = of_nat (card (write_protected_pages e))"

lemma mapped_values:
  assumes "\<And>k m. m_page_size (f k m) = m_page_size m"
  shows "mapped_pages (om_values f ms) = mapped_pages ms" "mapped_bytes (om_values f ms) = mapped_bytes ms"
  using assms by (simp_all add: mapped_pages_def mapped_bytes_def sum_om_values)

lemma flagged_update:
  "om_wf ms \<Longrightarrow> flagged P (om_insert k m ms) = (if P m then insert k (flagged P ms) else flagged P ms - {k})"
  by (auto simp: flagged_def)

lemma flagged_remove: "flagged P (om_remove k ms) = flagged P ms - {k}"
  by (auto simp: flagged_def)

lemma flagged_keep:
  "map_of ms k = Some m \<Longrightarrow> P m' = P m \<Longrightarrow> flagged P (om_insert k m' ms) = flagged P ms"
  by (auto simp: flagged_def)

lemma mapped_update:
  assumes "om_wf ms" "map_of ms k = Some m" "m_page_size m' = m_page_size m"
  shows "mapped_pages (om_insert k m' ms) = mapped_pages ms" "mapped_bytes (om_insert k m' ms) = mapped_bytes ms"
proof -
  have "om_insert k m' ms = om_values (\<lambda>a b. if a = k then m' else b) ms" using assms by (simp add: om_insert_present)
  moreover have "om_remove k (om_values f ms) = om_values f (om_remove k ms)" for f
    by (simp add: om_remove_def om_values_def filter_map comp_def split_def)
  moreover have "om_values (\<lambda>a b. if a = k then m' else b) (om_remove k ms) = om_remove k ms"
    by (auto simp: om_values_def om_remove_def intro!: map_idI)
  ultimately have r: "om_remove k (om_insert k m' ms) = om_remove k ms" by simp
  have "distinct (map fst ms)" "distinct (map fst (om_insert k m' ms))" "map_of (om_insert k m' ms) k = Some m'"
    using assms(1) om_insert_wf [of ms k m'] by (simp_all add: om_wf_distinct)
  note sums = sum_om_remove [OF this(1) assms(2)] sum_om_remove [OF this(2,3)]
  show "mapped_pages (om_insert k m' ms) = mapped_pages ms" "mapped_bytes (om_insert k m' ms) = mapped_bytes ms"
    using assms(3) by (simp_all add: mapped_pages_def mapped_bytes_def sums r)
qed

lemma ept_new_wf: "ept_wf (ept_new g)"
  by (simp add: ept_wf_def ept_new_def flagged_def mapped_pages_def mapped_bytes_def)

lemma ept_wfD:
  assumes "ept_wf e"
  shows "om_wf (mappings e)" "\<And>k m. map_of (mappings e) k = Some m \<Longrightarrow> entry_ok k m"
    "write_protected_pages e = flagged m_write_protected (mappings e)" "dirty_pages e = flagged m_dirty (mappings e)"
    "\<not> dirty_tracking_enabled e \<Longrightarrow> flagged m_dirty (mappings e) = {}"
    "total_mappings (stats e) = mapped_pages (mappings e)" "total_mapped_bytes (stats e) = mapped_bytes (mappings e)"
    "write_protected_count (stats e) = of_nat (card (flagged m_write_protected (mappings e)))"
  using assms by (simp_all add: ept_wf_def)

lemma ept_map_wf:
  assumes "ept_wf e" "ept_map gpa hpa ps pm mt e = Inr e'"
  shows "ept_wf e'"
proof -
  note w = ept_wfD [OF assms(1)]
  define nm where "nm = \<lparr>m_gpa = gpa, m_hpa = hpa, m_page_size = ps, m_permissions = pm, m_memory_type = mt,
    m_dirty = False, m_write_protected = False\<rparr>"
  have n: "map_of (mappings e) gpa = None" and al: "gpa mod page_bytes ps = 0" "hpa mod page_bytes ps = 0"
    and e': "mappings e' = om_insert gpa nm (mappings e)" "write_protected_pages e' = write_protected_pages e"
      "dirty_pages e' = dirty_pages e" "dirty_tracking_enabled e' = dirty_tracking_enabled e"
      "total_mappings (stats e') = total_mappings (stats e) + 1"
      "total_mapped_bytes (stats e') = total_mapped_bytes (stats e) + page_bytes ps"
      "write_protected_count (stats e') = write_protected_count (stats e)"
    using assms(2) by (auto simp: ept_map_def Let_def nm_def split: if_splits)
  have "flagged P (mappings e') = flagged P (mappings e)" if "\<not> P nm" for P
    using n that unfolding e'(1) flagged_update [OF w(1)] by (auto simp: flagged_def)
  then have f: "flagged m_write_protected (mappings e') = flagged m_write_protected (mappings e)"
    "flagged m_dirty (mappings e') = flagged m_dirty (mappings e)" by (simp_all add: nm_def)
  have "mapped_pages (mappings e') = mapped_pages (mappings e) + 1"
    "mapped_bytes (mappings e') = mapped_bytes (mappings e) + page_bytes ps"
    by (simp_all add: mapped_pages_def mapped_bytes_def e'(1) sum_om_insert [OF n] add.commute) (simp add: nm_def)
  moreover have "entry_ok gpa nm" using al by (simp add: entry_ok_def nm_def)
  then have "entry_ok k m" if "map_of (mappings e') k = Some m" for k m
    using that w(2) unfolding e'(1) by (auto split: if_splits)
  moreover have "om_wf (mappings e')" unfolding e'(1) by (rule om_insert_wf [OF w(1)])
  ultimately show ?thesis unfolding ept_wf_def f using e'(2-) w(3-) by simp
qed

lemma map_range_loop_wf: "ept_wf e \<Longrightarrow> ept_wf (snd (map_range_loop gb hb sz pm mt off n e))"
proof (induction gb hb sz pm mt off n e rule: map_range_loop.induct)
  case (1 gb hb sz pm mt off n e)
  then show ?case
    by (subst map_range_loop.simps) (auto simp: Let_def split: sum.splits dest: ept_map_wf)
qed

text \<open>Replacing the mapping of a page by one that differs in a flag only.\<close>

lemma ept_update_wf:
  assumes "ept_wf e" "map_of (mappings e) gpa = Some m" "entry_ok gpa m \<Longrightarrow> entry_ok gpa m'" "m_page_size m' = m_page_size m"
    "mappings e' = om_insert gpa m' (mappings e)" "dirty_tracking_enabled e' = dirty_tracking_enabled e"
    "write_protected_pages e' = flagged m_write_protected (om_insert gpa m' (mappings e))"
    "dirty_pages e' = flagged m_dirty (om_insert gpa m' (mappings e))"
    "\<not> dirty_tracking_enabled e \<Longrightarrow> flagged m_dirty (om_insert gpa m' (mappings e)) = {}"
    "total_mappings (stats e') = total_mappings (stats e)" "total_mapped_bytes (stats e') = total_mapped_bytes (stats e)"
    "write_protected_count (stats e') = of_nat (card (flagged m_write_protected (om_insert gpa m' (mappings e))))"
  shows "ept_wf e'"
proof -
  note w = ept_wfD [OF assms(1)]
  have "entry_ok k m''" if "((map_of (mappings e))(gpa \<mapsto> m')) k = Some m''" for k m''
    using that w(2) assms(2,3) by (auto split: if_splits)
  then show ?thesis
    unfolding ept_wf_def using assms(5-) om_insert_wf [OF w(1)] mapped_update [OF w(1) assms(2,4)] w(6,7) by simp
qed

lemma card_flagged:
  fixes S :: "u64 set"
  shows "k \<notin> S \<Longrightarrow> (of_nat (card (insert k S)) :: u64) = of_nat (card S) + 1"
    and "k \<in> S \<Longrightarrow> (of_nat (card (S - {k})) :: u64) = of_nat (card S) - 1"
proof -
  show "k \<notin> S \<Longrightarrow> (of_nat (card (insert k S)) :: u64) = of_nat (card S) + 1" by (simp add: card_insert_disjoint)
  assume "k \<in> S"
  then have 1: "card S = Suc (card (S - {k}))" by (intro card.remove finite)
  show "(of_nat (card (S - {k})) :: u64) = of_nat (card S) - 1" unfolding 1 of_nat_Suc by (rule add_diff_cancel_left' [symmetric])
qed

lemma ept_protect_wf:
  assumes "ept_wf e" "ept_set_write_protect gpa e = Inr e'"
  shows "ept_wf e'"
proof -
  note w = ept_wfD [OF assms(1)]
  obtain m where m: "map_of (mappings e) gpa = Some m"
    using assms(2) by (auto simp: ept_set_write_protect_def split: option.splits)
  show ?thesis
  proof (cases "m_write_protected m")
    case False
    then have n: "gpa \<notin> flagged m_write_protected (mappings e)" using m by (simp add: flagged_def)
    note f = flagged_update [OF w(1), of _ gpa "protect_mapping True m"]
      flagged_keep [OF m, of m_dirty "protect_mapping True m"]
    show ?thesis
      by (rule ept_update_wf [OF assms(1) m, of "protect_mapping True m"])
        (use assms(2) m False w(3-5,8) n f in \<open>auto simp: entry_ok_def ept_set_write_protect_def card_flagged(1)\<close>)
  qed (use assms m in \<open>simp add: ept_set_write_protect_def\<close>)
qed

lemma ept_unprotect_wf:
  assumes "ept_wf e" "ept_clear_write_protect gpa e = Inr e'"
  shows "ept_wf e'"
proof -
  note w = ept_wfD [OF assms(1)]
  obtain m where m: "map_of (mappings e) gpa = Some m"
    using assms(2) by (auto simp: ept_clear_write_protect_def split: option.splits)
  show ?thesis
  proof (cases "m_write_protected m")
    case True
    then have n: "gpa \<in> flagged m_write_protected (mappings e)" using m by (simp add: flagged_def)
    note f = flagged_update [OF w(1), of _ gpa "protect_mapping False m"]
      flagged_keep [OF m, of m_dirty "protect_mapping False m"]
    show ?thesis
      by (rule ept_update_wf [OF assms(1) m, of "protect_mapping False m"])
        (use assms(2) m True w(3-5,8) n f in \<open>auto simp: entry_ok_def ept_clear_write_protect_def card_flagged(2) simp del: card_Diff_insert card_Diff_singleton\<close>)
  qed (use assms m in \<open>simp add: ept_clear_write_protect_def\<close>)
qed

lemma mark_dirty_wf:
  assumes "ept_wf e" "mark_dirty gpa e = Inr e'"
  shows "ept_wf e'"
proof -
  note w = ept_wfD [OF assms(1)]
  obtain m where m: "map_of (mappings e) gpa = Some m"
    using assms(2) by (auto simp: mark_dirty_def split: option.splits)
  show ?thesis
  proof (cases "dirty_tracking_enabled e \<and> \<not> m_dirty m")
    case True
    note f = flagged_update [OF w(1), of _ gpa "m\<lparr>m_dirty := True\<rparr>"]
      flagged_keep [OF m, of m_write_protected "m\<lparr>m_dirty := True\<rparr>"]
    show ?thesis
      by (rule ept_update_wf [OF assms(1) m, of "m\<lparr>m_dirty := True\<rparr>"])
        (use assms(2) m True w(3-5,8) f in \<open>auto simp: entry_ok_def mark_dirty_def\<close>)
  next
    case False
    then show ?thesis using assms m by (auto simp: mark_dirty_def split: if_splits)
  qed
qed

lemma ept_unmap_wf:
  assumes "ept_wf e" "ept_unmap gpa e = Inr (m, e')"
  shows "ept_wf e'"
proof -
  note w = ept_wfD [OF assms(1)]
  have m: "map_of (mappings e) gpa = Some m"
    and e': "mappings e' = om_remove gpa (mappings e)" "write_protected_pages e' = write_protected_pages e - {gpa}"
      "dirty_pages e' = dirty_pages e - {gpa}" "dirty_tracking_enabled e' = dirty_tracking_enabled e"
      "total_mappings (stats e') = total_mappings (stats e) - 1"
      "total_mapped_bytes (stats e') = total_mapped_bytes (stats e) - page_bytes (m_page_size m)"
      "write_protected_count (stats e') = write_protected_count (stats e) - (if m_write_protected m then 1 else 0)"
    using assms(2) by (auto simp: ept_unmap_def Let_def split: option.splits if_splits)
  have "mapped_pages (mappings e) = 1 + mapped_pages (mappings e')"
    "mapped_bytes (mappings e) = page_bytes (m_page_size m) + mapped_bytes (mappings e')"
    by (simp_all add: mapped_pages_def mapped_bytes_def e'(1) sum_om_remove [OF om_wf_distinct [OF w(1)] m])
  moreover have "entry_ok k m'" if "map_of (mappings e') k = Some m'" for k m'
    using that w(2) unfolding e'(1) by (auto split: if_splits)
  moreover have "om_wf (mappings e')" unfolding e'(1) by (rule om_remove_wf [OF w(1)])
  moreover have "write_protected_count (stats e') = of_nat (card (write_protected_pages e'))"
  proof (cases "m_write_protected m")
    case True
    then have "gpa \<in> flagged m_write_protected (mappings e)" using m by (auto simp: flagged_def)
    with True show ?thesis by (simp add: e'(2,7) w(3,8) card_flagged(2) del: card_Diff_insert card_Diff_singleton)
  next
    case False
    then have "gpa \<notin> flagged m_write_protected (mappings e)" using m by (auto simp: flagged_def)
    with False show ?thesis by (simp add: e'(2,7) w(3,8))
  qed
  ultimately show ?thesis unfolding ept_wf_def using e'(2-6) w(3-7) by (simp add: e'(1) flagged_remove)
qed

text \<open>Changing a flag of many mappings at once.\<close>

lemma ept_values_wf:
  assumes "ept_wf e" "\<And>k m. entry_ok k m \<Longrightarrow> entry_ok k (f k m)" "\<And>k m. m_page_size (f k m) = m_page_size m"
    "mappings e' = om_values f (mappings e)"
    "write_protected_pages e' = flagged m_write_protected (om_values f (mappings e))"
    "dirty_pages e' = flagged m_dirty (om_values f (mappings e))"
    "\<not> dirty_tracking_enabled e' \<Longrightarrow> flagged m_dirty (om_values f (mappings e)) = {}"
    "total_mappings (stats e') = total_mappings (stats e)" "total_mapped_bytes (stats e') = total_mapped_bytes (stats e)"
    "write_protected_count (stats e') = of_nat (card (flagged m_write_protected (om_values f (mappings e))))"
  shows "ept_wf e'"
  using ept_wfD [OF assms(1)] assms(2-) mapped_values [of f, OF assms(3)] by (auto simp: ept_wf_def)

lemma flagged_values: "flagged P (om_values f ms) = {k. \<exists>m. map_of ms k = Some m \<and> P (f k m)}"
  by (auto simp: flagged_def)

lemma flagged_values_same:
  "(\<And>k m. map_of ms k = Some m \<Longrightarrow> P (f k m) = P m) \<Longrightarrow> flagged P (om_values f ms) = flagged P ms"
  by (auto simp: flagged_values flagged_def [of P ms])

lemma flagged_values_none:
  "(\<And>k m. map_of ms k = Some m \<Longrightarrow> \<not> P (f k m)) \<Longrightarrow> flagged P (om_values f ms) = {}"
  by (auto simp: flagged_values)

lemma clear_all_wf:
  assumes "ept_wf e"
  shows "ept_wf (snd (clear_all_write_protect e))"
proof -
  note w = ept_wfD [OF assms]
  let ?f = "\<lambda>k m. if k \<in> write_protected_pages e then protect_mapping False m else m"
  have "flagged m_write_protected (om_values ?f (mappings e)) = {}"
    by (rule flagged_values_none) (auto simp: w(3) flagged_def)
  moreover have "flagged m_dirty (om_values ?f (mappings e)) = flagged m_dirty (mappings e)"
    by (rule flagged_values_same) simp
  ultimately show ?thesis
    using w(4,5) by (intro ept_values_wf [OF assms, of ?f]) (simp_all add: clear_all_write_protect_def entry_ok_def)
qed

lemma disable_wf:
  assumes "ept_wf e"
  shows "ept_wf (disable_dirty_tracking e)"
proof -
  note w = ept_wfD [OF assms]
  let ?f = "\<lambda>k m. m\<lparr>m_dirty := False\<rparr>"
  have "flagged m_dirty (om_values ?f (mappings e)) = {}" by (rule flagged_values_none) simp
  moreover have "flagged m_write_protected (om_values ?f (mappings e)) = flagged m_write_protected (mappings e)"
    by (rule flagged_values_same) simp
  ultimately show ?thesis
    using w(3,8) by (intro ept_values_wf [OF assms, of ?f]) (simp_all add: disable_dirty_tracking_def entry_ok_def)
qed

lemma get_and_clear_wf:
  assumes "ept_wf e"
  shows "ept_wf (snd (ept_get_and_clear_dirty_bitmap e))"
proof -
  note w = ept_wfD [OF assms]
  let ?f = "\<lambda>k m. if k \<in> dirty_pages e then m\<lparr>m_dirty := False\<rparr> else m"
  have "flagged m_dirty (om_values ?f (mappings e)) = {}"
    by (rule flagged_values_none) (auto simp: w(4) flagged_def)
  moreover have "flagged m_write_protected (om_values ?f (mappings e)) = flagged m_write_protected (mappings e)"
    by (rule flagged_values_same) simp
  ultimately show ?thesis
    using w(3,8) by (intro ept_values_wf [OF assms, of ?f])
      (simp_all add: ept_get_and_clear_dirty_bitmap_def entry_ok_def)
qed

text \<open>One round of \<open>write_protect_all\<close> is \<open>ept_set_write_protect\<close> up to the operation counter.\<close>

lemma protect_ops_wf: "ept_wf e \<Longrightarrow> ept_wf (on_stats (\<lambda>st. st\<lparr>protect_operations := n\<rparr>) e)"
  by (simp add: ept_wf_def)

lemma protect_pages_wf: "ept_wf e \<Longrightarrow> ept_wf (snd (protect_pages gpas c e))"
proof (induction gpas arbitrary: c e)
  case (Cons g gpas)
  show ?case
  proof (cases "map_of (mappings e) g")
    case (Some m)
    show ?thesis
    proof (cases "m_write_protected m")
      case False
      then have "ept_set_write_protect g e =
          Inr (on_stats (\<lambda>st. st\<lparr>write_protected_count := write_protected_count st + 1,
                                 protect_operations := protect_operations st + 1\<rparr>)
                 (e\<lparr>mappings := om_insert g (protect_mapping True m) (mappings e),
                    write_protected_pages := insert g (write_protected_pages e)\<rparr>))"
        using Some by (simp add: ept_set_write_protect_def)
      from protect_ops_wf [OF ept_protect_wf [OF Cons.prems this], of "protect_operations (stats e)"]
      have "ept_wf (on_stats (\<lambda>st. st\<lparr>write_protected_count := write_protected_count st + 1\<rparr>)
          (e\<lparr>mappings := om_insert g (protect_mapping True m) (mappings e),
             write_protected_pages := insert g (write_protected_pages e)\<rparr>))" by simp
      from Cons.IH [OF this] Some False show ?thesis by simp
    qed (use Cons Some in simp)
  qed (use Cons in simp)
qed simp

lemma protect_all_wf: "ept_wf e \<Longrightarrow> ept_wf (snd (write_protect_all e))"
  using protect_pages_wf [of e "map fst (mappings e)" 0] protect_ops_wf
  by (auto simp: write_protect_all_def split: prod.splits)

datatype EptOp =
    OpMap u64 u64 PageSize EptPermissions EptMemoryType
  | OpMapRange u64 u64 u64 EptPermissions EptMemoryType
  | OpUnmap u64
  | OpProtect u64
  | OpUnprotect u64
  | OpProtectAll
  | OpUnprotectAll
  | OpEnable
  | OpDisable
  | OpMarkDirty u64
  | OpGetAndClear
  | OpViolation u64 bool

definition state_or :: "EptManager \<Rightarrow> EptError + EptManager \<Rightarrow> EptManager" where
  "state_or e r = (case r of Inl _ \<Rightarrow> e | Inr e' \<Rightarrow> e')"

fun ept_op :: "EptOp \<Rightarrow> EptManager \<Rightarrow> EptManager" where
  "ept_op (OpMap gpa hpa ps pm mt) e = state_or e (ept_map gpa hpa ps pm mt e)"
| "ept_op (OpMapRange gb hb sz pm mt) e = snd (map_range gb hb sz pm mt e)"
| "ept_op (OpUnmap gpa) e = state_or e (map_sum id snd (ept_unmap gpa e))"
| "ept_op (OpProtect gpa) e = state_or e (ept_set_write_protect gpa e)"
| "ept_op (OpUnprotect gpa) e = state_or e (ept_clear_write_protect gpa e)"
| "ept_op OpProtectAll e = snd (write_protect_all e)"
| "ept_op OpUnprotectAll e = snd (clear_all_write_protect e)"
| "ept_op OpEnable e = enable_dirty_tracking e"
| "ept_op OpDisable e = disable_dirty_tracking e"
| "ept_op (OpMarkDirty gpa) e = state_or e (mark_dirty gpa e)"
| "ept_op OpGetAndClear e = snd (ept_get_and_clear_dirty_bitmap e)"
| "ept_op (OpViolation gpa c) e = snd (handle_ept_violation gpa c e)"

lemma state_or_wf: "ept_wf e \<Longrightarrow> (\<And>e'. r = Inr e' \<Longrightarrow> ept_wf e') \<Longrightarrow> ept_wf (state_or e r)"
  by (cases r) (simp_all add: state_or_def)

lemma violation_wf: "ept_wf e \<Longrightarrow> ept_wf (snd (handle_ept_violation gpa c e))"
  by (auto simp: handle_ept_violation_def split: sum.splits if_splits dest: mark_dirty_wf ept_unprotect_wf)

lemma ept_op_wf:
  assumes "ept_wf e"
  shows "ept_wf (ept_op op e)"
proof (cases op)
  case (OpUnmap gpa)
  then show ?thesis using assms by (auto simp: map_sum_def intro!: state_or_wf dest: ept_unmap_wf split: sum.splits)
next
  case OpEnable
  then show ?thesis using assms by (simp add: enable_dirty_tracking_def ept_wf_def)
qed (use assms in \<open>auto intro: state_or_wf ept_map_wf map_range_loop_wf ept_protect_wf ept_unprotect_wf protect_all_wf
      clear_all_wf disable_wf mark_dirty_wf get_and_clear_wf violation_wf simp: map_range_def\<close>)

text \<open>
  C36 (invariant).  After any sequence of operations of the manager, failing ones included, every mapping is filed
  under its own aligned address, the write-protected set and the dirty set are exactly the pages whose mapping
  carries the flag, no page is dirty while the log is off, and the mapping, byte and protection counters are exact.
\<close>
theorem ept_consistent: "ept_wf (fold ept_op ops (ept_new g))"
proof -
  have "ept_wf e \<Longrightarrow> ept_wf (fold ept_op ops e)" for e
    by (induction ops arbitrary: e) (simp_all add: ept_op_wf)
  then show ?thesis by (simp add: ept_new_wf)
qed

section \<open>Mapping a range\<close>

text \<open>The host addresses that the mappings give a guest address: one for each mapping whose page covers it.\<close>

definition host_addrs :: "EptManager \<Rightarrow> u64 \<Rightarrow> u64 multiset" where
  "host_addrs e a =
     sum_list (map (\<lambda>(k, m). if a - k < page_bytes (m_page_size m) then {#m_hpa m + (a - k)#} else {#}) (mappings e))"

text \<open>A length rounded up to whole small pages.\<close>

definition page_ceil :: "u64 \<Rightarrow> u64" where
  "page_ceil sz = (sz + (PAGE_SIZE_4K - 1)) div PAGE_SIZE_4K * PAGE_SIZE_4K"

lemma unat_page_ceil:
  assumes "unat sz \<le> 2 ^ 63"
  shows "unat (page_ceil sz) = (unat sz + 4095) div 4096 * 4096"
proof -
  have "unat (sz + 4095) = unat sz + 4095" using assms unat_add_no_wrap [of sz 4095] by simp
  moreover have "(unat sz + 4095) div 4096 * 4096 < 2 ^ 64" using assms by (intro le_less_trans [OF div_times_less_eq_dividend]) simp
  ultimately show ?thesis
    by (simp add: page_ceil_def PAGE_SIZE_4K_def unat_mul_no_wrap unat_div)
qed

lemma aligned_4k: "x mod PAGE_SIZE_4K = 0 \<longleftrightarrow> 4096 dvd unat x"
  by (simp add: PAGE_SIZE_4K_def word_arith_nat_mod unat_of_nat_small dvd_eq_mod_eq_0 unat_eq_zero [symmetric] unat_mod)

lemma aligned_add: "4096 dvd unat x \<Longrightarrow> 4096 dvd unat y \<Longrightarrow> 4096 dvd unat (x + y)" for x y :: u64
  by (simp add: unat_word_ariths dvd_mod)

lemma ept_map_host_addrs:
  assumes "ept_map gpa hpa ps pm mt e = Inr e'"
  shows "host_addrs e' a = host_addrs e a + (if a - gpa < page_bytes ps then {#hpa + (a - gpa)#} else {#})"
  unfolding host_addrs_def ept_map_mappings(2) [OF assms]
  by (simp add: sum_om_insert [OF ept_map_mappings(1) [OF assms]] add.commute)

lemma within_page:
  fixes d off b :: u64
  assumes "unat off + unat b < 2 ^ 64"
  shows "d - off < b \<longleftrightarrow> off \<le> d \<and> d < off + b"
proof -
  have s: "unat (off + b) = unat off + unat b" using assms by (intro unat_add_no_wrap) simp
  have "unat d < 2 ^ 64" using unat_bound [of d] by simp
  then show ?thesis
    using assms unat_sub_if' [of d off] by (simp add: word_less_nat_alt word_le_nat_alt s) arith
qed

lemma page_step:
  assumes "off < sz" "unat sz \<le> 2 ^ 63" "4096 dvd unat off" "4096 dvd unat gb" "4096 dvd unat hb"
    and "ps = range_page_size (gb + off) (hb + off) (sz - off)"
  shows "(gb + off) mod page_bytes ps = 0" "(hb + off) mod page_bytes ps = 0"
    "unat (off + page_bytes ps) = unat off + unat (page_bytes ps)" "4096 dvd unat (off + page_bytes ps)"
    "unat off + unat (page_bytes ps) \<le> unat (page_ceil sz)" "0 < unat (page_bytes ps)"
proof -
  have ps: "ps = Page2M \<or> ps = Page4K" using assms(6) by (simp add: range_page_size_def)
  have u: "unat (page_bytes Page4K) = 4096" "unat (page_bytes Page2M) = 2097152"
    by (simp_all add: PAGE_SIZE_4K_def PAGE_SIZE_2M_def)
  have ol: "unat off < unat sz" using assms(1) by (simp add: word_less_nat_alt)
  show al: "(gb + off) mod page_bytes ps = 0" "(hb + off) mod page_bytes ps = 0"
    using assms(3-6) by (auto simp: range_page_size_def aligned_4k aligned_add)
  have "2097152 \<le> unat sz - unat off" if "ps = Page2M"
    using that assms(6) ol unat_diff [of off sz]
    by (auto simp: range_page_size_def word_le_nat_alt PAGE_SIZE_2M_def split: if_splits)
  moreover have "unat off + 4096 \<le> (unat sz + 4095) div 4096 * 4096"
  proof -
    obtain k where k: "unat off = 4096 * k" using assms(3) by blast
    then have "Suc k \<le> (unat sz + 4095) div 4096" using ol by (simp add: less_eq_div_iff_mult_less_eq)
    then show ?thesis using k mult_le_mono1 [of "Suc k" "(unat sz + 4095) div 4096" 4096] by simp
  qed
  ultimately show b: "unat off + unat (page_bytes ps) \<le> unat (page_ceil sz)"
    using ps u ol unat_page_ceil [OF assms(2)] by auto
  have "unat off + unat (page_bytes ps) < 2 ^ 64" using ps u ol assms(2) by auto
  then show s: "unat (off + page_bytes ps) = unat off + unat (page_bytes ps)" by (intro unat_add_no_wrap) simp
  show "4096 dvd unat (off + page_bytes ps)" using ps u assms(3) unfolding s by auto
  show "0 < unat (page_bytes ps)" using ps u by auto
qed

lemma map_range_loop_spec:
  assumes "unat sz \<le> 2 ^ 63" "4096 dvd unat gb" "4096 dvd unat hb"
  shows "4096 dvd unat off \<Longrightarrow> off \<le> page_ceil sz \<Longrightarrow>
    \<forall>x. off \<le> x \<and> x < sz \<longrightarrow> map_of (mappings e) (gb + x) = None \<Longrightarrow>
    \<exists>k e'. map_range_loop gb hb sz pm mt off n e = (Inr k, e') \<and>
      (\<forall>a. host_addrs e' a = host_addrs e a +
         (if off \<le> a - gb \<and> a - gb < page_ceil sz then {#hb + (a - gb)#} else {#}))"
  using assms
proof (induction gb hb sz pm mt off n e rule: map_range_loop.induct)
  case (1 gb hb sz pm mt off n e)
  show ?case
  proof (cases "off < sz")
    case False
    obtain k where k: "unat off = 4096 * k" using "1.prems"(1) by blast
    with False have "(unat sz + 4095) div 4096 \<le> (4096 * k + 4095) div 4096"
      by (intro div_le_mono) (simp add: not_less word_le_nat_alt)
    then have "unat (page_ceil sz) \<le> unat off" using k unat_page_ceil [OF "1.prems"(4)] by simp
    with "1.prems"(2) have "off = page_ceil sz" by (simp add: word_le_nat_alt word_unat_eq_iff)
    then show ?thesis using False by (subst map_range_loop.simps) (auto simp: not_less)
  next
    case True
    define ps where "ps = range_page_size (gb + off) (hb + off) (sz - off)"
    note st = page_step [OF True "1.prems"(4,1,5,6) ps_def]
    obtain e1 where e1: "ept_map (gb + off) (hb + off) ps pm mt e = Inr e1"
      using st(1,2) "1.prems"(3) True by (auto simp: ept_map_def Let_def)
    have lt: "off < off + page_bytes ps" using st(3,6) by (simp add: word_less_nat_alt)
    have free: "\<forall>x. off + page_bytes ps \<le> x \<and> x < sz \<longrightarrow> map_of (mappings e1) (gb + x) = None"
      using "1.prems"(3) lt unfolding ept_map_mappings(2) [OF e1] by auto
    have le: "off + page_bytes ps \<le> page_ceil sz" using st(3,5) by (simp add: word_le_nat_alt)
    from "1.IH" [OF True refl refl ps_def e1 st(4) le free "1.prems"(4-6)]
    obtain k e' where r: "map_range_loop gb hb sz pm mt (off + page_bytes ps) (n + 1) e1 = (Inr k, e')"
      "\<And>a. host_addrs e' a = host_addrs e1 a +
         (if off + page_bytes ps \<le> a - gb \<and> a - gb < page_ceil sz then {#hb + (a - gb)#} else {#})" by blast
    have "host_addrs e' a = host_addrs e a +
         (if off \<le> a - gb \<and> a - gb < page_ceil sz then {#hb + (a - gb)#} else {#})" for a
    proof -
      have "unat off + unat (page_bytes ps) < 2 ^ 64" using st(3) unat_bound [of "off + page_bytes ps"] by simp
      from within_page [OF this, of "a - gb"]
      have "a - (gb + off) < page_bytes ps \<longleftrightarrow> off \<le> a - gb \<and> a - gb < off + page_bytes ps" by (simp add: diff_diff_add)
      then show ?thesis using ept_map_host_addrs [OF e1, of a] r(2) [of a] lt le by (auto simp: not_less)
    qed
    moreover have "map_range_loop gb hb sz pm mt off n e = (Inr k, e')"
      using True e1 r(1) by (subst map_range_loop.simps) (simp add: Let_def ps_def [symmetric])
    ultimately show ?thesis by blast
  qed
qed

text \<open>
  C7 (functional).  Mapping a range whose base addresses are page aligned, on a manager that has no mapping filed
  under an address of the range, always succeeds, and translates the range rounded up to whole pages linearly: every
  guest address of it gets exactly one further translation, to the host address at the same distance from the host
  base, and the translations of every other address stay as they were.
\<close>
theorem map_range_translates:
  assumes "gb mod PAGE_SIZE_4K = 0" "hb mod PAGE_SIZE_4K = 0" "unat sz \<le> 2 ^ 63"
    and "\<forall>x < sz. ept_lookup (gb + x) e = None"
  shows "\<exists>k e'. map_range gb hb sz pm mt e = (Inr k, e') \<and>
    (\<forall>a. host_addrs e' a = host_addrs e a + (if a - gb < page_ceil sz then {#hb + (a - gb)#} else {#}))"
  using map_range_loop_spec [of sz gb hb 0 e pm mt 0] assms by (simp add: aligned_4k map_range_def ept_lookup_def)

theorem map_range_translates_witness:
  "\<exists>e'. map_range 0x200000 0x40000000 0x201000 EPT_RWX WriteBack (ept_new ''guest'') = (Inr 2, e') \<and>
     host_addrs e' 0x400FFF = {#0x40200FFF#} \<and> host_addrs e' 0x401000 = {#}"
proof -
  let ?r = "map_range 0x200000 0x40000000 0x201000 EPT_RWX WriteBack (ept_new ''guest'')"
  have "host_addrs (ept_new ''guest'') a = {#}" for a by (simp add: host_addrs_def ept_new_def)
  with map_range_translates [of "0x200000" "0x40000000" "0x201000" "ept_new ''guest''" EPT_RWX WriteBack]
  obtain k e' where "?r = (Inr k, e')" "\<And>a. host_addrs e' a = (if a - 0x200000 < page_ceil 0x201000
      then {#0x40000000 + (a - 0x200000)#} else {#})"
    by (auto simp: ept_lookup_def ept_new_def PAGE_SIZE_4K_def)
  moreover have "fst ?r = Inr 2" "page_ceil 0x201000 = 0x201000" by code_simp+
  ultimately show ?thesis by simp
qed

text \<open>A page inside a large page is mapped a second time, because only the address a mapping is filed under is compared.\<close>

lemma overlap_undetected:
  "case ept_map 0 0 Page2M EPT_RWX WriteBack (ept_new ''guest'') of
     Inr e1 \<Rightarrow> (case ept_map 0x1000 0x40000000 Page4K EPT_RWX WriteBack e1 of
        Inr e2 \<Rightarrow> host_addrs e2 0x1000 = {#0x1000, 0x40000000#} | Inl _ \<Rightarrow> False)
   | Inl _ \<Rightarrow> False"
  by (simp add: ept_map_def ept_new_def host_addrs_def PAGE_SIZE_2M_def PAGE_SIZE_4K_def)

section \<open>Snapshots\<close>

text \<open>The operations of a guest running under a copy-on-write snapshot.\<close>

fun cow_op :: "EptOp \<Rightarrow> bool" where
  "cow_op (OpUnmap _) = True"
| "cow_op (OpProtect _) = True"
| "cow_op OpProtectAll = True"
| "cow_op OpEnable = True"
| "cow_op (OpMarkDirty _) = True"
| "cow_op (OpViolation _ _) = True"
| "cow_op _ = False"

definition cow_inv :: "EptManager \<Rightarrow> bool" where
  "cow_inv e \<longleftrightarrow> dirty_tracking_enabled e \<and>
     (\<forall>k m. map_of (mappings e) k = Some m \<longrightarrow> \<not> m_write_protected m \<longrightarrow> m_dirty m)"

lemma protect_pages_spec:
  "protect_pages gpas c e = (c', e') \<Longrightarrow>
   dirty_tracking_enabled e' = dirty_tracking_enabled e \<and>
   map_of (mappings e') k =
     map_option (\<lambda>m. if k \<in> set gpas then protect_mapping True m else m) (map_of (mappings e) k)"
proof (induction gpas arbitrary: c e)
  case (Cons g gpas)
  show ?case
  proof (cases "map_of (mappings e) g")
    case None
    with Cons show ?thesis by (cases "k = g") auto
  next
    case (Some m)
    show ?thesis
    proof (cases "m_write_protected m")
      case True
      then have "protect_mapping True m = m" by simp
      with Cons Some True show ?thesis by (cases "k = g") auto
    next
      case False
      with Cons.IH [of "c + 1"] Cons.prems Some show ?thesis by (cases "k = g") auto
    qed
  qed
qed (simp add: option.map_ident)

lemma protect_all_cow:
  assumes "dirty_tracking_enabled e"
  shows "cow_inv (snd (write_protect_all e))"
proof -
  obtain c e' where p: "protect_pages (map fst (mappings e)) 0 e = (c, e')" by (cases "protect_pages (map fst (mappings e)) 0 e")
  have "m_write_protected m" if km: "map_of (mappings e') k = Some m" for k m
  proof -
    obtain m0 where m0: "map_of (mappings e) k = Some m0"
      using km protect_pages_spec [OF p, of k] by (cases "map_of (mappings e) k") auto
    then have "k \<in> set (map fst (mappings e))" by (force dest: map_of_SomeD)
    then have "map_of (mappings e') k = Some (protect_mapping True m0)"
      using protect_pages_spec [OF p, of k] m0 by (simp only: if_True option.map)
    with km show ?thesis by auto
  qed
  with p protect_pages_spec [OF p] assms show ?thesis by (auto simp: cow_inv_def write_protect_all_def)
qed

lemma mark_dirty_cow:
  assumes "cow_inv e" "mark_dirty gpa e = Inr e'"
  shows "cow_inv e' \<and> (\<exists>m. map_of (mappings e') gpa = Some m \<and> m_dirty m)"
  using assms by (auto simp: mark_dirty_def cow_inv_def split: option.splits if_splits)

lemma clear_protect_cow:
  assumes "cow_inv e" "map_of (mappings e) gpa = Some m" "m_dirty m" "ept_clear_write_protect gpa e = Inr e'"
  shows "cow_inv e'"
  using assms by (auto simp: ept_clear_write_protect_def cow_inv_def split: if_splits)

lemma cow_op_inv:
  assumes "cow_inv e" "cow_op op"
  shows "cow_inv (ept_op op e)"
proof (cases op)
  case (OpViolation gpa c)
  show ?thesis
  proof (cases "mark_dirty gpa e")
    case (Inr e1)
    from mark_dirty_cow [OF assms(1) this] obtain m where 1: "cow_inv e1" "map_of (mappings e1) gpa = Some m" "m_dirty m" by blast
    from clear_protect_cow [OF this] 1(1) Inr OpViolation show ?thesis
      by (auto simp: handle_ept_violation_def split: sum.splits)
  qed (use assms(1) OpViolation in \<open>simp add: handle_ept_violation_def\<close>)
next
  case (OpMarkDirty gpa)
  then show ?thesis using assms(1) mark_dirty_cow [OF assms(1), of gpa] by (auto simp: state_or_def split: sum.splits)
next
  case OpProtectAll
  moreover have "dirty_tracking_enabled e" using assms(1) by (simp add: cow_inv_def)
  ultimately show ?thesis by (simp add: protect_all_cow)
qed (use assms in \<open>auto simp: cow_inv_def state_or_def ept_unmap_def ept_set_write_protect_def enable_dirty_tracking_def Let_def
      split: option.splits if_splits\<close>)

text \<open>
  C9 (safety).  Copy-on-write.  After a snapshot write-protects every page with the dirty log on, whatever the guest
  then does (violations handled with or without lifting the protection, pages marked, protected or unmapped), every
  page the guest can write is in the dirty bitmap: no page can change behind the snapshot's back.
\<close>
theorem snapshot_copy_on_write:
  assumes "ept_wf e" "dirty_tracking_enabled e" "list_all cow_op ops"
    and "e' = fold ept_op ops (snd (write_protect_all e))"
    and "ept_lookup gpa e' = Some m" "ept_write (effective_permissions m)"
  shows "gpa \<in> fst (ept_get_and_clear_dirty_bitmap e')"
proof -
  have "ept_wf e1 \<and> cow_inv e1 \<Longrightarrow> list_all cow_op ops \<Longrightarrow> ept_wf (fold ept_op ops e1) \<and> cow_inv (fold ept_op ops e1)" for e1
    by (induction ops arbitrary: e1) (simp_all add: ept_op_wf cow_op_inv)
  with assms(1-4) have w: "ept_wf e'" "cow_inv e'" by (simp_all add: protect_all_wf protect_all_cow)
  from assms(6) have "\<not> m_write_protected m" by (auto simp: effective_permissions_def split: if_splits)
  with w(2) assms(5) have "m_dirty m" by (auto simp: cow_inv_def ept_lookup_def)
  with assms(5) show ?thesis
    by (auto simp: ept_get_and_clear_dirty_bitmap_def ept_wfD(4) [OF w(1)] flagged_def ept_lookup_def)
qed

definition demo_guest :: EptManager where
  "demo_guest = fold ept_op [OpMap 0 0x10000 Page4K EPT_RWX WriteBack, OpMap 0x1000 0x11000 Page4K EPT_RWX WriteBack,
     OpEnable] (ept_new ''guest'')"

theorem snapshot_copy_on_write_witness:
  "0x1000 \<in> fst (ept_get_and_clear_dirty_bitmap (fold ept_op [OpViolation 0x1000 True] (snd (write_protect_all demo_guest))))"
proof -
  let ?e = "fold ept_op [OpViolation 0x1000 True] (snd (write_protect_all demo_guest))"
  have "ept_wf demo_guest" unfolding demo_guest_def by (simp add: ept_op_wf ept_new_wf del: ept_op.simps)
  moreover have "dirty_tracking_enabled demo_guest" "list_all cow_op [OpViolation 0x1000 True]"
    "map_option (\<lambda>m. ept_write (effective_permissions m)) (ept_lookup 0x1000 ?e) = Some True" by code_simp+
  ultimately show ?thesis using snapshot_copy_on_write [of demo_guest "[OpViolation 0x1000 True]" ?e "0x1000"] by auto
qed

text \<open>Unmapping a dirty page leaves the dirty counter of the statistics behind.\<close>

lemma unmap_leaves_dirty_count:
  "let e = fold ept_op [OpMarkDirty 0x1000, OpUnmap 0x1000] demo_guest
   in dirty_pages e = {} \<and> dirty_page_count (stats e) = 1"
  by code_simp

end
