(* ===== verification/Npt.thy ===== *)
theory Npt
  imports Paging
begin

text \<open>
  The nested page tables of an SVM guest (\<open>enlil-hal/src/npt.rs\<close>): the fixed-pattern builders, the operations on
  single leaves, the split of a huge page, the mapper that composes arbitrary ranges, and the per-epoch dirty log.
  All of them write tables into a byte buffer whose first byte lies at the physical address \<open>phys_base\<close>.  A function
  that can fail after it has changed the buffer returns its state with the error.  \<open>usize\<close> has 64 bits.
\<close>

section \<open>Entries\<close>

definition NPT_PAGE_SIZE :: u64 where "NPT_PAGE_SIZE = 4096"
definition NPT_PAGE_SIZE_USIZE :: nat where "NPT_PAGE_SIZE_USIZE = 4096"
definition NPT_HUGE_2MIB :: u64 where "NPT_HUGE_2MIB = 2 * 1024 * 1024"
definition NPT_TABLE_ENTRIES :: u64 where "NPT_TABLE_ENTRIES = 512"
definition NPT_PRESENT :: u64 where "NPT_PRESENT = bitmask 0"
definition NPT_WRITABLE :: u64 where "NPT_WRITABLE = bitmask 1"
definition NPT_USER :: u64 where "NPT_USER = bitmask 2"
definition NPT_HUGE_PAGE :: u64 where "NPT_HUGE_PAGE = bitmask 7"
definition ADDR_MASK :: u64 where "ADDR_MASK = 0x000FFFFFFFFFF000"

record NptLayout =
  ncr3 :: u64
  npt_table_count :: nat
  npt_bytes :: nat

datatype NptError =
    NptEmptyRegion
  | NptUnalignedBase
  | UnalignedSpaBase
  | NptMapTooLarge u64
  | TablesExceedBuffer nat nat
  | IntermediateNotPresent
  | GuardPageOutOfRange u64 u64
  | HugePageOnPath
  | NotAHugePageLeaf
  | FineWindowOutOfRange u64 u64
  | AddressOutOfRange u64
  | RangeOverlap u64
  | GuardAddressOutOfRange u64 u64 u64
  | GpaOutOfRange u64 u64 u64
  | DirtyRangeOverflow u64 u64

definition npt_read_entry :: "u8 list \<Rightarrow> nat \<Rightarrow> NptError + u64" where
  "npt_read_entry buf off =
     (if off + 8 \<le> length buf then Inr (from_le_bytes (field_at off 8 buf)) else Inl IntermediateNotPresent)"

definition npt_write_entry :: "nat \<Rightarrow> u64 \<Rightarrow> u8 list \<Rightarrow> u8 list" where
  "npt_write_entry off entry buf = copy_at off (to_le_bytes 8 entry) buf"

text \<open>The buffer offset of the table at physical address \<open>pa\<close>, when it lies wholly in the buffer.\<close>

definition table_in :: "u8 list \<Rightarrow> u64 \<Rightarrow> u64 \<Rightarrow> nat option" where
  "table_in buf phys_base pa =
     (if pa < phys_base then None
      else let off = unat (pa - phys_base) in
        if off + 4096 < 2 ^ 64 \<and> off + 4096 \<le> length buf then Some off else None)"

definition child_offset :: "u8 list \<Rightarrow> u64 \<Rightarrow> nat \<Rightarrow> nat \<Rightarrow> NptError + nat" where
  "child_offset buf phys_base table_off index =
     (case npt_read_entry buf (table_off + index * 8) of
        Inl e \<Rightarrow> Inl e
      | Inr entry \<Rightarrow>
          if entry AND NPT_PRESENT = 0 then Inl IntermediateNotPresent
          else if entry AND NPT_HUGE_PAGE \<noteq> 0 then Inl HugePageOnPath
          else case table_in buf phys_base (entry AND ADDR_MASK) of
                 None \<Rightarrow> Inl IntermediateNotPresent
               | Some off \<Rightarrow> Inr off)"

text \<open>\<open>(gpa >> n) & 0x1FF\<close> for the four levels.\<close>

abbreviation i4 :: "u64 \<Rightarrow> nat" where "i4 gpa \<equiv> unat (drop_bit 39 gpa AND 0x1FF)"
abbreviation i3 :: "u64 \<Rightarrow> nat" where "i3 gpa \<equiv> unat (drop_bit 30 gpa AND 0x1FF)"
abbreviation i2 :: "u64 \<Rightarrow> nat" where "i2 gpa \<equiv> unat (drop_bit 21 gpa AND 0x1FF)"
abbreviation i1 :: "u64 \<Rightarrow> nat" where "i1 gpa \<equiv> unat (drop_bit 12 gpa AND 0x1FF)"

abbreviation table_flags :: u64 where "table_flags \<equiv> NPT_PRESENT OR NPT_WRITABLE OR NPT_USER"
abbreviation huge_flags :: u64 where "huge_flags \<equiv> NPT_PRESENT OR NPT_WRITABLE OR NPT_USER OR NPT_HUGE_PAGE"

section \<open>Fixed-pattern builders\<close>

definition table_space :: "nat \<Rightarrow> u8 list \<Rightarrow> NptError + nat" where
  "table_space count buf =
     (if count * 4096 \<ge> 2 ^ 64 then Inl (TablesExceedBuffer (2 ^ 64 - 1) (length buf))
      else if count * 4096 > length buf then Inl (TablesExceedBuffer (count * 4096) (length buf))
      else Inr (count * 4096))"

definition build_npt_2mib :: "u64 \<Rightarrow> u64 \<Rightarrow> u64 \<Rightarrow> u8 list \<Rightarrow> NptError + NptLayout \<times> u8 list" where
  "build_npt_2mib phys_base spa_base bytes_to_map buf =
     (if bytes_to_map = 0 then Inl NptEmptyRegion
      else if phys_base AND (NPT_PAGE_SIZE - 1) \<noteq> 0 then Inl NptUnalignedBase
      else if spa_base AND (NPT_HUGE_2MIB - 1) \<noteq> 0 then Inl UnalignedSpaBase
      else let num_2mib = div_ceil_u64 bytes_to_map NPT_HUGE_2MIB; num_pd = div_ceil_u64 num_2mib NPT_TABLE_ENTRIES
      in if num_pd > NPT_TABLE_ENTRIES then Inl (NptMapTooLarge num_pd)
      else let num_pd = unat num_pd; num_2mib = unat num_2mib; tc = 2 + num_pd
      in case table_space tc buf of
        Inl e \<Rightarrow> Inl e
      | Inr region \<Rightarrow>
          let buf = fill_zero 0 region buf;
              pdpt_pa = phys_base + NPT_PAGE_SIZE;
              first_pd_pa = phys_base + 2 * NPT_PAGE_SIZE;
              buf = npt_write_entry 0 ((pdpt_pa AND ADDR_MASK) OR table_flags) buf;
              buf = fold (\<lambda>k. npt_write_entry (4096 + k * 8)
                      (((first_pd_pa + of_nat k * NPT_PAGE_SIZE) AND ADDR_MASK) OR table_flags)) [0..<num_pd] buf;
              buf = fold (\<lambda>page. npt_write_entry (2 * 4096 + page div 512 * 4096 + page mod 512 * 8)
                      (((spa_base + of_nat page * NPT_HUGE_2MIB) AND ADDR_MASK) OR huge_flags)) [0..<num_2mib] buf
          in Inr (\<lparr>ncr3 = phys_base, npt_table_count = tc, npt_bytes = region\<rparr>, buf))"

definition build_identity_npt_2mib :: "u64 \<Rightarrow> u64 \<Rightarrow> u8 list \<Rightarrow> NptError + NptLayout \<times> u8 list" where
  "build_identity_npt_2mib phys_base bytes_to_map buf = build_npt_2mib phys_base 0 bytes_to_map buf"

definition build_identity_npt_4kib :: "u64 \<Rightarrow> u64 \<Rightarrow> u64 list \<Rightarrow> u8 list \<Rightarrow> NptError + NptLayout \<times> u8 list" where
  "build_identity_npt_4kib phys_base num_pages guard_pages buf =
     (if num_pages = 0 then Inl NptEmptyRegion
      else if phys_base AND (NPT_PAGE_SIZE - 1) \<noteq> 0 then Inl NptUnalignedBase
      else case List.find (\<lambda>g. g \<ge> num_pages) guard_pages of
        Some g \<Rightarrow> Inl (GuardPageOutOfRange g num_pages)
      | None \<Rightarrow>
     (let num_pt = div_ceil_u64 num_pages NPT_TABLE_ENTRIES
      in if num_pt > NPT_TABLE_ENTRIES then Inl (NptMapTooLarge num_pt)
      else let num_pt = unat num_pt; tc = 3 + num_pt
      in case table_space tc buf of
        Inl e \<Rightarrow> Inl e
      | Inr region \<Rightarrow>
          let buf = fill_zero 0 region buf;
              pdpt_pa = phys_base + NPT_PAGE_SIZE;
              directory_pa = phys_base + 2 * NPT_PAGE_SIZE;
              first_pt_pa = phys_base + 3 * NPT_PAGE_SIZE;
              buf = npt_write_entry 0 ((pdpt_pa AND ADDR_MASK) OR table_flags) buf;
              buf = npt_write_entry 4096 ((directory_pa AND ADDR_MASK) OR table_flags) buf;
              buf = fold (\<lambda>k. npt_write_entry (2 * 4096 + k * 8)
                      (((first_pt_pa + of_nat k * NPT_PAGE_SIZE) AND ADDR_MASK) OR table_flags)) [0..<num_pt] buf;
              buf = fold (\<lambda>page buf. if of_nat page \<in> set guard_pages then buf
                      else npt_write_entry (3 * 4096 + page div 512 * 4096 + page mod 512 * 8)
                             (((of_nat page * NPT_PAGE_SIZE) AND ADDR_MASK) OR table_flags) buf)
                      [0..<unat num_pages] buf
          in Inr (\<lparr>ncr3 = phys_base, npt_table_count = tc, npt_bytes = region\<rparr>, buf)))"

definition build_identity_npt_2mib_with_4kib_window ::
  "u64 \<Rightarrow> u64 \<Rightarrow> u64 \<Rightarrow> u64 list \<Rightarrow> u8 list \<Rightarrow> NptError + NptLayout \<times> u8 list" where
  "build_identity_npt_2mib_with_4kib_window phys_base bytes_to_map fine_2mib_index guard_pages buf =
     (if bytes_to_map = 0 then Inl NptEmptyRegion
      else if phys_base AND (NPT_PAGE_SIZE - 1) \<noteq> 0 then Inl NptUnalignedBase
      else let num_2mib = div_ceil_u64 bytes_to_map NPT_HUGE_2MIB; num_pd = div_ceil_u64 num_2mib NPT_TABLE_ENTRIES
      in if num_pd > NPT_TABLE_ENTRIES then Inl (NptMapTooLarge num_pd)
      else if fine_2mib_index \<ge> num_2mib then Inl (FineWindowOutOfRange fine_2mib_index num_2mib)
      else case List.find (\<lambda>g. g \<ge> NPT_TABLE_ENTRIES) guard_pages of
        Some g \<Rightarrow> Inl (GuardPageOutOfRange g NPT_TABLE_ENTRIES)
      | None \<Rightarrow>
     (let num_pd = unat num_pd; num_2mib = unat num_2mib; fine = unat fine_2mib_index; tc = 2 + num_pd + 1
      in case table_space tc buf of
        Inl e \<Rightarrow> Inl e
      | Inr region \<Rightarrow>
          let buf = fill_zero 0 region buf;
              pdpt_pa = phys_base + NPT_PAGE_SIZE;
              first_pd_pa = phys_base + 2 * NPT_PAGE_SIZE;
              fine_pt_pa = phys_base + (2 + of_nat num_pd) * NPT_PAGE_SIZE;
              fine_pt_off = (2 + num_pd) * 4096;
              buf = npt_write_entry 0 ((pdpt_pa AND ADDR_MASK) OR table_flags) buf;
              buf = fold (\<lambda>k. npt_write_entry (4096 + k * 8)
                      (((first_pd_pa + of_nat k * NPT_PAGE_SIZE) AND ADDR_MASK) OR table_flags)) [0..<num_pd] buf;
              buf = fold (\<lambda>page. npt_write_entry (2 * 4096 + page div 512 * 4096 + page mod 512 * 8)
                      (if page = fine then (fine_pt_pa AND ADDR_MASK) OR table_flags
                       else ((of_nat page * NPT_HUGE_2MIB) AND ADDR_MASK) OR huge_flags)) [0..<num_2mib] buf;
              fine_base = of_nat fine * NPT_HUGE_2MIB;
              buf = fold (\<lambda>p buf. if of_nat p \<in> set guard_pages then buf
                      else npt_write_entry (fine_pt_off + p * 8)
                             (((fine_base + of_nat p * NPT_PAGE_SIZE) AND ADDR_MASK) OR table_flags) buf) [0..<512] buf
          in Inr (\<lparr>ncr3 = phys_base, npt_table_count = tc, npt_bytes = region\<rparr>, buf)))"

section \<open>Single leaves\<close>

definition map_npt_2mib_leaf :: "u64 \<Rightarrow> u64 \<Rightarrow> u64 \<Rightarrow> u8 list \<Rightarrow> NptError + u8 list" where
  "map_npt_2mib_leaf phys_base gpa spa buf =
     (if gpa AND (NPT_HUGE_2MIB - 1) \<noteq> 0 \<or> spa AND (NPT_HUGE_2MIB - 1) \<noteq> 0 then Inl NptUnalignedBase
      else case child_offset buf phys_base 0 (i4 gpa) of
        Inl e \<Rightarrow> Inl e
      | Inr pdpt_off \<Rightarrow>
     (case child_offset buf phys_base pdpt_off (i3 gpa) of
        Inl e \<Rightarrow> Inl e
      | Inr pd_off \<Rightarrow> Inr (npt_write_entry (pd_off + i2 gpa * 8) ((spa AND ADDR_MASK) OR huge_flags) buf)))"

definition set_npt_2mib_leaf_writable :: "u64 \<Rightarrow> u64 \<Rightarrow> bool \<Rightarrow> u8 list \<Rightarrow> NptError + u8 list" where
  "set_npt_2mib_leaf_writable phys_base gpa writable buf =
     (if gpa AND (NPT_HUGE_2MIB - 1) \<noteq> 0 then Inl NptUnalignedBase
      else case child_offset buf phys_base 0 (i4 gpa) of
        Inl e \<Rightarrow> Inl e
      | Inr pdpt_off \<Rightarrow>
     (case child_offset buf phys_base pdpt_off (i3 gpa) of
        Inl e \<Rightarrow> Inl e
      | Inr pd_off \<Rightarrow>
     (case npt_read_entry buf (pd_off + i2 gpa * 8) of
        Inl e \<Rightarrow> Inl e
      | Inr entry \<Rightarrow>
          if entry AND NPT_PRESENT = 0 \<or> entry AND NPT_HUGE_PAGE = 0 then Inl NotAHugePageLeaf
          else Inr (npt_write_entry (pd_off + i2 gpa * 8)
                 (if writable then entry OR NPT_WRITABLE else entry AND NOT NPT_WRITABLE) buf))))"

text \<open>The walk to the 4 KiB leaf of an address, shared by the operations on one.\<close>

definition leaf_slot :: "u64 \<Rightarrow> u64 \<Rightarrow> u8 list \<Rightarrow> NptError + nat" where
  "leaf_slot phys_base gpa buf =
     (case child_offset buf phys_base 0 (i4 gpa) of
        Inl e \<Rightarrow> Inl e
      | Inr pdpt_off \<Rightarrow>
     (case child_offset buf phys_base pdpt_off (i3 gpa) of
        Inl e \<Rightarrow> Inl e
      | Inr dir_off \<Rightarrow>
     (case child_offset buf phys_base dir_off (i2 gpa) of
        Inl e \<Rightarrow> Inl e
      | Inr table_off \<Rightarrow> Inr (table_off + i1 gpa * 8))))"

definition set_npt_4kib_leaf_writable :: "u64 \<Rightarrow> u64 \<Rightarrow> bool \<Rightarrow> u8 list \<Rightarrow> NptError + u8 list" where
  "set_npt_4kib_leaf_writable phys_base gpa writable buf =
     (if gpa AND (NPT_PAGE_SIZE - 1) \<noteq> 0 then Inl NptUnalignedBase
      else case leaf_slot phys_base gpa buf of
        Inl e \<Rightarrow> Inl e
      | Inr a \<Rightarrow>
     (case npt_read_entry buf a of
        Inl e \<Rightarrow> Inl e
      | Inr entry \<Rightarrow>
          if entry AND NPT_PRESENT = 0 then Inl IntermediateNotPresent
          else Inr (npt_write_entry a (if writable then entry OR NPT_WRITABLE else entry AND NOT NPT_WRITABLE) buf)))"

definition set_npt_4kib_leaf_present :: "u64 \<Rightarrow> u64 \<Rightarrow> bool \<Rightarrow> u8 list \<Rightarrow> NptError + u8 list" where
  "set_npt_4kib_leaf_present phys_base gpa present buf =
     (if gpa AND (NPT_PAGE_SIZE - 1) \<noteq> 0 then Inl NptUnalignedBase
      else case leaf_slot phys_base gpa buf of
        Inl e \<Rightarrow> Inl e
      | Inr a \<Rightarrow>
     (case npt_read_entry buf a of
        Inl e \<Rightarrow> Inl e
      | Inr entry \<Rightarrow>
          if entry AND NOT NPT_PRESENT = 0 then Inl IntermediateNotPresent
          else Inr (npt_write_entry a (if present then entry OR NPT_PRESENT else entry AND NOT NPT_PRESENT) buf)))"

text \<open>The page loop of the two range operations; it need not end when the last page is the last of the address space.\<close>

partial_function (option) page_loop ::
  "(u64 \<Rightarrow> u8 list \<Rightarrow> NptError + u8 list) \<Rightarrow> u64 \<Rightarrow> u64 \<Rightarrow> u8 list \<Rightarrow> ((NptError + unit) \<times> u8 list) option" where
  "page_loop f a fin buf =
     (if a < fin then
        case f a buf of
          Inl e \<Rightarrow> Some (Inl e, buf)
        | Inr buf' \<Rightarrow> page_loop f (a + NPT_PAGE_SIZE) fin buf'
      else Some (Inr (), buf))"

definition set_npt_range_present :: "u64 \<Rightarrow> u64 \<Rightarrow> u64 \<Rightarrow> bool \<Rightarrow> u8 list \<Rightarrow> ((NptError + unit) \<times> u8 list) option" where
  "set_npt_range_present phys_base gpa len present buf =
     (case checked_add gpa len of
        None \<Rightarrow> Some (Inl (AddressOutOfRange gpa), buf)
      | Some fin \<Rightarrow> page_loop (\<lambda>a. set_npt_4kib_leaf_present phys_base a present) gpa fin buf)"

definition set_npt_range_writable :: "u64 \<Rightarrow> u64 \<Rightarrow> u64 \<Rightarrow> bool \<Rightarrow> u8 list \<Rightarrow> ((NptError + unit) \<times> u8 list) option" where
  "set_npt_range_writable phys_base gpa len writable buf =
     (case checked_add gpa len of
        None \<Rightarrow> Some (Inl (AddressOutOfRange gpa), buf)
      | Some fin \<Rightarrow> page_loop (\<lambda>a. set_npt_4kib_leaf_writable phys_base a writable) gpa fin buf)"

definition map_npt_4kib_leaf :: "u64 \<Rightarrow> u64 \<Rightarrow> u64 \<Rightarrow> u8 list \<Rightarrow> NptError + u8 list" where
  "map_npt_4kib_leaf phys_base gpa spa buf =
     (if gpa AND (NPT_PAGE_SIZE - 1) \<noteq> 0 \<or> spa AND (NPT_PAGE_SIZE - 1) \<noteq> 0 then Inl NptUnalignedBase
      else case leaf_slot phys_base gpa buf of
        Inl e \<Rightarrow> Inl e
      | Inr a \<Rightarrow> Inr (npt_write_entry a ((spa AND ADDR_MASK) OR table_flags) buf))"

definition check_split_guard :: "u64 \<Rightarrow> u64 \<Rightarrow> NptError option" where
  "check_split_guard gpa g =
     (if g AND (NPT_PAGE_SIZE - 1) \<noteq> 0 then Some NptUnalignedBase
      else if g < gpa then Some (GuardPageOutOfRange 0 NPT_TABLE_ENTRIES)
      else let index = (g - gpa) div NPT_PAGE_SIZE
        in if index \<ge> NPT_TABLE_ENTRIES then Some (GuardPageOutOfRange index NPT_TABLE_ENTRIES) else None)"

fun first_error :: "('a \<Rightarrow> 'e option) \<Rightarrow> 'a list \<Rightarrow> 'e option" where
  "first_error f [] = None"
| "first_error f (x # xs) = (case f x of Some e \<Rightarrow> Some e | None \<Rightarrow> first_error f xs)"

definition split_npt_2mib_leaf :: "u64 \<Rightarrow> u64 \<Rightarrow> u64 \<Rightarrow> u64 list \<Rightarrow> u8 list \<Rightarrow> NptError + u8 list" where
  "split_npt_2mib_leaf phys_base gpa pt_pa guard_gpas buf =
     (if gpa AND (NPT_HUGE_2MIB - 1) \<noteq> 0 \<or> pt_pa AND (NPT_PAGE_SIZE - 1) \<noteq> 0 then Inl NptUnalignedBase
      else case first_error (check_split_guard gpa) guard_gpas of
        Some e \<Rightarrow> Inl e
      | None \<Rightarrow>
      if pt_pa < phys_base then Inl (TablesExceedBuffer 0 (length buf))
      else let new_table_off = unat (pt_pa - phys_base) in
      if new_table_off + 4096 \<ge> 2 ^ 64 \<or> new_table_off + 4096 > length buf
      then Inl (TablesExceedBuffer (min (new_table_off + 4096) (2 ^ 64 - 1)) (length buf))
      else case child_offset buf phys_base 0 (i4 gpa) of
        Inl e \<Rightarrow> Inl e
      | Inr pdpt_off \<Rightarrow>
     (case child_offset buf phys_base pdpt_off (i3 gpa) of
        Inl e \<Rightarrow> Inl e
      | Inr pd_off \<Rightarrow>
     (case npt_read_entry buf (pd_off + i2 gpa * 8) of
        Inl e \<Rightarrow> Inl e
      | Inr huge \<Rightarrow>
          if huge AND NPT_PRESENT = 0 \<or> huge AND NPT_HUGE_PAGE = 0 then Inl NotAHugePageLeaf
          else
          let spa_base = huge AND ADDR_MASK;
              leaf_flags = (huge AND NOT ADDR_MASK) AND NOT NPT_HUGE_PAGE;
              buf = fill_zero new_table_off (new_table_off + 4096) buf;
              buf = fold (\<lambda>j buf. if gpa + of_nat j * NPT_PAGE_SIZE \<in> set guard_gpas then buf
                      else npt_write_entry (new_table_off + j * 8)
                             (((spa_base + of_nat j * NPT_PAGE_SIZE) AND ADDR_MASK) OR leaf_flags) buf) [0..<512] buf
          in Inr (npt_write_entry (pd_off + i2 gpa * 8) ((pt_pa AND ADDR_MASK) OR table_flags) buf))))"

definition translate_npt :: "u8 list \<Rightarrow> u64 \<Rightarrow> u64 \<Rightarrow> u64 option" where
  "translate_npt buf phys_base gpa =
     (case child_offset buf phys_base 0 (i4 gpa) of
        Inl _ \<Rightarrow> None
      | Inr pdpt_off \<Rightarrow>
     (case child_offset buf phys_base pdpt_off (i3 gpa) of
        Inl _ \<Rightarrow> None
      | Inr pd_off \<Rightarrow>
     (case npt_read_entry buf (pd_off + i2 gpa * 8) of
        Inl _ \<Rightarrow> None
      | Inr pd_entry \<Rightarrow>
          if pd_entry AND NPT_PRESENT = 0 then None
          else if pd_entry AND NPT_HUGE_PAGE \<noteq> 0 then Some ((pd_entry AND ADDR_MASK) OR (gpa AND (NPT_HUGE_2MIB - 1)))
          else case child_offset buf phys_base pd_off (i2 gpa) of
            Inl _ \<Rightarrow> None
          | Inr leaf_table_off \<Rightarrow>
         (case npt_read_entry buf (leaf_table_off + i1 gpa * 8) of
            Inl _ \<Rightarrow> None
          | Inr leaf \<Rightarrow>
              if leaf AND NPT_PRESENT = 0 then None
              else Some ((leaf AND ADDR_MASK) OR (gpa AND (NPT_PAGE_SIZE - 1)))))))"

end
