(* ===== verification/Npt_Mapper.thy ===== *)
theory Npt_Mapper
  imports Npt
begin

text \<open>
  The mapper of \<open>enlil-hal/src/npt.rs\<close>: tables allocated on demand from the front of a buffer, and ranges mapped
  with the largest pages their alignment allows.  An operation takes the mapper and returns its result with the
  mapper it leaves behind, which may have new tables even when the operation fails.
\<close>

record NptMapper =
  nm_buf :: "u8 list"
  nm_phys_base :: u64
  nm_tables_used :: nat

datatype MapperChild = Absent | HugeLeaf | Table nat

type_synonym 'a nm = "NptMapper \<Rightarrow> (NptError + 'a) \<times> NptMapper"

definition nm_bind :: "'a nm \<Rightarrow> ('a \<Rightarrow> 'b nm) \<Rightarrow> 'b nm" where
  "nm_bind f g m = (case f m of (Inl e, m') \<Rightarrow> (Inl e, m') | (Inr a, m') \<Rightarrow> g a m')"

definition alloc_table :: "(u64 \<times> nat) nm" where
  "alloc_table m =
     (let off = nm_tables_used m * NPT_PAGE_SIZE_USIZE; fin = off + NPT_PAGE_SIZE_USIZE; have = length (nm_buf m) in
      if off \<ge> 2 ^ 64 \<or> fin \<ge> 2 ^ 64 then (Inl (TablesExceedBuffer (2 ^ 64 - 1) have), m)
      else if fin > have then (Inl (TablesExceedBuffer fin have), m)
      else (Inr (nm_phys_base m + of_nat off, off),
            m\<lparr>nm_buf := fill_zero off fin (nm_buf m), nm_tables_used := nm_tables_used m + 1\<rparr>))"

definition link_new_table :: "nat \<Rightarrow> nat \<Rightarrow> nat nm" where
  "link_new_table table_off index =
     nm_bind alloc_table (\<lambda>(pa, off) m.
       (Inr off, m\<lparr>nm_buf := npt_write_entry (table_off + index * 8) ((pa AND ADDR_MASK) OR table_flags) (nm_buf m)\<rparr>))"

definition child_table_off :: "nat \<Rightarrow> nat \<Rightarrow> nat nm" where
  "child_table_off table_off index m =
     (case npt_read_entry (nm_buf m) (table_off + index * 8) of
        Inl e \<Rightarrow> (Inl e, m)
      | Inr entry \<Rightarrow>
          if entry AND NPT_PRESENT \<noteq> 0
          then (case table_in (nm_buf m) (nm_phys_base m) (entry AND ADDR_MASK) of
                  None \<Rightarrow> (Inl IntermediateNotPresent, m) | Some off \<Rightarrow> (Inr off, m))
          else link_new_table table_off index m)"

definition pd_off_for :: "u64 \<Rightarrow> nat nm" where
  "pd_off_for gpa = nm_bind (child_table_off 0 (i4 gpa)) (\<lambda>pdpt_off. child_table_off pdpt_off (i3 gpa))"

definition pd_child :: "nat \<Rightarrow> nat \<Rightarrow> NptMapper \<Rightarrow> NptError + MapperChild" where
  "pd_child pd_off index m =
     (case npt_read_entry (nm_buf m) (pd_off + index * 8) of
        Inl e \<Rightarrow> Inl e
      | Inr entry \<Rightarrow>
          if entry AND NPT_PRESENT = 0 then Inr Absent
          else if entry AND NPT_HUGE_PAGE \<noteq> 0 then Inr HugeLeaf
          else case table_in (nm_buf m) (nm_phys_base m) (entry AND ADDR_MASK) of
                 None \<Rightarrow> Inl IntermediateNotPresent | Some off \<Rightarrow> Inr (Table off))"

definition pt_off_for :: "u64 \<Rightarrow> nat nm" where
  "pt_off_for gpa =
     nm_bind (pd_off_for gpa) (\<lambda>pd_off m.
       case pd_child pd_off (i2 gpa) m of
         Inl e \<Rightarrow> (Inl e, m)
       | Inr (Table off) \<Rightarrow> (Inr off, m)
       | Inr Absent \<Rightarrow> link_new_table pd_off (i2 gpa) m
       | Inr HugeLeaf \<Rightarrow> (Inl (RangeOverlap gpa), m))"

definition map_huge_leaf :: "u64 \<Rightarrow> u64 \<Rightarrow> unit nm" where
  "map_huge_leaf gpa spa =
     nm_bind (pd_off_for gpa) (\<lambda>pd_off m.
       case pd_child pd_off (i2 gpa) m of
         Inl e \<Rightarrow> (Inl e, m)
       | Inr c \<Rightarrow>
           if c \<noteq> Absent then (Inl (RangeOverlap gpa), m)
           else (Inr (), m\<lparr>nm_buf := npt_write_entry (pd_off + i2 gpa * 8) ((spa AND ADDR_MASK) OR huge_flags) (nm_buf m)\<rparr>))"

definition map_small_page :: "u64 \<Rightarrow> u64 option \<Rightarrow> unit nm" where
  "map_small_page gpa target =
     nm_bind (pt_off_for gpa) (\<lambda>pt_off m.
       let off = pt_off + i1 gpa * 8 in
       case npt_read_entry (nm_buf m) off of
         Inl e \<Rightarrow> (Inl e, m)
       | Inr entry \<Rightarrow>
           if entry AND NPT_PRESENT \<noteq> 0 then (Inl (RangeOverlap gpa), m)
           else case target of
                  None \<Rightarrow> (Inr (), m)
                | Some spa \<Rightarrow>
                    (Inr (), m\<lparr>nm_buf := npt_write_entry off ((spa AND ADDR_MASK) OR table_flags) (nm_buf m)\<rparr>))"

definition npt_mapper_new :: "u8 list \<Rightarrow> u64 \<Rightarrow> NptError + NptMapper" where
  "npt_mapper_new buf phys_base =
     (if phys_base AND (NPT_PAGE_SIZE - 1) \<noteq> 0 then Inl NptUnalignedBase
      else if length buf < NPT_PAGE_SIZE_USIZE then Inl (TablesExceedBuffer NPT_PAGE_SIZE_USIZE (length buf))
      else case alloc_table \<lparr>nm_buf = buf, nm_phys_base = phys_base, nm_tables_used = 0\<rparr> of
             (Inl e, _) \<Rightarrow> Inl e | (Inr _, m) \<Rightarrow> Inr m)"

definition mapper_layout :: "NptMapper \<Rightarrow> NptLayout" where
  "mapper_layout m =
     \<lparr>ncr3 = nm_phys_base m, npt_table_count = nm_tables_used m,
      npt_bytes = min (nm_tables_used m * NPT_PAGE_SIZE_USIZE) (2 ^ 64 - 1)\<rparr>"

text \<open>The loop of \<open>map_range\<close> would not end on a length that is not a multiple of the page size; the caller rules it out.\<close>

definition chunk_has_guard :: "u64 \<Rightarrow> u64 list \<Rightarrow> bool" where
  "chunk_has_guard gpa guard_gpas \<longleftrightarrow> list_ex (\<lambda>g. gpa \<le> g \<and> g < gpa + NPT_HUGE_2MIB) guard_gpas"

definition fits_huge :: "u64 \<Rightarrow> u64 \<Rightarrow> u64 \<Rightarrow> u64 list \<Rightarrow> bool" where
  "fits_huge gpa spa remaining guard_gpas \<longleftrightarrow>
     gpa AND (NPT_HUGE_2MIB - 1) = 0 \<and> spa AND (NPT_HUGE_2MIB - 1) = 0 \<and> remaining \<ge> NPT_HUGE_2MIB \<and>
     \<not> chunk_has_guard gpa guard_gpas"

partial_function (option) nm_range_loop ::
  "u64 list \<Rightarrow> u64 \<Rightarrow> u64 \<Rightarrow> u64 \<Rightarrow> NptMapper \<Rightarrow> ((NptError + unit) \<times> NptMapper) option" where
  "nm_range_loop guard_gpas gpa spa remaining m =
     (if remaining > 0 then
        if fits_huge gpa spa remaining guard_gpas then
          (case map_huge_leaf gpa spa m of
             (Inl e, m') \<Rightarrow> Some (Inl e, m')
           | (Inr _, m') \<Rightarrow>
               nm_range_loop guard_gpas (gpa + NPT_HUGE_2MIB) (spa + NPT_HUGE_2MIB) (remaining - NPT_HUGE_2MIB) m')
        else
          (case map_small_page gpa (if gpa \<in> set guard_gpas then None else Some spa) m of
             (Inl e, m') \<Rightarrow> Some (Inl e, m')
           | (Inr _, m') \<Rightarrow>
               nm_range_loop guard_gpas (gpa + NPT_PAGE_SIZE) (spa + NPT_PAGE_SIZE) (remaining - NPT_PAGE_SIZE) m')
      else Some (Inr (), m))"

definition check_map_guard :: "u64 \<Rightarrow> u64 \<Rightarrow> u64 \<Rightarrow> NptError option" where
  "check_map_guard gpa len guard =
     (if guard AND (NPT_PAGE_SIZE - 1) \<noteq> 0 then Some NptUnalignedBase
      else if guard < gpa \<or> guard \<ge> gpa + len then Some (GuardAddressOutOfRange guard gpa len)
      else None)"

definition nm_map_range ::
  "u64 \<Rightarrow> u64 \<Rightarrow> u64 \<Rightarrow> u64 list \<Rightarrow> NptMapper \<Rightarrow> ((NptError + unit) \<times> NptMapper) option" where
  "nm_map_range gpa spa len guard_gpas m =
     (if len = 0 then Some (Inl NptEmptyRegion, m)
      else if gpa AND (NPT_PAGE_SIZE - 1) \<noteq> 0 \<or> spa AND (NPT_PAGE_SIZE - 1) \<noteq> 0 \<or> len AND (NPT_PAGE_SIZE - 1) \<noteq> 0
      then Some (Inl NptUnalignedBase, m)
      else case checked_add gpa len of
        None \<Rightarrow> Some (Inl (AddressOutOfRange gpa), m)
      | Some fin \<Rightarrow>
      if fin > bitmask 48 then Some (Inl (AddressOutOfRange (fin - 1)), m)
      else case first_error (check_map_guard gpa len) guard_gpas of
        Some e \<Rightarrow> Some (Inl e, m)
      | None \<Rightarrow> nm_range_loop guard_gpas gpa spa len m)"

section \<open>The table tree\<close>

text \<open>Entry \<open>i\<close> of table \<open>t\<close>, and the pointer to table \<open>t\<close>.\<close>

definition ent :: "u8 list \<Rightarrow> nat \<Rightarrow> nat \<Rightarrow> u64" where
  "ent buf t i = slot (512 * t + i) buf"

definition npt_ptr :: "u64 \<Rightarrow> nat \<Rightarrow> u64" where
  "npt_ptr pb t = ((pb + of_nat (4096 * t)) AND ADDR_MASK) OR table_flags"

text \<open>
  The first \<open>n\<close> tables of a buffer form a tree of the four levels: \<open>L\<close> gives the level of a table, the root being of level 4,
  and \<open>par\<close> the entry that points to it.  Every present entry above the leaves is such a pointer, or a huge leaf of a
  page directory.
\<close>

definition in_buffer :: "u8 list \<Rightarrow> u64 \<Rightarrow> nat \<Rightarrow> bool" where
  "in_buffer buf pb n \<longleftrightarrow> 0 < n \<and> 4096 * n \<le> length buf \<and> 4096 dvd unat pb \<and> unat pb + length buf \<le> 2 ^ 52"

definition npt_tree :: "u8 list \<Rightarrow> u64 \<Rightarrow> nat \<Rightarrow> (nat \<Rightarrow> nat) \<Rightarrow> (nat \<Rightarrow> nat \<times> nat) \<Rightarrow> bool" where
  "npt_tree buf pb n L par \<longleftrightarrow> in_buffer buf pb n \<and> L 0 = 4 \<and>
     (\<forall>t. 0 < t \<and> t < n \<longrightarrow> fst (par t) < n \<and> snd (par t) < 512 \<and> L (fst (par t)) = Suc (L t) \<and> 0 < L t \<and> L t < 4 \<and>
        ent buf (fst (par t)) (snd (par t)) = npt_ptr pb t) \<and>
     (\<forall>q < n. \<forall>i < 512. bit (ent buf q i) 0 \<and> 1 < L q \<longrightarrow>
        (\<exists>t. 0 < t \<and> t < n \<and> par t = (q, i)) \<or> L q = 2 \<and> bit (ent buf q i) 7)"

lemma npt_treeD:
  assumes "npt_tree buf pb n L par"
  shows "in_buffer buf pb n" "L 0 = 4"
    "\<And>t. 0 < t \<Longrightarrow> t < n \<Longrightarrow> fst (par t) < n \<and> snd (par t) < 512 \<and> L (fst (par t)) = Suc (L t) \<and> 0 < L t \<and> L t < 4"
    "\<And>t. 0 < t \<Longrightarrow> t < n \<Longrightarrow> ent buf (fst (par t)) (snd (par t)) = npt_ptr pb t"
    "\<And>q i. q < n \<Longrightarrow> i < 512 \<Longrightarrow> bit (ent buf q i) 0 \<Longrightarrow> 1 < L q \<Longrightarrow>
       (\<exists>t. 0 < t \<and> t < n \<and> par t = (q, i)) \<or> L q = 2 \<and> bit (ent buf q i) 7"
  using assms unfolding npt_tree_def by blast+

lemma ADDR_MASK_eq: "ADDR_MASK = TABLE_ADDR_MASK"
  by (simp add: ADDR_MASK_def TABLE_ADDR_MASK_def)

lemma npt_flags:
  "NPT_PRESENT = PRESENT" "NPT_WRITABLE = WRITABLE" "NPT_USER = USER" "NPT_HUGE_PAGE = HUGE_PAGE"
  by (simp_all add: NPT_PRESENT_def NPT_WRITABLE_def NPT_USER_def NPT_HUGE_PAGE_def PRESENT_def WRITABLE_def USER_def
      HUGE_PAGE_def)

lemma npt_write_eq: "npt_write_entry = write_entry"
  by (simp add: npt_write_entry_def write_entry_def fun_eq_iff)

lemma read_ent:
  assumes "4096 * Suc t \<le> length buf" "i < 512"
  shows "npt_read_entry buf (4096 * t + i * 8) = Inr (ent buf t i)"
proof -
  have "4096 * t + i * 8 = 8 * (512 * t + i)" by simp
  with assms show ?thesis unfolding npt_read_entry_def ent_def slot_def by (simp only:) simp
qed

lemma write_ent:
  assumes "4096 * Suc q \<le> length buf" "i < 512" "j < 512"
  shows "ent (npt_write_entry (4096 * q + i * 8) e buf) t j = (if t = q \<and> j = i then e else ent buf t j)"
proof -
  have eq: "4096 * q + i * 8 = 8 * (512 * q + i)" by simp
  have "(512 * x + y) div 512 = x" "(512 * x + y) mod 512 = y" if "y < 512" for x y :: nat using that by simp_all
  then have "512 * t + j = 512 * q + i \<longleftrightarrow> t = q \<and> j = i" using assms(2,3) by metis
  moreover have "8 * (512 * q + i) + 8 \<le> length buf" using assms(1,2) by simp
  ultimately show ?thesis unfolding ent_def npt_write_eq eq by (simp only: slot_write)
qed

lemma length_npt_write [simp]: "off + 8 \<le> length buf \<Longrightarrow> length (npt_write_entry off e buf) = length buf"
  by (simp add: npt_write_eq)

lemma npt_ptr_eq: "npt_ptr pb t = table_ptr pb (PRESENT OR WRITABLE OR USER) t"
  by (simp add: npt_ptr_def table_ptr_def table_entry_def npt_flags ADDR_MASK_eq PAGE_SIZE_def mult.commute)

lemma npt_ptr_fields:
  assumes "in_buffer buf pb n" "t < n"
  shows "unat (npt_ptr pb t AND ADDR_MASK) = unat pb + 4096 * t" "bit (npt_ptr pb t) 0" "\<not> bit (npt_ptr pb t) 7"
    "table_in buf pb (npt_ptr pb t AND ADDR_MASK) = Some (4096 * t)"
proof -
  have b: "2 ^ 12 dvd unat pb" "4096 * Suc t \<le> length buf" "unat pb + length buf \<le> 2 ^ 52"
    using assms by (auto simp: in_buffer_def intro: order_trans)
  then have "unat pb + 4096 * t < 2 ^ 52" by simp
  note f = table_ptr_fields [OF b(1) this, of "PRESENT OR WRITABLE OR USER", folded npt_ptr_eq ADDR_MASK_eq]
  show a: "unat (npt_ptr pb t AND ADDR_MASK) = unat pb + 4096 * t" and "bit (npt_ptr pb t) 0" "\<not> bit (npt_ptr pb t) 7"
    using f by (simp_all add: pointer_flags_def)
  have "unat ((npt_ptr pb t AND ADDR_MASK) - pb) = 4096 * t"
    using a by (subst unat_diff) (simp_all add: word_le_nat_alt)
  moreover have "\<not> (npt_ptr pb t AND ADDR_MASK) < pb" using a by (simp add: word_less_nat_alt)
  ultimately show "table_in buf pb (npt_ptr pb t AND ADDR_MASK) = Some (4096 * t)"
    using b by (simp add: table_in_def Let_def)
qed

lemma npt_ptr_inject:
  assumes "in_buffer buf pb n" "t < n" "t' < n" "npt_ptr pb t = npt_ptr pb t'"
  shows "t = t'"
proof -
  have "unat pb + 4096 * t = unat pb + 4096 * t'"
    using npt_ptr_fields(1) [OF assms(1,2)] npt_ptr_fields(1) [OF assms(1,3)] unfolding assms(4) by (rule trans [OF sym])
  then show ?thesis by simp
qed

lemma flag_tests:
  "e AND NPT_PRESENT = 0 \<longleftrightarrow> \<not> bit e 0" "e AND NPT_HUGE_PAGE = 0 \<longleftrightarrow> \<not> bit e 7"
  unfolding NPT_PRESENT_def NPT_HUGE_PAGE_def by (rule and_bitmask_eq_0)+

lemma index_less: "unat (drop_bit n v AND 0x1FF) < 512" for v :: u64
  by (simp add: unat_index)

text \<open>The page directory and the page table on the path of an address.\<close>

definition pd_of :: "nat \<Rightarrow> (nat \<Rightarrow> nat \<times> nat) \<Rightarrow> u64 \<Rightarrow> nat \<Rightarrow> bool" where
  "pd_of n par v t \<longleftrightarrow> 0 < t \<and> t < n \<and>
     (\<exists>t3. 0 < t3 \<and> t3 < n \<and> par t3 = (0, i4 v) \<and> par t = (t3, i3 v))"

definition pt_of :: "nat \<Rightarrow> (nat \<Rightarrow> nat \<times> nat) \<Rightarrow> u64 \<Rightarrow> nat \<Rightarrow> bool" where
  "pt_of n par v t \<longleftrightarrow> 0 < t \<and> t < n \<and> (\<exists>t2. pd_of n par v t2 \<and> par t = (t2, i2 v))"

lemma tree_unique:
  assumes "npt_tree buf pb n L par" "0 < t" "t < n" "0 < t'" "t' < n" "par t = par t'"
  shows "t = t'"
  using npt_treeD(4) [OF assms(1), of t] npt_treeD(4) [OF assms(1), of t'] assms(2-)
    npt_ptr_inject [OF npt_treeD(1) [OF assms(1)]] by simp

lemma pdpt_level:
  assumes "npt_tree buf pb n L par" "0 < t" "t < n" "par t = (0, i)"
  shows "L t = 3"
  using npt_treeD(3) [OF assms(1-3)] npt_treeD(2) [OF assms(1)] assms(4) by simp

lemma pd_of_level:
  assumes "npt_tree buf pb n L par" "pd_of n par v t"
  shows "L t = 2" "t < n"
proof -
  from assms(2) obtain t3 where "0 < t3" "t3 < n" "par t3 = (0, i4 v)" "par t = (t3, i3 v)" "0 < t" "t < n"
    by (auto simp: pd_of_def)
  with npt_treeD(3) [OF assms(1), of t3] npt_treeD(3) [OF assms(1), of t] npt_treeD(2) [OF assms(1)]
  show "L t = 2" "t < n" by auto
qed

lemma pt_of_level:
  assumes "npt_tree buf pb n L par" "pt_of n par v t"
  shows "L t = 1" "t < n"
  using assms(2) npt_treeD(3) [OF assms(1), of t] pd_of_level [OF assms(1)] by (auto simp: pt_of_def)

lemma pd_of_unique:
  assumes "npt_tree buf pb n L par" "pd_of n par v t" "pd_of n par v t'"
  shows "t = t'"
proof -
  from assms(2,3) obtain s s' where s: "0 < s" "s < n" "par s = (0, i4 v)" "par t = (s, i3 v)" "0 < t" "t < n"
    "0 < s'" "s' < n" "par s' = (0, i4 v)" "par t' = (s', i3 v)" "0 < t'" "t' < n" by (auto simp: pd_of_def)
  have "s = s'" by (rule tree_unique [OF assms(1) s(1,2,7,8)]) (simp add: s)
  then show ?thesis by (intro tree_unique [OF assms(1) s(5,6,11,12)]) (simp add: s)
qed

lemma pt_of_unique:
  assumes "npt_tree buf pb n L par" "pt_of n par v t" "pt_of n par v t'"
  shows "t = t'"
proof -
  from assms(2,3) obtain s s' where s: "pd_of n par v s" "par t = (s, i2 v)" "0 < t" "t < n"
    "pd_of n par v s'" "par t' = (s', i2 v)" "0 < t'" "t' < n" by (auto simp: pt_of_def)
  have "s = s'" by (rule pd_of_unique [OF assms(1) s(1,5)])
  then show ?thesis by (intro tree_unique [OF assms(1) s(3,4,7,8)]) (simp add: s)
qed

lemma child_offset_link:
  assumes "npt_tree buf pb n L par" "0 < t" "t < n" "par t = (q, i)"
  shows "child_offset buf pb (4096 * q) i = Inr (4096 * t)"
proof -
  note w = npt_treeD [OF assms(1)]
  have q: "q < n" "i < 512" using w(3) [OF assms(2,3)] assms(4) by simp_all
  have len: "4096 * Suc q \<le> length buf" using w(1) q(1) by (auto simp: in_buffer_def)
  have "ent buf q i = npt_ptr pb t" using w(4) [OF assms(2,3)] assms(4) by simp
  with npt_ptr_fields [OF w(1) assms(3)] show ?thesis
    by (simp add: child_offset_def read_ent [OF len q(2)] flag_tests)
qed

lemma child_offset_none:
  assumes "npt_tree buf pb n L par" "q < n" "i < 512" "1 < L q" "\<not> (\<exists>t. 0 < t \<and> t < n \<and> par t = (q, i))"
  shows "\<exists>e. child_offset buf pb (4096 * q) i = Inl e"
proof -
  note w = npt_treeD [OF assms(1)]
  have len: "4096 * Suc q \<le> length buf" using w(1) assms(2) by (auto simp: in_buffer_def)
  from w(5) [OF assms(2,3) _ assms(4)] assms(5) have "\<not> bit (ent buf q i) 0 \<or> bit (ent buf q i) 7" by blast
  then show ?thesis by (auto simp: child_offset_def read_ent [OF len assms(3)] flag_tests)
qed

text \<open>What the walk finds, by the tables on the path.\<close>

lemma translate_no_pd:
  assumes "npt_tree buf pb n L par" "\<not> (\<exists>t. pd_of n par v t)"
  shows "translate_npt buf pb v = None"
proof -
  have n: "0 < n" "1 < L 0" using npt_treeD(1,2) [OF assms(1)] by (simp_all add: in_buffer_def)
  show ?thesis
  proof (cases "\<exists>t. 0 < t \<and> t < n \<and> par t = (0, i4 v)")
    case False
    from child_offset_none [OF assms(1) n(1) index_less n(2) this]
    show ?thesis by (auto simp: translate_npt_def)
  next
    case True
    then obtain t3 where t3: "0 < t3" "t3 < n" "par t3 = (0, i4 v)" by blast
    have l: "1 < L t3" using pdpt_level [OF assms(1) t3] by simp
    have "\<not> (\<exists>t. 0 < t \<and> t < n \<and> par t = (t3, i3 v))" using assms(2) t3 by (auto simp: pd_of_def)
    from child_offset_none [OF assms(1) t3(2) index_less l this] child_offset_link [OF assms(1) t3]
    show ?thesis by (auto simp: translate_npt_def)
  qed
qed

lemma walk_to_pd:
  assumes "npt_tree buf pb n L par" "pd_of n par v t"
  shows "\<exists>t3. 0 < t3 \<and> t3 < n \<and> par t3 = (0, i4 v) \<and> par t = (t3, i3 v) \<and>
    child_offset buf pb 0 (i4 v) = Inr (4096 * t3) \<and> child_offset buf pb (4096 * t3) (i3 v) = Inr (4096 * t)"
proof -
  from assms(2) obtain t3 where t3: "0 < t3" "t3 < n" "par t3 = (0, i4 v)" "par t = (t3, i3 v)" "0 < t" "t < n"
    by (auto simp: pd_of_def)
  have n: "0 < n" using npt_treeD(1) [OF assms(1)] by (simp add: in_buffer_def)
  have l: "1 < L t3" "1 < L 0" using pdpt_level [OF assms(1) t3(1-3)] npt_treeD(2) [OF assms(1)] by simp_all
  have "child_offset buf pb 0 (i4 v) = Inr (4096 * t3)"
    using child_offset_link [OF assms(1) t3(1-3)] npt_treeD(2) [OF assms(1)] by simp
  moreover have "child_offset buf pb (4096 * t3) (i3 v) = Inr (4096 * t)"
    by (rule child_offset_link [OF assms(1) t3(5,6,4)])
  ultimately show ?thesis using t3 by blast
qed

abbreviation huge_target :: "u64 \<Rightarrow> u64 \<Rightarrow> u64" where
  "huge_target e v \<equiv> (e AND ADDR_MASK) OR (v AND (NPT_HUGE_2MIB - 1))"

abbreviation small_target :: "u64 \<Rightarrow> u64 \<Rightarrow> u64" where
  "small_target e v \<equiv> (e AND ADDR_MASK) OR (v AND (NPT_PAGE_SIZE - 1))"

lemma tree_table_fits: "npt_tree buf pb n L par \<Longrightarrow> t < n \<Longrightarrow> 4096 * Suc t \<le> length buf"
  by (auto simp: npt_tree_def in_buffer_def)

lemma translate_pd:
  assumes "npt_tree buf pb n L par" "pd_of n par v t"
  shows "\<not> bit (ent buf t (i2 v)) 0 \<Longrightarrow> translate_npt buf pb v = None"
    and "bit (ent buf t (i2 v)) 0 \<Longrightarrow> bit (ent buf t (i2 v)) 7 \<Longrightarrow>
      translate_npt buf pb v = Some (huge_target (ent buf t (i2 v)) v)"
proof -
  from walk_to_pd [OF assms] obtain t3 where w: "child_offset buf pb 0 (i4 v) = Inr (4096 * t3)"
    "child_offset buf pb (4096 * t3) (i3 v) = Inr (4096 * t)" by blast
  have r: "npt_read_entry buf (4096 * t + i2 v * 8) = Inr (ent buf t (i2 v))"
    using tree_table_fits [OF assms(1) pd_of_level(2) [OF assms]] index_less by (rule read_ent)
  show "\<not> bit (ent buf t (i2 v)) 0 \<Longrightarrow> translate_npt buf pb v = None"
    by (simp add: translate_npt_def w r flag_tests)
  show "bit (ent buf t (i2 v)) 0 \<Longrightarrow> bit (ent buf t (i2 v)) 7 \<Longrightarrow>
      translate_npt buf pb v = Some (huge_target (ent buf t (i2 v)) v)"
    by (simp add: translate_npt_def w r flag_tests)
qed

lemma translate_pt:
  assumes "npt_tree buf pb n L par" "pt_of n par v t"
  shows "translate_npt buf pb v =
    (if bit (ent buf t (i1 v)) 0 then Some (small_target (ent buf t (i1 v)) v) else None)"
proof -
  from assms(2) obtain t2 where t2: "pd_of n par v t2" "0 < t" "t < n" "par t = (t2, i2 v)" by (auto simp: pt_of_def)
  from walk_to_pd [OF assms(1) t2(1)] obtain t3 where w: "child_offset buf pb 0 (i4 v) = Inr (4096 * t3)"
    "child_offset buf pb (4096 * t3) (i3 v) = Inr (4096 * t2)" by blast
  have c: "child_offset buf pb (4096 * t2) (i2 v) = Inr (4096 * t)" by (rule child_offset_link [OF assms(1) t2(2-4)])
  have r2: "npt_read_entry buf (4096 * t2 + i2 v * 8) = Inr (ent buf t2 (i2 v))"
    using tree_table_fits [OF assms(1) pd_of_level(2) [OF assms(1) t2(1)]] index_less by (rule read_ent)
  have r1: "npt_read_entry buf (4096 * t + i1 v * 8) = Inr (ent buf t (i1 v))"
    using tree_table_fits [OF assms(1) t2(3)] index_less by (rule read_ent)
  have "ent buf t2 (i2 v) = npt_ptr pb t" using npt_treeD(4) [OF assms(1) t2(2,3)] t2(4) by simp
  then show ?thesis
    using npt_ptr_fields(2,3) [OF npt_treeD(1) [OF assms(1)] t2(3)] by (simp add: translate_npt_def w r2 c r1 flag_tests)
qed

text \<open>An address has no page directory, or its entry there is absent, a huge leaf, or the pointer to its page table.\<close>

lemma path_cases:
  assumes "npt_tree buf pb n L par"
  obtains (no_pd) "\<not> (\<exists>t. pd_of n par v t)"
  | (absent) t where "pd_of n par v t" "\<not> bit (ent buf t (i2 v)) 0" "\<not> (\<exists>t1. pt_of n par v t1)"
  | (huge) t where "pd_of n par v t" "bit (ent buf t (i2 v)) 0" "bit (ent buf t (i2 v)) 7" "\<not> (\<exists>t1. pt_of n par v t1)"
  | (table) t where "pt_of n par v t"
proof (cases "\<exists>t. pd_of n par v t")
  case True
  then obtain t where t: "pd_of n par v t" by blast
  note l = pd_of_level [OF assms t]
  show ?thesis
  proof (cases "\<exists>t1. pt_of n par v t1")
    case False
    then have "\<not> (\<exists>t1. 0 < t1 \<and> t1 < n \<and> par t1 = (t, i2 v))" using t by (auto simp: pt_of_def)
    with npt_treeD(5) [OF assms l(2) index_less, of 21 v] l(1) t False show ?thesis using that(2,3) by auto
  qed (use that(4) in blast)
qed (use that(1) in blast)

section \<open>Growing the tree\<close>

lemma pd_of_mono:
  assumes "npt_tree buf pb n L par"
  shows "pd_of (Suc n) (par(n := x)) v t \<and> t \<noteq> n \<and> fst (par t) < n \<Longrightarrow> pd_of n par v t"
    and "pd_of n par v t \<Longrightarrow> pd_of (Suc n) (par(n := x)) v t"
proof -
  show "pd_of n par v t \<Longrightarrow> pd_of (Suc n) (par(n := x)) v t" by (force simp: pd_of_def)
  assume "pd_of (Suc n) (par(n := x)) v t \<and> t \<noteq> n \<and> fst (par t) < n"
  then show "pd_of n par v t" by (auto simp: pd_of_def)
qed

lemma npt_tree_link:
  assumes tr: "npt_tree buf pb n L par" and q: "q < n" "i < 512" "1 < L q" "\<not> bit (ent buf q i) 0"
    and fits: "in_buffer buf' pb (Suc n)"
    and e: "\<And>t j. t \<le> n \<Longrightarrow> j < 512 \<Longrightarrow>
      ent buf' t j = (if t = q \<and> j = i then npt_ptr pb n else if t = n then 0 else ent buf t j)"
  shows "npt_tree buf' pb (Suc n) (L(n := L q - 1)) (par(n := (q, i)))"
    and "translate_npt buf' pb v = translate_npt buf pb v"
proof -
  note w = npt_treeD [OF tr]
  let ?L = "L(n := L q - 1)" and ?par = "par(n := (q, i))"
  have n: "0 < n" using w(1) by (simp add: in_buffer_def)
  have Lq: "L q \<le> 4" using w(2,3) q(1) by (cases "q = 0") (auto simp: less_imp_le)
  have par: "par t \<noteq> (q, i)" if "0 < t" "t < n" for t
    using w(4) [OF that] npt_ptr_fields(2) [OF w(1) that(2)] q(4) by auto
  have old: "fst (par t) < n \<and> snd (par t) < 512 \<and> L (fst (par t)) = Suc (L t) \<and> 0 < L t \<and> L t < 4 \<and>
      ent buf' (fst (par t)) (snd (par t)) = npt_ptr pb t" if "0 < t" "t < n" for t
    using w(3,4) [OF that] par [OF that] e [of "fst (par t)" "snd (par t)"] by (auto simp: prod_eq_iff)
  have links: "\<forall>t. 0 < t \<and> t < Suc n \<longrightarrow> fst (?par t) < Suc n \<and> snd (?par t) < 512 \<and> ?L (fst (?par t)) = Suc (?L t) \<and>
      0 < ?L t \<and> ?L t < 4 \<and> ent buf' (fst (?par t)) (snd (?par t)) = npt_ptr pb t"
  proof (intro allI impI)
    fix t assume t: "0 < t \<and> t < Suc n"
    show "fst (?par t) < Suc n \<and> snd (?par t) < 512 \<and> ?L (fst (?par t)) = Suc (?L t) \<and>
      0 < ?L t \<and> ?L t < 4 \<and> ent buf' (fst (?par t)) (snd (?par t)) = npt_ptr pb t"
    proof (cases "t = n")
      case True
      then show ?thesis using q e [of q i] Lq by auto
    next
      case False
      then show ?thesis using old [of t] t by auto
    qed
  qed
  have entries: "\<forall>a < Suc n. \<forall>j < 512. bit (ent buf' a j) 0 \<and> 1 < ?L a \<longrightarrow>
        (\<exists>t. 0 < t \<and> t < Suc n \<and> ?par t = (a, j)) \<or> ?L a = 2 \<and> bit (ent buf' a j) 7"
  proof (intro allI impI)
    fix a j assume a: "a < Suc n" "j < 512" "bit (ent buf' a j) 0 \<and> 1 < ?L a"
    show "(\<exists>t. 0 < t \<and> t < Suc n \<and> ?par t = (a, j)) \<or> ?L a = 2 \<and> bit (ent buf' a j) 7"
    proof (cases "a = q \<and> j = i")
      case True
      then have "?par n = (a, j)" by simp
      then show ?thesis using n by blast
    next
      case False
      then have "a < n" "ent buf' a j = ent buf a j" using a e [of a j] by (auto split: if_splits)
      with w(5) [of a j] a have "(\<exists>t. 0 < t \<and> t < n \<and> par t = (a, j)) \<or> L a = 2 \<and> bit (ent buf a j) 7" by simp
      then show ?thesis
      proof
        assume "\<exists>t. 0 < t \<and> t < n \<and> par t = (a, j)"
        then obtain t where "0 < t" "t < n" "par t = (a, j)" by blast
        then have "0 < t \<and> t < Suc n \<and> ?par t = (a, j)" by simp
        then show ?thesis by blast
      qed (use \<open>a < n\<close> \<open>ent buf' a j = ent buf a j\<close> in simp)
    qed
  qed
  show tr': "npt_tree buf' pb (Suc n) ?L ?par"
    unfolding npt_tree_def using fits links entries w(2) n by simp
  have fst_par: "fst (par t) < n" if "0 < t" "t < n" for t using w(3) [OF that] by simp
  have up: "pt_of (Suc n) ?par v t" if "pt_of n par v t" for t
    using that pd_of_mono(2) [OF tr] unfolding pt_of_def by (metis fun_upd_other less_Suc_eq less_irrefl)
  from tr show "translate_npt buf' pb v = translate_npt buf pb v"
  proof (cases rule: path_cases [where v = v])
    case no_pd
    have "translate_npt buf' pb v = None"
    proof (cases "\<exists>t. pd_of (Suc n) ?par v t")
      case True
      then obtain t where t: "pd_of (Suc n) ?par v t" by blast
      have "t = n"
      proof (rule ccontr)
        assume "t \<noteq> n"
        moreover from this t have "fst (par t) < n" by (intro fst_par) (auto simp: pd_of_def)
        ultimately have "pd_of n par v t" using pd_of_mono(1) [OF tr] t by blast
        with no_pd show False by blast
      qed
      then have "\<not> bit (ent buf' t (i2 v)) 0" using e [of n "i2 v"] q(1) index_less by simp
      then show ?thesis by (rule translate_pd(1) [OF tr' t])
    qed (rule translate_no_pd [OF tr'])
    with translate_no_pd [OF tr no_pd] show ?thesis by simp
  next
    case (absent t)
    note t' = pd_of_mono(2) [OF tr absent(1), of "(q, i)"]
    have tn: "t < n" by (rule pd_of_level(2) [OF tr absent(1)])
    have "translate_npt buf' pb v = None"
    proof (cases "t = q \<and> i2 v = i")
      case True
      then have "pt_of (Suc n) ?par v n" using t' n tn by (auto simp: pt_of_def)
      from translate_pt [OF tr' this] show ?thesis using e [of n "i1 v"] q(1) index_less by simp
    next
      case False
      then have "\<not> bit (ent buf' t (i2 v)) 0" using absent(2) e [of t "i2 v"] tn index_less by auto
      then show ?thesis by (rule translate_pd(1) [OF tr' t'])
    qed
    with translate_pd(1) [OF tr absent(1,2)] show ?thesis by simp
  next
    case (huge t)
    note t' = pd_of_mono(2) [OF tr huge(1), of "(q, i)"]
    have "t < n" by (rule pd_of_level(2) [OF tr huge(1)])
    then have "ent buf' t (i2 v) = ent buf t (i2 v)" using huge(2) q(4) e [of t "i2 v"] index_less by auto
    with translate_pd(2) [OF tr' t'] translate_pd(2) [OF tr huge(1)] huge(2,3) show ?thesis by simp
  next
    case (table t)
    have "t < n" "t \<noteq> q" using pt_of_level [OF tr table] q(3) by auto
    then have "ent buf' t (i1 v) = ent buf t (i1 v)" using e [of t "i1 v"] index_less by simp
    with translate_pt [OF tr' up [OF table]] translate_pt [OF tr table] show ?thesis by simp
  qed
qed

section \<open>Writing leaves\<close>

text \<open>Overwriting an entry that points to no table with a leaf keeps the tree.\<close>

lemma npt_tree_leaf:
  assumes tr: "npt_tree buf pb n L par" and q: "q < n" "i < 512" "L q = 2 \<and> bit e 0 \<and> bit e 7 \<or> L q = 1"
    and no: "\<not> (\<exists>t. 0 < t \<and> t < n \<and> par t = (q, i))"
    and fits: "in_buffer buf' pb n"
    and e: "\<And>t j. t < n \<Longrightarrow> j < 512 \<Longrightarrow> ent buf' t j = (if t = q \<and> j = i then e else ent buf t j)"
  shows "npt_tree buf' pb n L par"
  unfolding npt_tree_def
proof (intro conjI allI impI)
  note w = npt_treeD [OF tr]
  show "in_buffer buf' pb n" "L 0 = 4" by (rule fits, rule w(2))
  fix t assume t: "0 < t \<and> t < n"
  show "fst (par t) < n" "snd (par t) < 512" "L (fst (par t)) = Suc (L t)" "0 < L t" "L t < 4" using w(3) [of t] t by auto
  have "par t \<noteq> (q, i)" using no t by blast
  then show "ent buf' (fst (par t)) (snd (par t)) = npt_ptr pb t"
    using w(3,4) [of t] t e [of "fst (par t)" "snd (par t)"] by (auto simp: prod_eq_iff)
next
  note w = npt_treeD [OF tr]
  fix a j assume a: "a < n" "j < 512" "bit (ent buf' a j) 0 \<and> 1 < L a"
  then show "(\<exists>t. 0 < t \<and> t < n \<and> par t = (a, j)) \<or> L a = 2 \<and> bit (ent buf' a j) 7"
    using q(3) w(5) [of a j] e [of a j] by (cases "a = q \<and> j = i") auto
qed

lemma translate_huge_leaf:
  assumes tr: "npt_tree buf pb n L par" and q: "q < n" "i < 512" "L q = 2" "bit e 0" "bit e 7"
    and no: "\<not> (\<exists>t. 0 < t \<and> t < n \<and> par t = (q, i))"
    and fits: "in_buffer buf' pb n"
    and e: "\<And>t j. t < n \<Longrightarrow> j < 512 \<Longrightarrow> ent buf' t j = (if t = q \<and> j = i then e else ent buf t j)"
  shows "translate_npt buf' pb v =
    (if pd_of n par v q \<and> i2 v = i then Some (huge_target e v) else translate_npt buf pb v)"
proof -
  have tr': "npt_tree buf' pb n L par" by (rule npt_tree_leaf [OF tr q(1,2) _ no fits e]) (use q in auto)
  show ?thesis
  proof (cases "pd_of n par v q \<and> i2 v = i")
    case True
    then have "ent buf' q (i2 v) = e" using e [OF q(1) index_less, of 21 v] by simp
    with translate_pd(2) [OF tr', of v q] True q(4,5) show ?thesis by simp
  next
    case False
    from tr have "translate_npt buf' pb v = translate_npt buf pb v"
    proof (cases rule: path_cases [where v = v])
      case no_pd
      then show ?thesis using translate_no_pd [OF tr] translate_no_pd [OF tr'] by simp
    next
      case (absent t)
      then have "t < n" "ent buf' t (i2 v) = ent buf t (i2 v)"
        using pd_of_level(2) [OF tr absent(1)] e [OF _ index_less, of t 21 v] False by auto
      with absent translate_pd(1) [OF tr' absent(1)] translate_pd(1) [OF tr absent(1)] show ?thesis by simp
    next
      case (huge t)
      then have "t < n" "ent buf' t (i2 v) = ent buf t (i2 v)"
        using pd_of_level(2) [OF tr huge(1)] e [OF _ index_less, of t 21 v] False by auto
      with huge translate_pd(2) [OF tr' huge(1)] translate_pd(2) [OF tr huge(1)] show ?thesis by simp
    next
      case (table t)
      then have "ent buf' t (i1 v) = ent buf t (i1 v)"
        using pt_of_level [OF tr table] q(3) e [OF _ index_less, of t 12 v] by auto
      with translate_pt [OF tr' table] translate_pt [OF tr table] show ?thesis by simp
    qed
    with False show ?thesis by auto
  qed
qed

lemma translate_small_leaf:
  assumes tr: "npt_tree buf pb n L par" and q: "q < n" "i < 512" "L q = 1"
    and fits: "in_buffer buf' pb n"
    and e: "\<And>t j. t < n \<Longrightarrow> j < 512 \<Longrightarrow> ent buf' t j = (if t = q \<and> j = i then e else ent buf t j)"
  shows "npt_tree buf' pb n L par" and "translate_npt buf' pb v =
    (if pt_of n par v q \<and> i1 v = i then if bit e 0 then Some (small_target e v) else None else translate_npt buf pb v)"
proof -
  have "\<not> (\<exists>t. 0 < t \<and> t < n \<and> par t = (q, i))"
  proof
    assume "\<exists>t. 0 < t \<and> t < n \<and> par t = (q, i)"
    then obtain t where "0 < t" "t < n" "par t = (q, i)" by blast
    with npt_treeD(3) [OF tr, of t] q(3) show False by auto
  qed
  then show tr': "npt_tree buf' pb n L par" by (intro npt_tree_leaf [OF tr q(1,2) _ _ fits e]) (use q in auto)
  show "translate_npt buf' pb v =
    (if pt_of n par v q \<and> i1 v = i then if bit e 0 then Some (small_target e v) else None else translate_npt buf pb v)"
  proof (cases "pt_of n par v q \<and> i1 v = i")
    case True
    then have "ent buf' q (i1 v) = e" using e [OF q(1) index_less, of 12 v] by simp
    with translate_pt [OF tr', of v q] True show ?thesis by simp
  next
    case False
    from tr have "translate_npt buf' pb v = translate_npt buf pb v"
    proof (cases rule: path_cases [where v = v])
      case no_pd
      then show ?thesis using translate_no_pd [OF tr] translate_no_pd [OF tr'] by simp
    next
      case (absent t)
      then have "ent buf' t (i2 v) = ent buf t (i2 v)"
        using pd_of_level [OF tr absent(1)] e [OF _ index_less, of t 21 v] q(3) by auto
      with absent translate_pd(1) [OF tr' absent(1)] translate_pd(1) [OF tr absent(1)] show ?thesis by simp
    next
      case (huge t)
      then have "ent buf' t (i2 v) = ent buf t (i2 v)"
        using pd_of_level [OF tr huge(1)] e [OF _ index_less, of t 21 v] q(3) by auto
      with huge translate_pd(2) [OF tr' huge(1)] translate_pd(2) [OF tr huge(1)] show ?thesis by simp
    next
      case (table t)
      then have "ent buf' t (i1 v) = ent buf t (i1 v)"
        using pt_of_level [OF tr table] e [OF _ index_less, of t 12 v] False by auto
      with translate_pt [OF tr' table] translate_pt [OF tr table] show ?thesis by simp
    qed
    with False show ?thesis by auto
  qed
qed

section \<open>The operations of the mapper\<close>

abbreviation nm_tree :: "NptMapper \<Rightarrow> (nat \<Rightarrow> nat) \<Rightarrow> (nat \<Rightarrow> nat \<times> nat) \<Rightarrow> bool" where
  "nm_tree m \<equiv> npt_tree (nm_buf m) (nm_phys_base m) (nm_tables_used m)"

abbreviation nm_trans :: "NptMapper \<Rightarrow> u64 \<Rightarrow> u64 option" where
  "nm_trans m \<equiv> translate_npt (nm_buf m) (nm_phys_base m)"

text \<open>A mapper that has more tables and translates as before.\<close>

definition grown ::
  "NptMapper \<Rightarrow> (nat \<Rightarrow> nat) \<Rightarrow> (nat \<Rightarrow> nat \<times> nat) \<Rightarrow> NptMapper \<Rightarrow> (nat \<Rightarrow> nat) \<Rightarrow> (nat \<Rightarrow> nat \<times> nat) \<Rightarrow> bool" where
  "grown m L par m' L' par' \<longleftrightarrow> nm_tree m' L' par' \<and> nm_tables_used m \<le> nm_tables_used m' \<and>
     nm_phys_base m' = nm_phys_base m \<and> length (nm_buf m') = length (nm_buf m) \<and>
     (\<forall>t < nm_tables_used m. L' t = L t \<and> par' t = par t) \<and> (\<forall>v. nm_trans m' v = nm_trans m v)"

lemma grown_refl: "nm_tree m L par \<Longrightarrow> grown m L par m L par"
  by (simp add: grown_def)

lemma grown_tree: "grown m L par m' L' par' \<Longrightarrow> nm_tree m' L' par'"
  unfolding grown_def by blast

lemma grown_trans: "grown m L par m1 L1 par1 \<Longrightarrow> grown m1 L1 par1 m2 L2 par2 \<Longrightarrow> grown m L par m2 L2 par2"
  by (auto simp: grown_def)

lemma ent_fill_zero:
  assumes "4096 * Suc n \<le> length buf" "j < 512"
  shows "ent (fill_zero (n * 4096) (n * 4096 + 4096) buf) t j = (if t = n then 0 else ent buf t j)"
proof -
  have eq: "n * 4096 = 8 * (512 * n)" "n * 4096 + 4096 = 8 * (512 * n + 512)" by simp_all
  show ?thesis
  proof (cases "t = n")
    case True
    have "slot (512 * n + j) (fill_zero (8 * (512 * n)) (8 * (512 * n + 512)) buf) = 0"
      using assms by (intro slot_fill_zero) simp_all
    with True show ?thesis unfolding ent_def by (simp add: distrib_left mult.commute)
  next
    case False
    then have "8 * (512 * t + j) + 8 \<le> n * 4096 \<or> n * 4096 + 4096 \<le> 8 * (512 * t + j)" using assms(2) by auto
    with False show ?thesis
      using assms(1) field_at_other [of "n * 4096" "replicate 4096 0" buf "8 * (512 * t + j)" 8]
      by (simp add: ent_def slot_def fill_zero_def)
  qed
qed

lemma length_fill_zero: "a \<le> b \<Longrightarrow> b \<le> length buf \<Longrightarrow> length (fill_zero a b buf) = length buf"
  by (simp add: fill_zero_def)

text \<open>
  What a walk costs and why it fails: at most \<open>k\<close> new tables, and an error only when the buffer has no room for them or
  the address is mapped.
\<close>

definition progress :: "nat \<Rightarrow> u64 \<Rightarrow> NptMapper \<Rightarrow> NptError + 'a \<Rightarrow> NptMapper \<Rightarrow> bool" where
  "progress k gpa m r m' \<longleftrightarrow> nm_tables_used m' \<le> nm_tables_used m + k \<and>
     (\<forall>e. r = Inl e \<longrightarrow> length (nm_buf m) < 4096 * (nm_tables_used m + k) \<or> e = RangeOverlap gpa \<and> nm_trans m gpa \<noteq> None)"

lemma progress_Inr: "progress k gpa m (Inr a) m' \<longleftrightarrow> nm_tables_used m' \<le> nm_tables_used m + k"
  by (simp add: progress_def)

lemma progress_fail: "progress k gpa m (Inl e :: NptError + 'a) m' \<Longrightarrow> progress (k + k') gpa m (Inl e :: NptError + 'b) m'"
  by (auto simp: progress_def)

lemma progress_trans:
  assumes "progress k gpa m r1 m1" "progress k' gpa m1 r m'" "grown m L par m1 L1 par1"
  shows "progress (k + k') gpa m r m'"
  using assms by (fastforce simp: progress_def grown_def)

lemma link_new_table_progress:
  assumes tr: "nm_tree m L par" and r: "link_new_table off i m = (r, m')"
  shows "progress 1 gpa m r m'"
proof -
  have "length (nm_buf m) \<le> 2 ^ 52" using npt_treeD(1) [OF tr] by (simp add: in_buffer_def)
  then show ?thesis using r
    by (auto simp: progress_def link_new_table_def nm_bind_def alloc_table_def Let_def NPT_PAGE_SIZE_USIZE_def split: if_splits)
qed

lemma link_new_table_spec:
  assumes tr: "nm_tree m L par" and q: "q < nm_tables_used m" "i < 512" "1 < L q" "\<not> bit (ent (nm_buf m) q i) 0"
    and r: "link_new_table (4096 * q) i m = (r, m')"
  shows "\<exists>L' par'. grown m L par m' L' par' \<and>
    (\<forall>off. r = Inr off \<longrightarrow> (\<exists>t. off = 4096 * t \<and> 0 < t \<and> t < nm_tables_used m' \<and> par' t = (q, i)))"
proof -
  let ?n = "nm_tables_used m" and ?buf = "nm_buf m" and ?pb = "nm_phys_base m"
  note w = npt_treeD [OF tr]
  show ?thesis
  proof (cases "4096 * Suc ?n \<le> length ?buf")
    case False
    then have "fst (alloc_table m) \<noteq> Inr x \<and> snd (alloc_table m) = m" for x
      by (auto simp: alloc_table_def Let_def NPT_PAGE_SIZE_USIZE_def)
    then have "m' = m \<and> (\<forall>off. r \<noteq> Inr off)" using r
      by (auto simp: link_new_table_def nm_bind_def split: prod.splits sum.splits)
    then show ?thesis using grown_refl [OF tr] by blast
  next
    case True
    define b1 where "b1 = fill_zero (?n * 4096) (?n * 4096 + 4096) ?buf"
    define b2 where "b2 = npt_write_entry (4096 * q + i * 8) (npt_ptr ?pb ?n) b1"
    have l1: "length b1 = length ?buf" unfolding b1_def using True by (intro length_fill_zero) simp_all
    have qf: "4096 * Suc q \<le> length b1" using True q(1) l1 by simp
    then have l2: "length b2 = length ?buf" using q(2) l1 by (simp add: b2_def)
    have "length ?buf \<le> 2 ^ 52" using w(1) by (simp add: in_buffer_def)
    then have a: "alloc_table m = (Inr (?pb + of_nat (?n * 4096), ?n * 4096), m\<lparr>nm_buf := b1, nm_tables_used := ?n + 1\<rparr>)"
      using True by (simp add: alloc_table_def Let_def NPT_PAGE_SIZE_USIZE_def b1_def)
    have rm: "r = Inr (4096 * ?n)" "nm_buf m' = b2" "nm_tables_used m' = Suc ?n" "nm_phys_base m' = ?pb"
      using r by (auto simp: link_new_table_def nm_bind_def a b2_def npt_ptr_def mult.commute)
    have fits: "in_buffer b2 ?pb (Suc ?n)" using w(1) True l2 by (simp add: in_buffer_def)
    have e: "ent b2 t j = (if t = q \<and> j = i then npt_ptr ?pb ?n else if t = ?n then 0 else ent ?buf t j)" if "j < 512" for t j
      unfolding b2_def write_ent [OF qf q(2) that] unfolding b1_def ent_fill_zero [OF True that] by (rule refl)
    note t = npt_tree_link [OF tr q fits e]
    have "0 < ?n" using w(1) by (simp add: in_buffer_def)
    then show ?thesis using t q(1) l2
      by (intro exI [of _ "L(?n := L q - 1)"] exI [of _ "par(?n := (q, i))"]) (auto simp: grown_def rm)
  qed
qed

lemma nm_read:
  assumes "nm_tree m L par" "t < nm_tables_used m" "i < 512"
  shows "npt_read_entry (nm_buf m) (4096 * t + i * 8) = Inr (ent (nm_buf m) t i)"
  by (rule read_ent [OF tree_table_fits [OF assms(1,2)] assms(3)])

lemma child_table_off_spec:
  assumes tr: "nm_tree m L par" and q: "q < nm_tables_used m" "i < 512" "2 < L q"
    and r: "child_table_off (4096 * q) i m = (r, m')"
  shows "\<exists>L' par'. grown m L par m' L' par' \<and> progress 1 gpa m r m' \<and>
    (\<forall>off. r = Inr off \<longrightarrow> (\<exists>t. off = 4096 * t \<and> 0 < t \<and> t < nm_tables_used m' \<and> par' t = (q, i)))"
proof (cases "bit (ent (nm_buf m) q i) 0")
  case True
  with npt_treeD(5) [OF tr q(1,2)] q(3) obtain t where t: "0 < t" "t < nm_tables_used m" "par t = (q, i)" by auto
  have "ent (nm_buf m) q i = npt_ptr (nm_phys_base m) t" using npt_treeD(4) [OF tr t(1,2)] t(3) by simp
  then have "r = Inr (4096 * t)" "m' = m"
    using r True npt_ptr_fields(4) [OF npt_treeD(1) [OF tr] t(2)]
    by (simp_all add: child_table_off_def nm_read [OF tr q(1,2)] flag_tests)
  then show ?thesis using t grown_refl [OF tr] by (auto simp: progress_Inr)
next
  case False
  then have "link_new_table (4096 * q) i m = (r, m')"
    using r by (simp add: child_table_off_def nm_read [OF tr q(1,2)] flag_tests)
  from link_new_table_spec [OF tr q(1,2) _ False this] link_new_table_progress [OF tr this] q(3) show ?thesis by simp
qed

lemma pd_off_for_spec:
  assumes tr: "nm_tree m L par" and r: "pd_off_for gpa m = (r, m')"
  shows "\<exists>L' par'. grown m L par m' L' par' \<and> progress 2 gpa m r m' \<and>
    (\<forall>off. r = Inr off \<longrightarrow> (\<exists>t. off = 4096 * t \<and> pd_of (nm_tables_used m') par' gpa t))"
proof -
  have 0: "0 < nm_tables_used m" "2 < L 0" using npt_treeD(1,2) [OF tr] by (simp_all add: in_buffer_def)
  obtain r1 m1 where 1: "child_table_off 0 (i4 gpa) m = (r1, m1)" by (cases "child_table_off 0 (i4 gpa) m")
  from child_table_off_spec [OF tr 0(1) index_less 0(2), where gpa = gpa] 1 obtain L1 par1 where g1: "grown m L par m1 L1 par1"
    "\<And>off. r1 = Inr off \<Longrightarrow> \<exists>t. off = 4096 * t \<and> 0 < t \<and> t < nm_tables_used m1 \<and> par1 t = (0, i4 gpa)"
    and p1: "progress 1 gpa m r1 m1" by force
  show ?thesis
  proof (cases r1)
    case (Inl e)
    then have "r = Inl e" "m' = m1" using r by (simp_all add: pd_off_for_def nm_bind_def 1)
    then show ?thesis using g1(1) progress_fail [where k' = 1] p1 Inl by (auto simp: numeral_2_eq_2)
  next
    case (Inr off)
    with g1(2) obtain t3 where t3: "off = 4096 * t3" "0 < t3" "t3 < nm_tables_used m1" "par1 t3 = (0, i4 gpa)" by blast
    have tr1: "nm_tree m1 L1 par1" by (rule grown_tree [OF g1(1)])
    have "2 < L1 t3" using pdpt_level [OF tr1 t3(2-4)] by simp
    from child_table_off_spec [OF tr1 t3(3) index_less this, where gpa = gpa] r Inr t3(1) obtain L2 par2 where
      g2: "grown m1 L1 par1 m' L2 par2" and p2: "progress 1 gpa m1 r m'" and g2':
      "\<And>off. r = Inr off \<Longrightarrow> \<exists>t. off = 4096 * t \<and> 0 < t \<and> t < nm_tables_used m' \<and> par2 t = (t3, i3 gpa)"
      by (force simp: pd_off_for_def nm_bind_def 1)
    have "par2 t3 = (0, i4 gpa)" "t3 < nm_tables_used m'" using g2 t3(3,4) by (simp_all add: grown_def)
    moreover have "progress 2 gpa m r m'" using progress_trans [OF p1 p2 g1(1)] by (simp add: numeral_2_eq_2)
    ultimately show ?thesis using grown_trans [OF g1(1) g2] g2' t3(2) unfolding pd_of_def by blast
  qed
qed

lemma nm_pd_child:
  assumes tr: "nm_tree m L par" and t: "pd_of (nm_tables_used m) par gpa t"
  shows "pd_child (4096 * t) (i2 gpa) m =
    (if \<not> bit (ent (nm_buf m) t (i2 gpa)) 0 then Inr Absent
     else if bit (ent (nm_buf m) t (i2 gpa)) 7 then Inr HugeLeaf
     else Inr (Table (4096 * (THE t1. pt_of (nm_tables_used m) par gpa t1))))"
    and "bit (ent (nm_buf m) t (i2 gpa)) 0 \<Longrightarrow> \<not> bit (ent (nm_buf m) t (i2 gpa)) 7 \<Longrightarrow>
      \<exists>t1. pt_of (nm_tables_used m) par gpa t1"
proof -
  note l = pd_of_level [OF tr t]
  show ex: "\<exists>t1. pt_of (nm_tables_used m) par gpa t1"
    if "bit (ent (nm_buf m) t (i2 gpa)) 0" "\<not> bit (ent (nm_buf m) t (i2 gpa)) 7"
    using npt_treeD(5) [OF tr l(2) index_less that(1)] l(1) that(2) t unfolding pt_of_def by auto
  show "pd_child (4096 * t) (i2 gpa) m =
    (if \<not> bit (ent (nm_buf m) t (i2 gpa)) 0 then Inr Absent
     else if bit (ent (nm_buf m) t (i2 gpa)) 7 then Inr HugeLeaf
     else Inr (Table (4096 * (THE t1. pt_of (nm_tables_used m) par gpa t1))))"
  proof (cases "bit (ent (nm_buf m) t (i2 gpa)) 0 \<and> \<not> bit (ent (nm_buf m) t (i2 gpa)) 7")
    case True
    with ex obtain t1 where t1: "pt_of (nm_tables_used m) par gpa t1" by blast
    then have the: "(THE t1. pt_of (nm_tables_used m) par gpa t1) = t1" using pt_of_unique [OF tr] by blast
    from t1 obtain t2 where t2: "pd_of (nm_tables_used m) par gpa t2" "0 < t1" "t1 < nm_tables_used m" "par t1 = (t2, i2 gpa)"
      by (auto simp: pt_of_def)
    have "t2 = t" by (rule pd_of_unique [OF tr t2(1) t])
    then have "ent (nm_buf m) t (i2 gpa) = npt_ptr (nm_phys_base m) t1"
      using npt_treeD(4) [OF tr t2(2,3)] t2(4) by simp
    with True npt_ptr_fields(4) [OF npt_treeD(1) [OF tr] t2(3)] show ?thesis
      by (simp add: pd_child_def nm_read [OF tr l(2) index_less] flag_tests the)
  next
    case False
    then show ?thesis by (auto simp: pd_child_def nm_read [OF tr l(2) index_less] flag_tests)
  qed
qed

lemma pt_off_for_spec:
  assumes tr: "nm_tree m L par" and r: "pt_off_for gpa m = (r, m')"
  shows "\<exists>L' par'. grown m L par m' L' par' \<and> progress 3 gpa m r m' \<and>
    (\<forall>off. r = Inr off \<longrightarrow> (\<exists>t. off = 4096 * t \<and> pt_of (nm_tables_used m') par' gpa t))"
proof -
  obtain r1 m1 where 1: "pd_off_for gpa m = (r1, m1)" by (cases "pd_off_for gpa m")
  from pd_off_for_spec [OF tr 1] obtain L1 par1 where g1: "grown m L par m1 L1 par1"
    "\<And>off. r1 = Inr off \<Longrightarrow> \<exists>t. off = 4096 * t \<and> pd_of (nm_tables_used m1) par1 gpa t"
    and p1: "progress 2 gpa m r1 m1" by blast
  have p3: "progress 3 gpa m r m'" if "progress 1 gpa m1 r m'" using progress_trans [OF p1 that g1(1)] by (simp add: numeral_3_eq_3 numeral_2_eq_2)
  show ?thesis
  proof (cases r1)
    case (Inl e)
    then have "r = Inl e" "m' = m1" using r by (simp_all add: pt_off_for_def nm_bind_def 1)
    then show ?thesis using g1(1) progress_fail [where k' = 1] p1 Inl by (auto simp: numeral_3_eq_3 numeral_2_eq_2)
  next
    case (Inr off)
    with g1(2) obtain t where t: "off = 4096 * t" "pd_of (nm_tables_used m1) par1 gpa t" by blast
    have tr1: "nm_tree m1 L1 par1" by (rule grown_tree [OF g1(1)])
    note l = pd_of_level [OF tr1 t(2)]
    note c = nm_pd_child [OF tr1 t(2)]
    let ?e = "ent (nm_buf m1) t (i2 gpa)"
    consider "\<not> bit ?e 0" | "bit ?e 0" "bit ?e 7" | "bit ?e 0" "\<not> bit ?e 7" by blast
    then show ?thesis
    proof cases
      case 1
      then have lk: "link_new_table (4096 * t) (i2 gpa) m1 = (r, m')"
        using r Inr t(1) \<open>pd_off_for gpa m = (r1, m1)\<close> by (simp add: pt_off_for_def nm_bind_def c(1))
      note p3 = p3 [OF link_new_table_progress [OF tr1 lk]]
      from link_new_table_spec [OF tr1 l(2) index_less _ 1 lk] l(1) obtain L2 par2 where
        g2: "grown m1 L1 par1 m' L2 par2"
        "\<And>off. r = Inr off \<Longrightarrow> \<exists>t1. off = 4096 * t1 \<and> 0 < t1 \<and> t1 < nm_tables_used m' \<and> par2 t1 = (t, i2 gpa)" by auto
      have "pd_of (nm_tables_used m') par2 gpa t" using t(2) g2(1) by (force simp: pd_of_def grown_def)
      then show ?thesis using grown_trans [OF g1(1) g2(1)] g2(2) p3 unfolding pt_of_def by blast
    next
      case 2
      then have m': "m' = m1" "r = Inl (RangeOverlap gpa)"
        using r Inr t(1) 1 by (auto simp: pt_off_for_def nm_bind_def c(1))
      have "nm_trans m1 gpa \<noteq> None" using translate_pd(2) [OF tr1 t(2)] 2 by simp
      then have "progress 1 gpa m1 r m'" by (simp add: progress_def m')
      from p3 [OF this] show ?thesis using m' g1(1) by blast
    next
      case 3
      from c(2) [OF 3] obtain t1 where t1: "pt_of (nm_tables_used m1) par1 gpa t1" by blast
      then have "(THE t1. pt_of (nm_tables_used m1) par1 gpa t1) = t1" using pt_of_unique [OF tr1] by blast
      with 3 have "m' = m1" "r = Inr (4096 * t1)"
        using r Inr t(1) 1 by (auto simp: pt_off_for_def nm_bind_def c(1))
      then show ?thesis using g1(1) t1 p3 by (auto simp: progress_Inr)
    qed
  qed
qed

section \<open>Frames\<close>

definition same_frame :: "nat \<Rightarrow> u64 \<Rightarrow> u64 \<Rightarrow> bool" where
  "same_frame k v g \<longleftrightarrow> unat v div 2 ^ k = unat g div 2 ^ k"

lemma index_defs:
  "i4 v = pml4_index v" "i3 v = pdpt_index v" "i2 v = pd_index v" "i1 v = pt_index v"
  by (simp_all add: pml4_index_def pdpt_index_def pd_index_def pt_index_def)

lemma same_frame_21:
  assumes "unat v < 2 ^ 48" "unat g < 2 ^ 48"
  shows "same_frame 21 v g \<longleftrightarrow> i4 v = i4 g \<and> i3 v = i3 g \<and> i2 v = i2 g"
proof
  note sv = index_split [OF assms(1)] and sg = index_split [OF assms(2)]
  {
    assume "same_frame 21 v g"
    then have 21: "unat v div 2 ^ 21 = unat g div 2 ^ 21" by (simp only: same_frame_def)
    have d: "n div 2 ^ 39 = n div 2 ^ 21 div 2 ^ 18" "n div 2 ^ 30 = n div 2 ^ 21 div 2 ^ 9" for n :: nat
      by (simp_all flip: div_mult2_eq)
    show "i4 v = i4 g \<and> i3 v = i3 g \<and> i2 v = i2 g" unfolding index_defs indices d by (simp only: 21)
  next
    assume i: "i4 v = i4 g \<and> i3 v = i3 g \<and> i2 v = i2 g"
    have "unat v div 2 ^ 39 = unat g div 2 ^ 39" using i sv(1) sg(1) by (simp only: index_defs)
    then have "unat v div 2 ^ 30 = unat g div 2 ^ 30" using i sv(2) sg(2) by (simp only: index_defs)
    then show "same_frame 21 v g" using i sv(3) sg(3) by (simp only: index_defs same_frame_def)
  }
qed

lemma same_frame_12:
  assumes "unat v < 2 ^ 48" "unat g < 2 ^ 48"
  shows "same_frame 12 v g \<longleftrightarrow> same_frame 21 v g \<and> i1 v = i1 g"
proof
  note sv = index_split [OF assms(1)] and sg = index_split [OF assms(2)]
  {
    assume "same_frame 12 v g"
    then have 12: "unat v div 2 ^ 12 = unat g div 2 ^ 12" by (simp only: same_frame_def)
    have d: "n div 2 ^ 21 = n div 2 ^ 12 div 2 ^ 9" for n :: nat by (simp flip: div_mult2_eq)
    show "same_frame 21 v g \<and> i1 v = i1 g" unfolding same_frame_def index_defs indices d by (simp only: 12)
  next
    assume i: "same_frame 21 v g \<and> i1 v = i1 g"
    then show "same_frame 12 v g" using sv(4) sg(4) by (simp only: index_defs same_frame_def)
  }
qed

lemma pd_of_frame:
  assumes "pd_of n par g q"
  shows "pd_of n par v q \<longleftrightarrow> i4 v = i4 g \<and> i3 v = i3 g"
proof
  assume "pd_of n par v q"
  then obtain s where s: "par s = (0, i4 v)" "par q = (s, i3 v)" unfolding pd_of_def by blast
  obtain s' where s': "par s' = (0, i4 g)" "par q = (s', i3 g)" using assms unfolding pd_of_def by blast
  have "s = s'" "i3 v = i3 g" using s(2) s'(2) by (simp_all only: prod.inject)
  with s(1) s'(1) show "i4 v = i4 g \<and> i3 v = i3 g" by (simp only: prod.inject)
next
  assume "i4 v = i4 g \<and> i3 v = i3 g"
  with assms show "pd_of n par v q" by (simp only: pd_of_def)
qed

lemma pt_of_frame:
  assumes "npt_tree buf pb n L par" "pt_of n par g q" "unat v < 2 ^ 48" "unat g < 2 ^ 48"
  shows "pt_of n par v q \<longleftrightarrow> same_frame 21 v g"
proof -
  from assms(2) obtain t where t: "pd_of n par g t" "0 < q" "q < n" "par q = (t, i2 g)" by (auto simp: pt_of_def)
  have "pt_of n par v q \<longleftrightarrow> pd_of n par v t \<and> i2 v = i2 g" using t(2-4) by (auto simp: pt_of_def)
  then show ?thesis using pd_of_frame [OF t(1)] same_frame_21 [OF assms(3,4)] by blast
qed

text \<open>The target of a leaf, as the base of its frame plus the offset in the frame.\<close>

lemma frame_offset:
  assumes "2 ^ k dvd unat g" "same_frame k v g"
  shows "take_bit k v = v - g"
proof -
  have "push_bit k (drop_bit k v) = push_bit k (drop_bit k g)"
    using assms(2) frame_base(1) [where n = k] by (metis same_frame_def)
  also have "\<dots> = g"
  proof -
    have "take_bit k g = 0"
      by (rule bit_word_eqI) (use aligned_bits [OF assms(1)] in \<open>auto simp: bit_take_bit_iff\<close>)
    then show ?thesis using frame_base(3) [of k g] by simp
  qed
  finally have "push_bit k (drop_bit k v) = g" .
  moreover have "v = push_bit k (drop_bit k v) + take_bit k v"
    by (simp add: bits_ident)
  ultimately show ?thesis by (metis add_diff_cancel_left')
qed

lemma leaf_target:
  assumes "2 ^ k dvd unat spa" "unat spa < 2 ^ 52" "12 \<le> k" "fl AND ADDR_MASK = 0" "2 ^ k dvd unat g" "same_frame k v g"
  shows "(((spa AND ADDR_MASK) OR fl) AND ADDR_MASK) OR take_bit k v = spa + (v - g)"
proof -
  have "2 ^ 12 dvd unat spa" by (rule dvd_trans [OF le_imp_power_dvd [OF assms(3)] assms(1)])
  from entry_fields(1) [OF this assms(2)] assms(4)
  have "((spa AND ADDR_MASK) OR fl) AND ADDR_MASK = spa" by (simp add: ADDR_MASK_eq)
  moreover have "spa + take_bit k v = spa OR take_bit k v"
    by (rule disjunctive_add) (use aligned_bits [OF assms(1)] in \<open>auto simp: bit_take_bit_iff\<close>)
  ultimately show ?thesis using frame_offset [OF assms(5,6)] by simp
qed

lemma leaf_flags:
  "table_flags AND ADDR_MASK = 0" "huge_flags AND ADDR_MASK = 0"
  "bit ((x AND ADDR_MASK) OR table_flags) 0" "bit ((x AND ADDR_MASK) OR huge_flags) 0"
  "bit ((x AND ADDR_MASK) OR huge_flags) 7"
  by (simp_all add: NPT_PRESENT_def NPT_WRITABLE_def NPT_USER_def NPT_HUGE_PAGE_def ADDR_MASK_def bitmask_def bit_or_iff)

lemma offset_masks: "v AND (NPT_HUGE_2MIB - 1) = take_bit 21 v" "v AND (NPT_PAGE_SIZE - 1) = take_bit 12 v"
  by (simp_all add: NPT_HUGE_2MIB_def NPT_PAGE_SIZE_def and_offset)

definition nm_wf :: "NptMapper \<Rightarrow> bool" where
  "nm_wf m \<longleftrightarrow> (\<exists>L par. nm_tree m L par)"

text \<open>The frame of \<open>gpa\<close> was not mapped and now has the target; all other addresses translate as before.\<close>

definition frame_mapped :: "nat \<Rightarrow> u64 \<Rightarrow> u64 option \<Rightarrow> NptMapper \<Rightarrow> NptMapper \<Rightarrow> bool" where
  "frame_mapped k gpa target m m' \<longleftrightarrow>
     (\<forall>v. unat v < 2 ^ 48 \<longrightarrow> (same_frame k v gpa \<longrightarrow> nm_trans m v = None) \<and>
        nm_trans m' v = (if same_frame k v gpa then map_option (\<lambda>s. s + (v - gpa)) target else nm_trans m v))"

definition step_ok :: "nat \<Rightarrow> u64 \<Rightarrow> u64 option \<Rightarrow> NptMapper \<Rightarrow> NptError + unit \<Rightarrow> NptMapper \<Rightarrow> bool" where
  "step_ok k gpa target m r m' \<longleftrightarrow> nm_wf m' \<and> nm_phys_base m' = nm_phys_base m \<and> length (nm_buf m') = length (nm_buf m) \<and>
     (case r of Inl _ \<Rightarrow> \<forall>v. nm_trans m' v = nm_trans m v | Inr _ \<Rightarrow> frame_mapped k gpa target m m')"

lemma step_ok_error: "grown m L par m' L' par' \<Longrightarrow> step_ok k gpa target m (Inl e) m'"
  unfolding step_ok_def nm_wf_def grown_def sum.case by blast

lemma step_ok_mapped:
  assumes "grown m L par m1 L1 par1" "nm_wf m'" "nm_phys_base m' = nm_phys_base m1" "length (nm_buf m') = length (nm_buf m1)"
    "frame_mapped k gpa target m m'"
  shows "step_ok k gpa target m (Inr ()) m'"
  using assms by (simp add: step_ok_def grown_def)

lemma in_buffer_same: "in_buffer buf pb n \<Longrightarrow> length buf' = length buf \<Longrightarrow> in_buffer buf' pb n"
  by (simp add: in_buffer_def)

lemma map_huge_leaf_spec:
  assumes tr: "nm_wf m" and r: "map_huge_leaf gpa spa m = (r, m')"
    and g: "2 ^ 21 dvd unat gpa" "unat gpa < 2 ^ 48" and sp: "2 ^ 21 dvd unat spa" "unat spa < 2 ^ 52"
  shows "step_ok 21 gpa (Some spa) m r m'"
proof -
  obtain L par where t0: "nm_tree m L par" using tr by (auto simp: nm_wf_def)
  obtain r1 m1 where 1: "pd_off_for gpa m = (r1, m1)" by (cases "pd_off_for gpa m")
  from pd_off_for_spec [OF t0 1] obtain L1 par1 where g1: "grown m L par m1 L1 par1"
    "\<And>off. r1 = Inr off \<Longrightarrow> \<exists>t. off = 4096 * t \<and> pd_of (nm_tables_used m1) par1 gpa t" by blast
  show ?thesis
  proof (cases r1)
    case (Inl e)
    then have "r = Inl e" "m' = m1" using r by (simp_all add: map_huge_leaf_def nm_bind_def 1)
    then show ?thesis using step_ok_error [OF g1(1)] by simp
  next
    case (Inr off)
    with g1(2) obtain q where q: "off = 4096 * q" "pd_of (nm_tables_used m1) par1 gpa q" by blast
    have tr1: "nm_tree m1 L1 par1" by (rule grown_tree [OF g1(1)])
    note l = pd_of_level [OF tr1 q(2)] and c = nm_pd_child(1) [OF tr1 q(2)]
    let ?e = "ent (nm_buf m1) q (i2 gpa)" and ?n = "nm_tables_used m1"
    show ?thesis
    proof (cases "bit ?e 0")
      case True
      then have "\<exists>e. r = Inl e" "m' = m1"
        using r Inr q(1) 1 by (auto simp: map_huge_leaf_def nm_bind_def c split: if_splits)
      then show ?thesis using step_ok_error [OF g1(1)] by auto
    next
      case False
      define e where "e = (spa AND ADDR_MASK) OR huge_flags"
      define b where "b = npt_write_entry (4096 * q + i2 gpa * 8) e (nm_buf m1)"
      have m': "r = Inr ()" "m' = m1\<lparr>nm_buf := b\<rparr>"
        using r Inr q(1) 1 False by (auto simp: map_huge_leaf_def nm_bind_def c e_def b_def)
      have fit: "4096 * Suc q \<le> length (nm_buf m1)" by (rule tree_table_fits [OF tr1 l(2)])
      then have lb: "length b = length (nm_buf m1)" using index_less [of 21 gpa] by (simp add: b_def)
      have ents: "ent b t j = (if t = q \<and> j = i2 gpa then e else ent (nm_buf m1) t j)" if "j < 512" for t j
        unfolding b_def by (rule write_ent [OF fit index_less that])
      have no: "\<not> (\<exists>t. 0 < t \<and> t < ?n \<and> par1 t = (q, i2 gpa))"
      proof
        assume "\<exists>t. 0 < t \<and> t < ?n \<and> par1 t = (q, i2 gpa)"
        then obtain t where t: "0 < t" "t < ?n" "par1 t = (q, i2 gpa)" by blast
        with npt_treeD(4) [OF tr1 t(1,2)] npt_ptr_fields(2) [OF npt_treeD(1) [OF tr1] t(2)] False show False by simp
      qed
      have eb: "bit e 0" "bit e 7" by (simp_all only: e_def leaf_flags)
      have fits: "in_buffer b (nm_phys_base m1) ?n" by (rule in_buffer_same [OF npt_treeD(1) [OF tr1] lb])
      have "nm_tree m' L1 par1"
        using npt_tree_leaf [OF tr1 l(2) index_less _ no fits ents] l(1) eb by (simp add: m')
      moreover have "frame_mapped 21 gpa (Some spa) m m'"
        unfolding frame_mapped_def
      proof (intro allI impI conjI)
        fix v :: u64 assume v: "unat v < 2 ^ 48"
        have sf: "pd_of ?n par1 v q \<and> i2 v = i2 gpa \<longleftrightarrow> same_frame 21 v gpa"
          using pd_of_frame [OF q(2)] same_frame_21 [OF v g(2)] by blast
        have same: "nm_trans m1 v = nm_trans m v" using g1(1) unfolding grown_def by blast
        have t: "nm_trans m' v = (if same_frame 21 v gpa then Some (huge_target e v) else nm_trans m v)"
          using translate_huge_leaf [OF tr1 l(2) index_less l(1) eb no fits ents, of v] sf same by (simp add: m')
        show "nm_trans m' v = (if same_frame 21 v gpa then map_option (\<lambda>s. s + (v - gpa)) (Some spa) else nm_trans m v)"
          using t leaf_target [OF sp _ leaf_flags(2) g(1), of v] by (simp add: offset_masks e_def)
        assume "same_frame 21 v gpa"
        with sf have "pd_of ?n par1 v q" "i2 v = i2 gpa" by blast+
        with translate_pd(1) [OF tr1, of v q] False same show "nm_trans m v = None" by simp
      qed
      ultimately show ?thesis using g1(1) lb unfolding step_ok_def nm_wf_def grown_def m'(1) sum.case
        by (auto simp: m'(2))
    qed
  qed
qed

lemma map_small_page_spec:
  assumes tr: "nm_wf m" and r: "map_small_page gpa target m = (r, m')"
    and g: "2 ^ 12 dvd unat gpa" "unat gpa < 2 ^ 48"
    and sp: "\<And>spa. target = Some spa \<Longrightarrow> 2 ^ 12 dvd unat spa \<and> unat spa < 2 ^ 52"
  shows "step_ok 12 gpa target m r m'"
proof -
  obtain L par where t0: "nm_tree m L par" using tr by (auto simp: nm_wf_def)
  obtain r1 m1 where 1: "pt_off_for gpa m = (r1, m1)" by (cases "pt_off_for gpa m")
  from pt_off_for_spec [OF t0 1] obtain L1 par1 where g1: "grown m L par m1 L1 par1"
    "\<And>off. r1 = Inr off \<Longrightarrow> \<exists>t. off = 4096 * t \<and> pt_of (nm_tables_used m1) par1 gpa t" by blast
  show ?thesis
  proof (cases r1)
    case (Inl e)
    then have "r = Inl e" "m' = m1" using r by (simp_all add: map_small_page_def nm_bind_def 1)
    then show ?thesis using step_ok_error [OF g1(1)] by simp
  next
    case (Inr off)
    with g1(2) obtain q where q: "off = 4096 * q" "pt_of (nm_tables_used m1) par1 gpa q" by blast
    have tr1: "nm_tree m1 L1 par1" by (rule grown_tree [OF g1(1)])
    note l = pt_of_level [OF tr1 q(2)]
    let ?e = "ent (nm_buf m1) q (i1 gpa)" and ?n = "nm_tables_used m1"
    have rd: "npt_read_entry (nm_buf m1) (4096 * q + i1 gpa * 8) = Inr ?e" by (rule nm_read [OF tr1 l(2) index_less])
    have frame: "pt_of ?n par1 v q \<and> i1 v = i1 gpa \<longleftrightarrow> same_frame 12 v gpa" if "unat v < 2 ^ 48" for v
      using pt_of_frame [OF tr1 q(2) that g(2)] same_frame_12 [OF that g(2)] by blast
    have same: "nm_trans m1 v = nm_trans m v" for v using g1(1) unfolding grown_def by blast
    have free: "nm_trans m v = None" if "\<not> bit ?e 0" "unat v < 2 ^ 48" "same_frame 12 v gpa" for v
    proof -
      have "pt_of ?n par1 v q" "i1 v = i1 gpa" using frame [OF that(2)] that(3) by blast+
      with translate_pt [OF tr1, of v q] that(1) same [of v] show ?thesis by simp
    qed
    show ?thesis
    proof (cases "bit ?e 0")
      case True
      then have "\<exists>e. r = Inl e" "m' = m1"
        using r Inr q(1) 1 by (auto simp: map_small_page_def nm_bind_def rd flag_tests)
      then show ?thesis using step_ok_error [OF g1(1)] by auto
    next
      case False
      show ?thesis
      proof (cases target)
        case None
        then have m': "r = Inr ()" "m' = m1"
          using r Inr q(1) 1 False by (auto simp: map_small_page_def nm_bind_def rd flag_tests)
        have "frame_mapped 12 gpa None m m1" using same free [OF False] by (simp add: frame_mapped_def)
        moreover have "nm_wf m1" using tr1 unfolding nm_wf_def by blast
        ultimately show ?thesis using step_ok_mapped [OF g1(1)] None m' by simp
      next
        case (Some spa)
        define e where "e = (spa AND ADDR_MASK) OR table_flags"
        define b where "b = npt_write_entry (4096 * q + i1 gpa * 8) e (nm_buf m1)"
        have m': "r = Inr ()" "m' = m1\<lparr>nm_buf := b\<rparr>"
          using r Inr q(1) 1 False Some by (auto simp: map_small_page_def nm_bind_def rd flag_tests e_def b_def)
        have fit: "4096 * Suc q \<le> length (nm_buf m1)" by (rule tree_table_fits [OF tr1 l(2)])
        then have lb: "length b = length (nm_buf m1)" using index_less [of 12 gpa] by (simp add: b_def)
        have ents: "ent b t j = (if t = q \<and> j = i1 gpa then e else ent (nm_buf m1) t j)" if "j < 512" for t j
          unfolding b_def by (rule write_ent [OF fit index_less that])
        have eb: "bit e 0" by (simp only: e_def leaf_flags)
        have fits: "in_buffer b (nm_phys_base m1) ?n" by (rule in_buffer_same [OF npt_treeD(1) [OF tr1] lb])
        note leaf = translate_small_leaf [OF tr1 l(2) index_less l(1) fits ents]
        have "nm_wf m'" unfolding nm_wf_def using leaf(1) by (auto simp: m')
        moreover have "frame_mapped 12 gpa (Some spa) m m'"
          unfolding frame_mapped_def
        proof (intro allI impI conjI)
          fix v :: u64 assume v: "unat v < 2 ^ 48"
          have t: "nm_trans m' v = (if same_frame 12 v gpa then Some (small_target e v) else nm_trans m v)"
            using leaf(2) [of v] frame [OF v] same [of v] eb by (simp add: m')
          show "nm_trans m' v = (if same_frame 12 v gpa then map_option (\<lambda>s. s + (v - gpa)) (Some spa) else nm_trans m v)"
            using t leaf_target [OF _ _ _ leaf_flags(1) g(1), of spa v] sp [OF Some] by (simp add: offset_masks e_def)
          show "same_frame 12 v gpa \<Longrightarrow> nm_trans m v = None" by (rule free [OF False v])
        qed
        ultimately show ?thesis using step_ok_mapped [OF g1(1)] lb Some m' by simp
      qed
    qed
  qed
qed

lemma map_small_page_progress:
  assumes wf: "nm_wf m" and r: "map_small_page gpa target m = (r, m')"
  shows "progress 3 gpa m r m'"
proof -
  obtain L par where t0: "nm_tree m L par" using wf by (auto simp: nm_wf_def)
  obtain r1 m1 where 1: "pt_off_for gpa m = (r1, m1)" by (cases "pt_off_for gpa m")
  from pt_off_for_spec [OF t0 1] obtain L1 par1 where g1: "grown m L par m1 L1 par1" and p1: "progress 3 gpa m r1 m1"
    and o: "\<And>off. r1 = Inr off \<Longrightarrow> \<exists>t. off = 4096 * t \<and> pt_of (nm_tables_used m1) par1 gpa t" by blast
  have tr1: "nm_tree m1 L1 par1" by (rule grown_tree [OF g1])
  show ?thesis
  proof (cases r1)
    case (Inl e)
    then show ?thesis using r p1 by (auto simp: map_small_page_def nm_bind_def 1 progress_def)
  next
    case (Inr off)
    with o obtain q where q: "off = 4096 * q" "pt_of (nm_tables_used m1) par1 gpa q" by blast
    note l = pt_of_level [OF tr1 q(2)]
    have rd: "npt_read_entry (nm_buf m1) (4096 * q + i1 gpa * 8) = Inr (ent (nm_buf m1) q (i1 gpa))"
      by (rule nm_read [OF tr1 l(2) index_less])
    have same: "nm_trans m1 gpa = nm_trans m gpa" using g1 unfolding grown_def by blast
    have "nm_trans m gpa \<noteq> None" if "bit (ent (nm_buf m1) q (i1 gpa)) 0"
      using translate_pt [OF tr1 q(2)] that unfolding same by simp
    then show ?thesis using r p1 Inr q(1)
      by (auto simp: map_small_page_def nm_bind_def 1 rd flag_tests progress_def split: option.splits if_splits)
  qed
qed

section \<open>Mapping a range\<close>

text \<open>The first address of the page of an address, and the view of a range laid over a translation.\<close>

definition page_of :: "u64 \<Rightarrow> u64" where
  "page_of v = push_bit 12 (drop_bit 12 v)"

definition in_range :: "u64 \<Rightarrow> u64 \<Rightarrow> u64 \<Rightarrow> bool" where
  "in_range gpa len v \<longleftrightarrow> unat gpa \<le> unat v \<and> unat v < unat gpa + unat len"

definition range_view :: "u64 \<Rightarrow> u64 \<Rightarrow> u64 \<Rightarrow> u64 list \<Rightarrow> (u64 \<Rightarrow> u64 option) \<Rightarrow> u64 \<Rightarrow> u64 option" where
  "range_view gpa spa len gs f v =
     (if in_range gpa len v then if page_of v \<in> set gs then None else Some (spa + (v - gpa)) else f v)"

lemma same_frame_range:
  assumes "2 ^ k dvd unat gpa"
  shows "same_frame k v gpa \<longleftrightarrow> unat gpa \<le> unat v \<and> unat v < unat gpa + 2 ^ k"
proof -
  obtain c where c: "unat gpa = 2 ^ k * c" using assms by (rule dvdE)
  have "unat v div 2 ^ k = c \<longleftrightarrow> 2 ^ k * c \<le> unat v \<and> unat v < 2 ^ k * c + 2 ^ k"
  proof
    assume "unat v div 2 ^ k = c"
    then show "2 ^ k * c \<le> unat v \<and> unat v < 2 ^ k * c + 2 ^ k"
      using div_times_less_eq_dividend [of "unat v" "2 ^ k"] dividend_less_div_times [of "2 ^ k" "unat v"]
      by (auto simp: mult.commute add.commute)
  next
    assume "2 ^ k * c \<le> unat v \<and> unat v < 2 ^ k * c + 2 ^ k"
    then show "unat v div 2 ^ k = c" by (intro div_nat_eqI) (simp_all add: mult.commute)
  qed
  then show ?thesis by (simp add: same_frame_def c)
qed

lemma page_of_frame: "2 ^ 12 dvd unat gpa \<Longrightarrow> same_frame 12 v gpa \<Longrightarrow> page_of v = gpa"
proof -
  assume a: "2 ^ 12 dvd unat gpa" "same_frame 12 v gpa"
  have "v = push_bit 12 (drop_bit 12 v) + take_bit 12 v" by (simp add: bits_ident)
  with frame_offset [OF a] show ?thesis by (simp add: page_of_def)
qed

lemma page_of_same: "same_frame 12 v (page_of v)" "unat (page_of v) \<le> unat v" "2 ^ 12 dvd unat (page_of v)"
proof -
  have "unat (page_of v) = unat v div 2 ^ 12 * 2 ^ 12"
    unfolding page_of_def using unat_bound [of v] unat_drop_bit [of 12 v]
    by (subst unat_push_bit_no_wrap) (auto intro: le_less_trans [OF div_times_less_eq_dividend])
  then show "same_frame 12 v (page_of v)" "unat (page_of v) \<le> unat v" "2 ^ 12 dvd unat (page_of v)"
    by (simp_all add: same_frame_def)
qed

text \<open>
  What mapping a range leaves behind: after success the range was free before and now has its view, after an error
  some pages of it, which were free, may have theirs; no other translation changes.
\<close>

definition range_ok :: "u64 \<Rightarrow> u64 \<Rightarrow> u64 \<Rightarrow> u64 list \<Rightarrow> NptMapper \<Rightarrow> NptError + unit \<Rightarrow> NptMapper \<Rightarrow> bool" where
  "range_ok gpa spa len gs m r m' \<longleftrightarrow>
     nm_wf m' \<and> nm_phys_base m' = nm_phys_base m \<and> length (nm_buf m') = length (nm_buf m) \<and>
     (\<forall>v. unat v < 2 ^ 48 \<longrightarrow>
        (case r of
           Inr _ \<Rightarrow> (in_range gpa len v \<longrightarrow> nm_trans m v = None) \<and> nm_trans m' v = range_view gpa spa len gs (nm_trans m) v
         | Inl _ \<Rightarrow> nm_trans m' v = nm_trans m v \<or>
             in_range gpa len v \<and> nm_trans m v = None \<and> nm_trans m' v = range_view gpa spa len gs (nm_trans m) v))"

lemma range_ok_step:
  assumes st: "step_ok k gpa target m (Inr ()) m1"
    and rest: "range_ok (gpa + s) (spa + s) (len - s) gs m1 r m'"
    and s: "unat s = 2 ^ k" "s \<le> len" "unat gpa + unat len < 2 ^ 64" "2 ^ k dvd unat gpa"
    and tgt: "\<And>v. same_frame k v gpa \<Longrightarrow>
      map_option (\<lambda>t. t + (v - gpa)) target = (if page_of v \<in> set gs then None else Some (spa + (v - gpa)))"
  shows "range_ok gpa spa len gs m r m'"
proof -
  have le: "unat s \<le> unat len" using s(2) by (simp add: word_le_nat_alt)
  then have u: "unat (gpa + s) = unat gpa + 2 ^ k" "unat (len - s) = unat len - 2 ^ k"
    using s(1,3) unat_add_no_wrap [of gpa s] unat_diff [OF s(2)] by simp_all
  have split: "in_range gpa len v \<longleftrightarrow> same_frame k v gpa \<or> in_range (gpa + s) (len - s) v"
    "\<not> (same_frame k v gpa \<and> in_range (gpa + s) (len - s) v)" for v
    using le s(1) by (auto simp: in_range_def same_frame_range [OF s(4)] u)
  have base: "nm_wf m'" "nm_phys_base m' = nm_phys_base m" "length (nm_buf m') = length (nm_buf m)"
    using st rest unfolding range_ok_def step_ok_def by auto
  have m1: "(same_frame k v gpa \<longrightarrow> nm_trans m v = None) \<and> nm_trans m1 v =
      (if same_frame k v gpa then map_option (\<lambda>t. t + (v - gpa)) target else nm_trans m v)" if "unat v < 2 ^ 48" for v
    using st that unfolding step_ok_def frame_mapped_def sum.case by blast
  have view: "range_view (gpa + s) (spa + s) (len - s) gs (nm_trans m1) v = range_view gpa spa len gs (nm_trans m) v"
    if "unat v < 2 ^ 48" for v
    using m1 [OF that] split [of v] tgt [of v] by (auto simp: range_view_def diff_diff_eq2 algebra_simps)
  have "case r of
       Inr _ \<Rightarrow> (in_range gpa len v \<longrightarrow> nm_trans m v = None) \<and> nm_trans m' v = range_view gpa spa len gs (nm_trans m) v
     | Inl _ \<Rightarrow> nm_trans m' v = nm_trans m v \<or>
         in_range gpa len v \<and> nm_trans m v = None \<and> nm_trans m' v = range_view gpa spa len gs (nm_trans m) v"
    if v: "unat v < 2 ^ 48" for v
  proof (cases r)
    case (Inr x)
    then have "in_range (gpa + s) (len - s) v \<longrightarrow> nm_trans m1 v = None"
      "nm_trans m' v = range_view gpa spa len gs (nm_trans m) v"
      using rest v view [OF v] unfolding range_ok_def by auto
    then show ?thesis using Inr m1 [OF v] split [of v] by auto
  next
    case (Inl x)
    then have "nm_trans m' v = nm_trans m1 v \<or> in_range (gpa + s) (len - s) v \<and> nm_trans m1 v = None \<and>
        nm_trans m' v = range_view gpa spa len gs (nm_trans m) v"
      using rest v view [OF v] unfolding range_ok_def by auto
    moreover have "range_view gpa spa len gs (nm_trans m) v = nm_trans m1 v" if "same_frame k v gpa"
      using that m1 [OF v] split [of v] tgt [OF that] by (simp add: range_view_def)
    ultimately show ?thesis using Inl m1 [OF v] split [of v] by auto
  qed
  then show ?thesis using base unfolding range_ok_def by blast
qed

lemma range_ok_fail: "step_ok k gpa target m (Inl e) m' \<Longrightarrow> range_ok gpa spa len gs m (Inl e) m'"
  unfolding step_ok_def range_ok_def sum.case by blast

lemma range_ok_empty: "nm_wf m \<Longrightarrow> range_ok gpa spa 0 gs m (Inr ()) m"
  by (auto simp: range_ok_def range_view_def in_range_def)

lemma aligned_iff:
  "v AND (NPT_PAGE_SIZE - 1) = 0 \<longleftrightarrow> 2 ^ 12 dvd unat v" "v AND (NPT_HUGE_2MIB - 1) = 0 \<longleftrightarrow> 2 ^ 21 dvd unat v"
proof -
  have "take_bit k v = 0 \<longleftrightarrow> 2 ^ k dvd unat v" for k
  proof -
    have "unat (take_bit k v) = unat v mod 2 ^ k" by (simp only: unsigned_take_bit_eq) (rule take_bit_eq_mod)
    then show ?thesis by (metis dvd_eq_mod_eq_0 unat_eq_zero)
  qed
  then show "v AND (NPT_PAGE_SIZE - 1) = 0 \<longleftrightarrow> 2 ^ 12 dvd unat v" "v AND (NPT_HUGE_2MIB - 1) = 0 \<longleftrightarrow> 2 ^ 21 dvd unat v"
    by (simp_all only: offset_masks)
qed

lemma nm_range_loop_spec:
  assumes "nm_wf m" "2 ^ 12 dvd unat gpa" "2 ^ 12 dvd unat spa" "2 ^ 12 dvd unat len"
    and "unat gpa + unat len \<le> 2 ^ 48" "unat spa + unat len \<le> 2 ^ 52"
  shows "\<exists>r m'. nm_range_loop gs gpa spa len m = Some (r, m') \<and> range_ok gpa spa len gs m r m'"
  using assms
proof (induction "unat len" arbitrary: gpa spa len m rule: less_induct)
  case less
  show ?case
  proof (cases "len = 0")
    case True
    then show ?thesis using range_ok_empty [OF less.prems(1)] by (subst nm_range_loop.simps) simp
  next
    case False
    then have pos: "0 < len" "0 < unat len" by (simp_all add: word_greater_zero_iff unat_gt_0)
    then have len: "2 ^ 12 \<le> unat len" using less.prems(4) by (intro dvd_imp_le)
    define huge where "huge = fits_huge gpa spa len gs"
    define k :: nat where "k = (if huge then 21 else 12)"
    define s :: u64 where "s = (if huge then NPT_HUGE_2MIB else NPT_PAGE_SIZE)"
    define target where "target = (if \<not> huge \<and> gpa \<in> set gs then None else Some spa)"
    have us: "unat s = 2 ^ k" by (simp add: s_def k_def NPT_HUGE_2MIB_def NPT_PAGE_SIZE_def)
    have h: "2 ^ 21 dvd unat gpa" "2 ^ 21 dvd unat spa" "NPT_HUGE_2MIB \<le> len" "\<not> chunk_has_guard gpa gs" if huge
      using that by (simp_all add: huge_def fits_huge_def aligned_iff)
    have sl: "s \<le> len" using h(3) len by (simp add: s_def word_le_nat_alt NPT_PAGE_SIZE_def)
    have al: "2 ^ k dvd unat gpa" "2 ^ k dvd unat spa" using h(1,2) less.prems(2,3) by (simp_all add: k_def)
    have lim: "unat gpa < 2 ^ 48" "unat spa < 2 ^ 52" "unat gpa + unat len < 2 ^ 64" using less.prems(5,6) pos(2) by simp_all
    obtain r1 m1 where 1: "(if huge then map_huge_leaf gpa spa m else map_small_page gpa target m) = (r1, m1)" by force
    have st: "step_ok k gpa target m r1 m1"
    proof (cases huge)
      case True
      then show ?thesis using map_huge_leaf_spec [OF less.prems(1) _ h(1) lim(1) h(2) lim(2), of r1 m1] 1
        by (simp add: k_def target_def)
    next
      case False
      then show ?thesis using map_small_page_spec [OF less.prems(1) _ less.prems(2) lim(1), of target r1 m1] 1 al lim(2)
        by (auto simp: k_def target_def split: if_splits)
    qed
    have loop: "nm_range_loop gs gpa spa len m =
        (case r1 of Inl e \<Rightarrow> Some (Inl e, m1) | Inr _ \<Rightarrow> nm_range_loop gs (gpa + s) (spa + s) (len - s) m1)"
      using 1 pos(1) by (subst nm_range_loop.simps) (auto simp: huge_def s_def target_def split: sum.splits if_splits)
    show ?thesis
    proof (cases r1)
      case (Inl e)
      then show ?thesis using loop range_ok_fail st by auto
    next
      case (Inr x)
      have u: "unat (gpa + s) = unat gpa + 2 ^ k" "unat (spa + s) = unat spa + 2 ^ k" "unat (len - s) = unat len - 2 ^ k"
        "2 ^ k \<le> unat len"
        using sl us less.prems(5,6) unat_add_no_wrap [of gpa s] unat_add_no_wrap [of spa s] unat_diff [OF sl]
        by (simp_all add: word_le_nat_alt)
      have dk: "(2 :: nat) ^ 12 dvd 2 ^ k" by (simp add: k_def le_imp_power_dvd)
      have "nm_wf m1" using st by (simp add: step_ok_def)
      then obtain r m' where l: "nm_range_loop gs (gpa + s) (spa + s) (len - s) m1 = Some (r, m')"
        "range_ok (gpa + s) (spa + s) (len - s) gs m1 r m'"
        using less.hyps [of "len - s" m1 "gpa + s" "spa + s"] u less.prems(2-6) dk diff_less [of "2 ^ k" "unat len"] pos(2)
        by (auto simp: dvd_add dvd_diff_nat)
      have tgt: "map_option (\<lambda>t. t + (v - gpa)) target = (if page_of v \<in> set gs then None else Some (spa + (v - gpa)))"
        if sf: "same_frame k v gpa" for v
      proof (cases huge)
        case True
        have "page_of v \<notin> set gs"
        proof
          assume g: "page_of v \<in> set gs"
          have "unat gpa \<le> unat v" "unat v < unat gpa + 2 ^ 21" using sf True same_frame_range [OF h(1)] by (simp_all add: k_def)
          moreover from this have "unat gpa \<le> unat (page_of v)"
            using same_frame_range [OF page_of_same(3)] page_of_same(1) [of v] less.prems(2) page_of_same(3) [of v]
            by (elim dvdE) (auto simp: same_frame_def)
          ultimately have "gpa \<le> page_of v" "page_of v < gpa + NPT_HUGE_2MIB"
            using page_of_same(2) [of v] u(1) True by (simp_all add: word_le_nat_alt word_less_nat_alt s_def k_def)
          with g h(4) [OF True] show False by (auto simp: chunk_has_guard_def list_ex_iff)
        qed
        with True show ?thesis by (simp add: target_def)
      next
        case False
        then have "page_of v = gpa" using sf page_of_frame [OF less.prems(2)] by (simp add: k_def)
        with False show ?thesis by (simp add: target_def)
      qed
      have st1: "step_ok k gpa target m (Inr ()) m1" using st Inr by simp
      show ?thesis using range_ok_step [OF st1 l(2) us sl lim(3) al(1) tgt] l(1) loop Inr by auto
    qed
  qed
qed

text \<open>A free range shorter than 2 MiB is mapped when the buffer has three spare tables for each of its pages.\<close>

lemma nm_range_loop_progress:
  assumes "nm_wf m" "2 ^ 12 dvd unat gpa" "2 ^ 12 dvd unat spa" "2 ^ 12 dvd unat len"
    and "unat gpa + unat len \<le> 2 ^ 48" "unat spa + unat len \<le> 2 ^ 52" "unat len < 2 ^ 21"
    and "\<And>v. in_range gpa len v \<Longrightarrow> nm_trans m v = None"
    and "4096 * nm_tables_used m + 3 * unat len \<le> length (nm_buf m)"
  shows "\<exists>m'. nm_range_loop gs gpa spa len m = Some (Inr (), m')"
  using assms
proof (induction "unat len" arbitrary: gpa spa len m rule: less_induct)
  case less
  show ?case
  proof (cases "len = 0")
    case True
    then show ?thesis by (subst nm_range_loop.simps) simp
  next
    case False
    then have pos: "0 < len" "0 < unat len" by (simp_all add: word_greater_zero_iff unat_gt_0)
    then have len: "4096 \<le> unat len" using less.prems(4) by (auto dest: dvd_imp_le)
    define target where "target = (if gpa \<in> set gs then None else Some spa)"
    obtain r1 m1 where 1: "map_small_page gpa target m = (r1, m1)" by force
    have lim: "unat gpa < 2 ^ 48" "unat spa < 2 ^ 52" using less.prems(5,6) pos(2) by simp_all
    note p = map_small_page_progress [OF less.prems(1) 1]
    have "nm_trans m gpa = None" using less.prems(8) [of gpa] pos(2) by (simp add: in_range_def)
    with p len less.prems(9) obtain u: "r1 = Inr ()" by (cases r1) (auto simp: progress_def)
    have "step_ok 12 gpa target m r1 m1"
      using map_small_page_spec [OF less.prems(1) 1 less.prems(2) lim(1)] less.prems(3) lim(2)
      by (auto simp: target_def split: if_splits)
    then have st: "nm_wf m1" "length (nm_buf m1) = length (nm_buf m)" "frame_mapped 12 gpa target m m1"
      by (simp_all add: step_ok_def u)
    have s: "unat NPT_PAGE_SIZE = 4096" "NPT_PAGE_SIZE \<le> len" using len by (simp_all add: NPT_PAGE_SIZE_def word_le_nat_alt)
    have un: "unat (gpa + NPT_PAGE_SIZE) = unat gpa + 4096" "unat (spa + NPT_PAGE_SIZE) = unat spa + 4096"
      "unat (len - NPT_PAGE_SIZE) = unat len - 4096"
      using less.prems(5,6) len s by (simp_all add: unat_add_no_wrap unat_diff)
    have free: "nm_trans m1 v = None" if v: "in_range (gpa + NPT_PAGE_SIZE) (len - NPT_PAGE_SIZE) v" for v
    proof -
      have "unat v < 2 ^ 48" "\<not> same_frame 12 v gpa" "in_range gpa len v"
        using v un less.prems(5) len by (simp_all add: in_range_def same_frame_range [OF less.prems(2)])
      then show ?thesis using st(3) less.prems(8) [of v] by (simp add: frame_mapped_def)
    qed
    have d: "2 ^ 12 dvd unat (gpa + NPT_PAGE_SIZE)" "2 ^ 12 dvd unat (spa + NPT_PAGE_SIZE)" "2 ^ 12 dvd unat (len - NPT_PAGE_SIZE)"
      using less.prems(2-4) by (simp_all add: un dvd_diff_nat)
    have "\<exists>m'. nm_range_loop gs (gpa + NPT_PAGE_SIZE) (spa + NPT_PAGE_SIZE) (len - NPT_PAGE_SIZE) m1 = Some (Inr (), m')"
      using less.prems(5-7,9) len p st(2)
      by (intro less.hyps [OF _ st(1) d _ _ _ free]) (simp_all add: un u progress_Inr)
    moreover have "\<not> fits_huge gpa spa len gs"
      using less.prems(7) by (simp add: fits_huge_def word_le_nat_alt NPT_HUGE_2MIB_def)
    ultimately show ?thesis using pos(1) 1 u by (subst nm_range_loop.simps) (simp add: target_def)
  qed
qed

lemma range_ok_unchanged: "nm_wf m \<Longrightarrow> range_ok gpa spa len gs m (Inl e) m"
  by (simp add: range_ok_def)

lemma nm_map_range_spec:
  assumes "nm_wf m" "unat spa + unat len \<le> 2 ^ 52"
  shows "\<exists>r m'. nm_map_range gpa spa len gs m = Some (r, m') \<and> range_ok gpa spa len gs m r m'"
proof -
  consider (error) e where "nm_map_range gpa spa len gs m = Some (Inl e, m)"
    | (loop) "2 ^ 12 dvd unat gpa" "2 ^ 12 dvd unat spa" "2 ^ 12 dvd unat len" "gpa \<le> gpa + len" "gpa + len \<le> bitmask 48"
        "nm_map_range gpa spa len gs m = nm_range_loop gs gpa spa len m"
    unfolding nm_map_range_def checked_add_code aligned_iff [symmetric]
    by (fastforce simp: not_less split: option.splits if_splits)
  then show ?thesis
  proof cases
    case error
    then show ?thesis using range_ok_unchanged [OF assms(1)] by auto
  next
    case loop
    have "unat (gpa + len) = unat gpa + unat len"
      using loop(4) unat_plus_simple [of gpa len] by blast
    moreover have "unat (bitmask 48 :: u64) = 2 ^ 48" by (simp add: bitmask_numeral push_bit_eq_mult)
    ultimately have "unat gpa + unat len \<le> 2 ^ 48" using loop(5) by (simp only: word_le_nat_alt)
    from nm_range_loop_spec [OF assms(1) loop(1-3) this assms(2)] loop(6) show ?thesis by simp
  qed
qed

lemma npt_mapper_new_wf:
  assumes "npt_mapper_new buf pb = Inr m" "unat pb + length buf \<le> 2 ^ 52"
  shows "nm_wf m" "nm_phys_base m = pb" "nm_trans m v = None"
proof -
  have a: "4096 dvd unat pb" "4096 \<le> length buf"
    using assms(1) aligned_iff(1) [of pb] by (auto simp: npt_mapper_new_def NPT_PAGE_SIZE_USIZE_def split: if_splits)
  then have m: "m = \<lparr>nm_buf = fill_zero 0 4096 buf, nm_phys_base = pb, nm_tables_used = 1\<rparr>"
    using assms by (auto simp: npt_mapper_new_def alloc_table_def NPT_PAGE_SIZE_USIZE_def split: if_splits)
  then show "nm_phys_base m = pb" by simp
  have z: "ent (nm_buf m) 0 i = 0" if "i < 512" for i
    using ent_fill_zero [of 0 buf i 0] a(2) that by (simp add: m)
  have "length (nm_buf m) = length buf" using a(2) by (simp add: m length_fill_zero)
  then have t: "nm_tree m (\<lambda>_. 4) (\<lambda>_. (0, 0))"
    using a assms(2) z by (auto simp: npt_tree_def in_buffer_def m)
  then show "nm_wf m" unfolding nm_wf_def by blast
  have "\<not> (\<exists>q. pd_of (nm_tables_used m) (\<lambda>_. (0, 0)) v q)" by (simp add: pd_of_def m)
  then show "nm_trans m v = None" by (rule translate_no_pd [OF t])
qed

type_synonym npt_range = "u64 \<times> u64 \<times> u64 \<times> u64 list"

text \<open>Calls of \<open>map_range\<close> one after the other, up to the first error.\<close>

fun run_ranges :: "npt_range list \<Rightarrow> NptMapper \<Rightarrow> ((NptError + unit) \<times> NptMapper) option" where
  "run_ranges [] m = Some (Inr (), m)"
| "run_ranges ((gpa, spa, len, gs) # rs) m =
     (case nm_map_range gpa spa len gs m of
        None \<Rightarrow> None
      | Some (Inl e, m') \<Rightarrow> Some (Inl e, m')
      | Some (Inr _, m') \<Rightarrow> run_ranges rs m')"

text \<open>The specification: each range laid over the ones before it.\<close>

fun ranges_view :: "npt_range list \<Rightarrow> (u64 \<Rightarrow> u64 option) \<Rightarrow> u64 \<Rightarrow> u64 option" where
  "ranges_view [] f = f"
| "ranges_view ((gpa, spa, len, gs) # rs) f = ranges_view rs (range_view gpa spa len gs f)"

definition spa_ok :: "npt_range \<Rightarrow> bool" where
  "spa_ok r = (case r of (gpa, spa, len, gs) \<Rightarrow> unat spa + unat len \<le> 2 ^ 52)"

lemma ranges_view_cong:
  "(\<And>v. unat v < 2 ^ 48 \<Longrightarrow> f v = g v) \<Longrightarrow> unat v < 2 ^ 48 \<Longrightarrow> ranges_view rs f v = ranges_view rs g v"
proof (induction rs arbitrary: f g)
  case (Cons r rs)
  obtain gpa spa len gs where r: "r = (gpa, spa, len, gs)" by (cases r)
  have "range_view gpa spa len gs f w = range_view gpa spa len gs g w" if "unat w < 2 ^ 48" for w
    using Cons.prems(1) [OF that] by (simp add: range_view_def)
  from Cons.IH [OF this Cons.prems(2)] show ?case by (simp add: r)
qed simp

lemma run_ranges_spec:
  "nm_wf m \<Longrightarrow> list_all spa_ok rs \<Longrightarrow>
   \<exists>r m'. run_ranges rs m = Some (r, m') \<and> nm_phys_base m' = nm_phys_base m \<and>
     (r = Inr () \<longrightarrow> (\<forall>v. unat v < 2 ^ 48 \<longrightarrow> nm_trans m' v = ranges_view rs (nm_trans m) v))"
proof (induction rs arbitrary: m)
  case (Cons x rs)
  obtain gpa spa len gs where x: "x = (gpa, spa, len, gs)" by (cases x)
  have "unat spa + unat len \<le> 2 ^ 52" using Cons.prems(2) by (simp add: x spa_ok_def)
  from nm_map_range_spec [OF Cons.prems(1) this, of gpa gs] obtain r1 m1 where
    1: "nm_map_range gpa spa len gs m = Some (r1, m1)" "range_ok gpa spa len gs m r1 m1" by blast
  show ?case
  proof (cases r1)
    case (Inl e)
    then show ?thesis using 1 by (simp add: x range_ok_def)
  next
    case (Inr u)
    have "nm_wf m1" "nm_phys_base m1 = nm_phys_base m"
      and v1: "\<And>v. unat v < 2 ^ 48 \<Longrightarrow> nm_trans m1 v = range_view gpa spa len gs (nm_trans m) v"
      using 1(2) unfolding range_ok_def Inr sum.case by blast+
    from Cons.IH [OF this(1)] Cons.prems(2) obtain r m' where
      2: "run_ranges rs m1 = Some (r, m')" "nm_phys_base m' = nm_phys_base m1"
      "r = Inr () \<longrightarrow> (\<forall>v. unat v < 2 ^ 48 \<longrightarrow> nm_trans m' v = ranges_view rs (nm_trans m1) v)" by auto
    have "run_ranges (x # rs) m = Some (r, m')" using 1(1) 2(1) Inr by (simp add: x)
    moreover have "ranges_view rs (nm_trans m1) v = ranges_view (x # rs) (nm_trans m) v" if "unat v < 2 ^ 48" for v
      using ranges_view_cong [OF v1 that] by (simp add: x)
    ultimately show ?thesis using 2(2,3) \<open>nm_phys_base m1 = nm_phys_base m\<close> by auto
  qed
qed simp

lemma range_ok_pointwise:
  assumes "range_ok gpa spa len gs m r m'" "unat v < 2 ^ 48"
  shows "nm_trans m' v = nm_trans m v \<or> nm_trans m' v = range_view gpa spa len gs (nm_trans m) v"
proof (cases r)
  case (Inl e)
  show ?thesis using assms unfolding range_ok_def Inl sum.case by blast
next
  case (Inr u)
  show ?thesis using assms unfolding range_ok_def Inr sum.case by blast
qed

lemma run_ranges_source:
  "nm_wf m \<Longrightarrow> list_all spa_ok rs \<Longrightarrow> run_ranges rs m = Some (r, m') \<Longrightarrow> unat v < 2 ^ 48 \<Longrightarrow> nm_trans m' v = Some a \<Longrightarrow>
   nm_trans m v = Some a \<or>
   (\<exists>gpa spa len gs. (gpa, spa, len, gs) \<in> set rs \<and> in_range gpa len v \<and> page_of v \<notin> set gs \<and> a = spa + (v - gpa))"
proof (induction rs arbitrary: m)
  case (Cons x rs)
  obtain gpa spa len gs where x: "x = (gpa, spa, len, gs)" by (cases x)
  have "unat spa + unat len \<le> 2 ^ 52" using Cons.prems(2) by (simp add: x spa_ok_def)
  from nm_map_range_spec [OF Cons.prems(1) this, of gpa gs] obtain r1 m1 where
    1: "nm_map_range gpa spa len gs m = Some (r1, m1)" "range_ok gpa spa len gs m r1 m1" by blast
  from range_ok_pointwise [OF 1(2) Cons.prems(4)] have step: "nm_trans m v = Some a \<or> in_range gpa len v \<and> page_of v \<notin> set gs \<and> a = spa + (v - gpa)"
    if "nm_trans m1 v = Some a"
    using that unfolding range_view_def by (auto split: if_splits)
  have "nm_wf m1" using 1(2) by (simp add: range_ok_def)
  show ?case
  proof (cases r1)
    case (Inl e)
    then have "m' = m1" using Cons.prems(3) 1(1) by (simp add: x)
    then show ?thesis using step Cons.prems(5) by (auto simp: x)
  next
    case (Inr u)
    then have "run_ranges rs m1 = Some (r, m')" using Cons.prems(3) 1(1) by (simp add: x)
    from Cons.IH [OF \<open>nm_wf m1\<close> _ this Cons.prems(4,5)] Cons.prems(2) step show ?thesis by (auto simp: x)
  qed
qed simp

lemma npt_mapper_new_ok:
  assumes "2 ^ 12 dvd unat pb" "4096 \<le> length buf" "length buf \<le> 2 ^ 52"
  shows "\<exists>m. npt_mapper_new buf pb = Inr m \<and> nm_tables_used m = 1 \<and> length (nm_buf m) = length buf"
  using assms aligned_iff(1) [of pb]
  by (auto simp: npt_mapper_new_def alloc_table_def NPT_PAGE_SIZE_USIZE_def length_fill_zero)

lemma nm_map_range_progress:
  assumes "nm_wf m" "2 ^ 12 dvd unat gpa" "2 ^ 12 dvd unat spa" "2 ^ 12 dvd unat len" "0 < len"
    and "unat gpa + unat len \<le> 2 ^ 48" "unat spa + unat len \<le> 2 ^ 52" "unat len < 2 ^ 21"
    and gs: "\<And>g. g \<in> set gs \<Longrightarrow> 2 ^ 12 dvd unat g \<and> in_range gpa len g"
    and "\<And>v. in_range gpa len v \<Longrightarrow> nm_trans m v = None"
    and "4096 * nm_tables_used m + 3 * unat len \<le> length (nm_buf m)"
  shows "\<exists>m'. nm_map_range gpa spa len gs m = Some (Inr (), m')"
proof -
  have u: "unat (gpa + len) = unat gpa + unat len" using assms(6) by (intro unat_add_no_wrap) simp
  have b: "unat (bitmask 48 :: u64) = 2 ^ 48" by (simp add: bitmask_numeral push_bit_eq_mult)
  have "check_map_guard gpa len g = None" if "g \<in> set gs" for g
    using gs [OF that] aligned_iff(1) [of g] u by (auto simp: check_map_guard_def in_range_def word_less_nat_alt word_le_nat_alt)
  then have "first_error (check_map_guard gpa len) gs = None" by (induction gs) auto
  moreover have "checked_add gpa len = Some (gpa + len)" "\<not> bitmask 48 < gpa + len"
    using u b assms(6) by (simp_all add: checked_add_code word_le_nat_alt word_less_nat_alt)
  ultimately have "nm_map_range gpa spa len gs m = nm_range_loop gs gpa spa len m"
    using assms(2-5) by (auto simp: nm_map_range_def aligned_iff)
  then show ?thesis using nm_range_loop_progress [OF assms(1-4,6-8,10,11)] by simp
qed

text \<open>A mapper over eight tables of memory, and a range of two pages of which the second is a guard page.\<close>

definition sample_buf :: "u8 list" where
  "sample_buf = replicate 32768 0xA5"

definition sample_range :: npt_range where
  "sample_range = (0x400000, 0x80000000, 0x2000, [0x401000])"

lemma sample_mapped:
  "\<exists>m0 m. npt_mapper_new sample_buf 0x100000 = Inr m0 \<and> run_ranges [sample_range] m0 = Some (Inr (), m)"
proof -
  from npt_mapper_new_ok [of "0x100000" sample_buf] obtain m0 where
    m0: "npt_mapper_new sample_buf 0x100000 = Inr m0" "nm_tables_used m0 = 1" "length (nm_buf m0) = length sample_buf"
    by (auto simp: sample_buf_def)
  have w: "nm_wf m0" "\<And>v. nm_trans m0 v = None" using npt_mapper_new_wf [OF m0(1)] by (simp_all add: sample_buf_def)
  have "\<exists>m. nm_map_range 0x400000 0x80000000 0x2000 [0x401000] m0 = Some (Inr (), m)"
    using w m0(2,3) by (intro nm_map_range_progress) (simp_all add: in_range_def sample_buf_def)
  then show ?thesis using m0(1) by (auto simp: sample_range_def)
qed

section \<open>Properties\<close>

text \<open>
  C3 (refinement).  From a fresh mapper, any sequence of \<open>map_range\<close> calls returns, and when all of them succeed the tables
  translate every guest address as the ranges laid one over the other say: with the offset kept, guard pages not mapped and
  every address outside the ranges not mapped.
\<close>

theorem mapper_refines_ranges:
  assumes new: "npt_mapper_new buf pb = Inr m0" and "unat pb + length buf \<le> 2 ^ 52" and "list_all spa_ok rs"
  shows "\<exists>r m. run_ranges rs m0 = Some (r, m) \<and>
    (r = Inr () \<longrightarrow> (\<forall>v. unat v < 2 ^ 48 \<longrightarrow> translate_npt (nm_buf m) pb v = ranges_view rs (\<lambda>_. None) v))"
proof -
  note w = npt_mapper_new_wf [OF assms(1,2)]
  from run_ranges_spec [OF w(1) assms(3)] obtain r m where
    "run_ranges rs m0 = Some (r, m)" "nm_phys_base m = pb"
    "r = Inr () \<longrightarrow> (\<forall>v. unat v < 2 ^ 48 \<longrightarrow> nm_trans m v = ranges_view rs (nm_trans m0) v)" using w(2) by auto
  moreover have "nm_trans m0 = (\<lambda>_. None)" by (rule ext) (rule w(3))
  ultimately show ?thesis by simp
qed

theorem mapper_refines_ranges_witness:
  "\<exists>m0 m. npt_mapper_new sample_buf 0x100000 = Inr m0 \<and> run_ranges [sample_range] m0 = Some (Inr (), m) \<and>
     translate_npt (nm_buf m) 0x100000 0x400010 = Some 0x80000010 \<and> translate_npt (nm_buf m) 0x100000 0x401010 = None"
proof -
  from sample_mapped obtain m0 m where m: "npt_mapper_new sample_buf 0x100000 = Inr m0"
    "run_ranges [sample_range] m0 = Some (Inr (), m)" by blast
  have "\<forall>v. unat v < 2 ^ 48 \<longrightarrow> translate_npt (nm_buf m) 0x100000 v = ranges_view [sample_range] (\<lambda>_. None) v"
    using mapper_refines_ranges [OF m(1), of "[sample_range]"] m(2) by (simp add: sample_buf_def spa_ok_def sample_range_def)
  from this [THEN spec, of "0x400010"] this [THEN spec, of "0x401010"] m show ?thesis
    by (auto simp: sample_range_def range_view_def in_range_def page_of_def push_bit_eq_mult drop_bit_eq_div)
qed

text \<open>
  C4 (safety).  Whatever the calls of \<open>map_range\<close> return, an address the tables translate was asked for: it lies in one of
  the ranges, outside its guard pages, and goes to the system address at its offset in that range.  A failed call leaves no
  other mapping behind.
\<close>

theorem mapper_maps_only_ranges:
  assumes "npt_mapper_new buf pb = Inr m0" and "unat pb + length buf \<le> 2 ^ 52" and "list_all spa_ok rs"
    and "run_ranges rs m0 = Some (r, m)" and "unat v < 2 ^ 48" and "translate_npt (nm_buf m) pb v = Some a"
  shows "\<exists>gpa spa len gs. (gpa, spa, len, gs) \<in> set rs \<and> in_range gpa len v \<and> page_of v \<notin> set gs \<and> a = spa + (v - gpa)"
proof -
  note w = npt_mapper_new_wf [OF assms(1,2)]
  have "nm_phys_base m = pb" using run_ranges_spec [OF w(1) assms(3)] assms(4) w(2) by auto
  with run_ranges_source [OF w(1) assms(3-5)] assms(6) w(3) show ?thesis by auto
qed

theorem mapper_maps_only_ranges_witness:
  "\<exists>m0 m. npt_mapper_new sample_buf 0x100000 = Inr m0 \<and> run_ranges [sample_range] m0 = Some (Inr (), m) \<and>
     translate_npt (nm_buf m) 0x100000 0x401010 = None \<and> translate_npt (nm_buf m) 0x100000 0x10 = None"
proof -
  from sample_mapped obtain m0 m where m: "npt_mapper_new sample_buf 0x100000 = Inr m0"
    "run_ranges [sample_range] m0 = Some (Inr (), m)" by blast
  have "translate_npt (nm_buf m) 0x100000 v \<noteq> Some a" if "v = 0x401010 \<or> v = 0x10" for v a
    using mapper_maps_only_ranges [OF m(1) _ _ m(2), of v a] that
    by (auto simp: sample_buf_def spa_ok_def sample_range_def in_range_def page_of_def push_bit_eq_mult drop_bit_eq_div)
  with m show ?thesis by (metis option.exhaust)
qed

text \<open>
  C37 (liveness).  A fresh mapper maps a page-aligned range shorter than 2 MiB whenever its buffer has the root table and
  three tables for each page of the range.
\<close>

theorem mapper_maps_range:
  assumes "npt_mapper_new buf pb = Inr m0" and "unat pb + length buf \<le> 2 ^ 52" and "4096 + 3 * unat len \<le> length buf"
    and "2 ^ 12 dvd unat gpa" "2 ^ 12 dvd unat spa" "2 ^ 12 dvd unat len" "0 < len" "unat len < 2 ^ 21"
    and "unat gpa + unat len \<le> 2 ^ 48" "unat spa + unat len \<le> 2 ^ 52"
    and "list_all (\<lambda>g. 2 ^ 12 dvd unat g \<and> in_range gpa len g) gs"
  shows "\<exists>m. nm_map_range gpa spa len gs m0 = Some (Inr (), m) \<and>
    (\<forall>v. in_range gpa len v \<longrightarrow>
      translate_npt (nm_buf m) pb v = (if page_of v \<in> set gs then None else Some (spa + (v - gpa))))"
proof -
  note w = npt_mapper_new_wf [OF assms(1,2)]
  have "2 ^ 12 dvd unat pb" "4096 \<le> length buf" "length buf \<le> 2 ^ 52"
    using assms(1,2) aligned_iff(1) [of pb] by (auto simp: npt_mapper_new_def NPT_PAGE_SIZE_USIZE_def split: if_splits)
  from npt_mapper_new_ok [OF this] assms(1) have m0: "nm_tables_used m0 = 1" "length (nm_buf m0) = length buf" by auto
  from nm_map_range_progress [OF w(1) assms(4-7,9,10,8), of gs] assms(3,11) w(3) m0 obtain m where
    m: "nm_map_range gpa spa len gs m0 = Some (Inr (), m)" by (auto simp: list_all_iff)
  with nm_map_range_spec [OF w(1) assms(10), of gpa gs] have "range_ok gpa spa len gs m0 (Inr ()) m" by auto
  then have "nm_phys_base m = nm_phys_base m0"
    "\<forall>v. unat v < 2 ^ 48 \<longrightarrow> nm_trans m v = range_view gpa spa len gs (nm_trans m0) v"
    unfolding range_ok_def sum.case by blast+
  moreover have "unat v < 2 ^ 48" if "in_range gpa len v" for v using that assms(9) by (simp add: in_range_def)
  ultimately show ?thesis using m by (auto simp: range_view_def w(2))
qed

theorem mapper_maps_range_witness:
  "\<exists>m0 m. npt_mapper_new sample_buf 0x100000 = Inr m0 \<and>
     nm_map_range 0x400000 0x80000000 0x2000 [0x401000] m0 = Some (Inr (), m) \<and>
     translate_npt (nm_buf m) 0x100000 0x400010 = Some 0x80000010"
proof -
  from npt_mapper_new_ok [of "0x100000" sample_buf] obtain m0 where m0: "npt_mapper_new sample_buf 0x100000 = Inr m0"
    by (auto simp: sample_buf_def)
  from mapper_maps_range [OF m0, of "0x2000" "0x400000" "0x80000000" "[0x401000]"] obtain m where
    m: "nm_map_range 0x400000 0x80000000 0x2000 [0x401000] m0 = Some (Inr (), m)"
    "\<forall>v. in_range 0x400000 0x2000 v \<longrightarrow> translate_npt (nm_buf m) 0x100000 v =
       (if page_of v \<in> set [0x401000] then None else Some (0x80000000 + (v - 0x400000)))"
    by (auto simp: sample_buf_def in_range_def)
  from m(2) [THEN spec, of "0x400010"] m0 m(1) show ?thesis
    by (auto simp: in_range_def page_of_def push_bit_eq_mult drop_bit_eq_div)
qed

end
