(* ===== verification/Npt_Dirty.thy ===== *)
theory Npt_Dirty
  imports Npt_Mapper
begin

text \<open>
  The per-epoch dirty log of \<open>enlil-hal/src/npt.rs\<close> (\<open>NptDirtyLog\<close>): a bitmap with one bit for each 2 MiB page of a
  guest-physical range.  The borrowed slice of words is a field of the log.  An operation on the nested page tables takes
  and returns their buffer, which an error leaves as changed so far.
\<close>

section \<open>The log\<close>

definition dirty_bitmap_words :: "u64 \<Rightarrow> nat" where
  "dirty_bitmap_words num_pages = (unat num_pages + 63) div 64"

record NptDirtyLog =
  dl_base_gpa :: u64
  dl_num_pages :: u64
  dl_bits :: "u64 list"

definition dl_new :: "u64 \<Rightarrow> u64 \<Rightarrow> u64 list \<Rightarrow> NptError + NptDirtyLog" where
  "dl_new base_gpa num_pages bits =
     (if num_pages = 0 then Inl NptEmptyRegion
      else if base_gpa AND (NPT_HUGE_2MIB - 1) \<noteq> 0 then Inl NptUnalignedBase
      else if length bits < dirty_bitmap_words num_pages
      then Inl (TablesExceedBuffer (dirty_bitmap_words num_pages * 8) (length bits * 8))
      else if unat num_pages * unat NPT_HUGE_2MIB \<ge> 2 ^ 64 then Inl (DirtyRangeOverflow base_gpa num_pages)
      else case checked_add base_gpa (num_pages * NPT_HUGE_2MIB) of
        None \<Rightarrow> Inl (DirtyRangeOverflow base_gpa num_pages)
      | Some _ \<Rightarrow>
          Inr \<lparr>dl_base_gpa = base_gpa, dl_num_pages = num_pages, dl_bits = replicate (length bits) 0\<rparr>)"

definition locate :: "u64 \<Rightarrow> nat \<times> u64" where
  "locate page = (unat (page div 64), bitmask (unat (page mod 64)))"

definition page_index :: "NptDirtyLog \<Rightarrow> u64 \<Rightarrow> u64 option" where
  "page_index l gpa =
     (if gpa < dl_base_gpa l then None
      else let page = (gpa - dl_base_gpa l) div NPT_HUGE_2MIB in
        if page < dl_num_pages l then Some page else None)"

definition dl_record :: "u64 \<Rightarrow> NptDirtyLog \<Rightarrow> (NptError + bool) \<times> NptDirtyLog" where
  "dl_record fault_gpa l =
     (case page_index l fault_gpa of
        None \<Rightarrow> (Inl (GpaOutOfRange fault_gpa (dl_base_gpa l) (dl_num_pages l)), l)
      | Some page \<Rightarrow>
          (let (word, mask) = locate page; fresh = (dl_bits l ! word AND mask = 0) in
           (Inr fresh, l\<lparr>dl_bits := (dl_bits l)[word := dl_bits l ! word OR mask]\<rparr>)))"

definition dl_is_dirty :: "NptDirtyLog \<Rightarrow> u64 \<Rightarrow> NptError + bool" where
  "dl_is_dirty l gpa =
     (case page_index l gpa of
        None \<Rightarrow> Inl (GpaOutOfRange gpa (dl_base_gpa l) (dl_num_pages l))
      | Some page \<Rightarrow> (let (word, mask) = locate page in Inr (dl_bits l ! word AND mask \<noteq> 0)))"

definition count_ones :: "u64 \<Rightarrow> nat" where
  "count_ones w = length (List.filter (bit w) [0..<64])"

definition dirty_page_count :: "NptDirtyLog \<Rightarrow> u64" where
  "dirty_page_count l = sum_list (map (\<lambda>w. of_nat (count_ones w)) (dl_bits l))"

definition dirty_page :: "NptDirtyLog \<Rightarrow> u64 \<Rightarrow> u64 option" where
  "dirty_page l page =
     (let (word, mask) = locate page in
      if dl_bits l ! word AND mask = 0 then None
      else checked_add (dl_base_gpa l) (page * NPT_HUGE_2MIB))"

definition dirty_pages :: "NptDirtyLog \<Rightarrow> u64 list" where
  "dirty_pages l = List.map_filter (\<lambda>page. dirty_page l (of_nat page)) [0..<unat (dl_num_pages l)]"

fun reprotect_loop :: "u64 \<Rightarrow> u64 list \<Rightarrow> u64 \<Rightarrow> u8 list \<Rightarrow> (NptError + u64) \<times> u8 list" where
  "reprotect_loop phys_base [] count npt = (Inr count, npt)"
| "reprotect_loop phys_base (gpa # gpas) count npt =
     (case set_npt_2mib_leaf_writable phys_base gpa False npt of
        Inl e \<Rightarrow> (Inl e, npt)
      | Inr npt' \<Rightarrow> reprotect_loop phys_base gpas (count + 1) npt')"

definition reprotect_recorded :: "NptDirtyLog \<Rightarrow> u64 \<Rightarrow> u8 list \<Rightarrow> (NptError + u64) \<times> u8 list" where
  "reprotect_recorded l phys_base npt = reprotect_loop phys_base (dirty_pages l) 0 npt"

definition end_epoch :: "u64 \<Rightarrow> u8 list \<Rightarrow> NptDirtyLog \<Rightarrow> (NptError + u64) \<times> u8 list \<times> NptDirtyLog" where
  "end_epoch phys_base npt l =
     (case reprotect_recorded l phys_base npt of
        (Inl e, npt') \<Rightarrow> (Inl e, npt', l)
      | (Inr count, npt') \<Rightarrow> (Inr count, npt', l\<lparr>dl_bits := replicate (length (dl_bits l)) 0\<rparr>))"

section \<open>The set of dirty pages\<close>

definition dirty_set :: "NptDirtyLog \<Rightarrow> nat set" where
  "dirty_set l = {p. p div 64 < length (dl_bits l) \<and> bit (dl_bits l ! (p div 64)) (p mod 64)}"

definition dl_wf :: "NptDirtyLog \<Rightarrow> bool" where
  "dl_wf l \<longleftrightarrow> dirty_bitmap_words (dl_num_pages l) \<le> length (dl_bits l) \<and>
     unat (dl_base_gpa l) + unat (dl_num_pages l) * 2 ^ 21 < 2 ^ 64 \<and> 2 ^ 21 dvd unat (dl_base_gpa l) \<and>
     dirty_set l \<subseteq> {..<unat (dl_num_pages l)}"

lemma huge_unat: "unat NPT_HUGE_2MIB = 2 ^ 21"
  by (simp add: NPT_HUGE_2MIB_def)

lemma locate_eq: "locate page = (unat page div 64, bitmask (unat page mod 64))"
  by (simp add: locate_def unat_div unat_mod)

lemma word_in_bounds:
  assumes "dl_wf l" "p < unat (dl_num_pages l)"
  shows "p div 64 < length (dl_bits l)"
proof -
  have "p div 64 < dirty_bitmap_words (dl_num_pages l)" using assms(2) by (simp add: dirty_bitmap_words_def)
  then show ?thesis using assms(1) by (simp add: dl_wf_def)
qed

lemma page_bit:
  assumes "dl_wf l" "page < dl_num_pages l"
  shows "dl_bits l ! (unat page div 64) AND bitmask (unat page mod 64) = 0 \<longleftrightarrow> unat page \<notin> dirty_set l"
  using word_in_bounds [OF assms(1), of "unat page"] assms(2) by (simp add: dirty_set_def word_less_nat_alt)

lemma dl_new_wf:
  assumes "dl_new base n bits = Inr l"
  shows "dl_wf l" "dirty_set l = {}" "dl_base_gpa l = base" "dl_num_pages l = n"
proof -
  have c: "base AND (NPT_HUGE_2MIB - 1) = 0" "dirty_bitmap_words n \<le> length bits" "unat n * 2 ^ 21 < 2 ^ 64"
    "base \<le> base + n * NPT_HUGE_2MIB"
    and l: "l = \<lparr>dl_base_gpa = base, dl_num_pages = n, dl_bits = replicate (length bits) 0\<rparr>"
    using assms by (auto simp: dl_new_def huge_unat checked_add_code not_less split: if_splits option.splits)
  have u: "unat (n * NPT_HUGE_2MIB) = unat n * 2 ^ 21"
    using c(3) huge_unat unat_mul_no_wrap [of n NPT_HUGE_2MIB] by simp
  have "unat (base + n * NPT_HUGE_2MIB) = unat base + unat n * 2 ^ 21"
    using c(4) unat_plus_simple [of base "n * NPT_HUGE_2MIB"] u by simp
  then have "unat base + unat n * 2 ^ 21 < 2 ^ 64" using unat_bound [of "base + n * NPT_HUGE_2MIB"] by simp
  moreover show e: "dirty_set l = {}" by (auto simp: dirty_set_def l)
  ultimately show "dl_wf l" using c(1,2) aligned_iff(2) [of base] e by (simp add: dl_wf_def l)
  show "dl_base_gpa l = base" "dl_num_pages l = n" by (simp_all add: l)
qed

lemma page_index_eq:
  assumes "dl_wf l"
  shows "page_index l gpa =
    (if unat (dl_base_gpa l) \<le> unat gpa \<and> unat gpa < unat (dl_base_gpa l) + unat (dl_num_pages l) * 2 ^ 21
     then Some ((gpa - dl_base_gpa l) div NPT_HUGE_2MIB) else None)"
proof (cases "dl_base_gpa l \<le> gpa")
  case True
  have u: "unat ((gpa - dl_base_gpa l) div NPT_HUGE_2MIB) = (unat gpa - unat (dl_base_gpa l)) div 2 ^ 21"
    using True by (simp only: unat_div unat_diff huge_unat)
  have "(unat gpa - unat (dl_base_gpa l)) div 2 ^ 21 < unat (dl_num_pages l) \<longleftrightarrow>
      unat gpa - unat (dl_base_gpa l) < unat (dl_num_pages l) * 2 ^ 21" by (rule div_less_iff_less_mult) simp
  moreover have "unat (dl_base_gpa l) \<le> unat gpa" using True by (simp add: word_le_nat_alt)
  ultimately show ?thesis unfolding page_index_def Let_def word_less_nat_alt u by (simp add: not_less less_diff_conv2 add.commute)
next
  case False
  then show ?thesis by (simp add: page_index_def word_less_nat_alt word_le_nat_alt)
qed

text \<open>The page of an address, as its number in the log.\<close>

definition page_no :: "NptDirtyLog \<Rightarrow> u64 \<Rightarrow> nat" where
  "page_no l gpa = (unat gpa - unat (dl_base_gpa l)) div 2 ^ 21"

definition covered :: "NptDirtyLog \<Rightarrow> u64 \<Rightarrow> bool" where
  "covered l gpa \<longleftrightarrow> unat (dl_base_gpa l) \<le> unat gpa \<and> unat gpa < unat (dl_base_gpa l) + unat (dl_num_pages l) * 2 ^ 21"

lemma page_index_cases:
  assumes "dl_wf l"
  shows "covered l gpa \<Longrightarrow> \<exists>page. page_index l gpa = Some page \<and> unat page = page_no l gpa \<and> page < dl_num_pages l"
    and "\<not> covered l gpa \<Longrightarrow> page_index l gpa = None"
proof -
  assume c: "covered l gpa"
  then have s: "page_index l gpa = Some ((gpa - dl_base_gpa l) div NPT_HUGE_2MIB)" and "dl_base_gpa l \<le> gpa"
    by (simp_all add: page_index_eq [OF assms] covered_def word_le_nat_alt)
  then have "unat ((gpa - dl_base_gpa l) div NPT_HUGE_2MIB) = page_no l gpa"
    by (simp only: page_no_def unat_div unat_diff huge_unat)
  moreover have "(gpa - dl_base_gpa l) div NPT_HUGE_2MIB < dl_num_pages l"
    using s by (auto simp: page_index_def Let_def split: if_splits)
  ultimately show "\<exists>page. page_index l gpa = Some page \<and> unat page = page_no l gpa \<and> page < dl_num_pages l" using s by blast
next
  show "\<not> covered l gpa \<Longrightarrow> page_index l gpa = None" using page_index_eq [OF assms] by (auto simp: covered_def)
qed

lemma dl_record_spec:
  assumes wf: "dl_wf l" and c: "covered l gpa"
  shows "\<exists>l'. dl_record gpa l = (Inr (page_no l gpa \<notin> dirty_set l), l') \<and> dl_wf l' \<and>
    dl_base_gpa l' = dl_base_gpa l \<and> dl_num_pages l' = dl_num_pages l \<and> dirty_set l' = insert (page_no l gpa) (dirty_set l)"
proof -
  from page_index_cases(1) [OF wf c] obtain page where
    p: "page_index l gpa = Some page" "unat page = page_no l gpa" "page < dl_num_pages l" by blast
  define q where "q = page_no l gpa"
  define l' where "l' = l\<lparr>dl_bits := (dl_bits l)[q div 64 := dl_bits l ! (q div 64) OR bitmask (q mod 64)]\<rparr>"
  have q: "q < unat (dl_num_pages l)" "q div 64 < length (dl_bits l)"
    using p(2,3) word_in_bounds [OF wf, of q] by (simp_all add: q_def word_less_nat_alt)
  have r: "dl_record gpa l = (Inr (q \<notin> dirty_set l), l')"
    using page_bit [OF wf p(3)] by (simp add: dl_record_def p(1) locate_eq Let_def p(2) l'_def q_def)
  have "p \<in> dirty_set l' \<longleftrightarrow> p = q \<or> p \<in> dirty_set l" for p
  proof (cases "p div 64 = q div 64")
    case True
    have "p = q \<longleftrightarrow> p mod 64 = q mod 64" using True by (metis div_mult_mod_eq)
    then show ?thesis using True q(2) by (auto simp: dirty_set_def l'_def)
  next
    case False
    then show ?thesis by (auto simp: dirty_set_def l'_def nth_list_update)
  qed
  then have d: "dirty_set l' = insert q (dirty_set l)" by auto
  have "dl_wf l'" using wf q(1) unfolding dl_wf_def d by (simp add: l'_def)
  with r d show ?thesis by (simp add: q_def l'_def)
qed

fun record_all :: "u64 list \<Rightarrow> NptDirtyLog \<Rightarrow> NptDirtyLog" where
  "record_all [] l = l"
| "record_all (g # gs) l = record_all gs (snd (dl_record g l))"

lemma record_all_spec:
  "dl_wf l \<Longrightarrow> list_all (covered l) gs \<Longrightarrow>
   dl_wf (record_all gs l) \<and> dl_base_gpa (record_all gs l) = dl_base_gpa l \<and> dl_num_pages (record_all gs l) = dl_num_pages l \<and>
   dirty_set (record_all gs l) = dirty_set l \<union> page_no l ` set gs"
proof (induction gs arbitrary: l)
  case (Cons g gs)
  from dl_record_spec [OF Cons.prems(1), of g] Cons.prems(2) obtain l' where
    l': "snd (dl_record g l) = l'" "dl_wf l'" "dl_base_gpa l' = dl_base_gpa l" "dl_num_pages l' = dl_num_pages l"
    "dirty_set l' = insert (page_no l g) (dirty_set l)" by auto
  have "covered l' = covered l" "page_no l' = page_no l" using l'(3,4) by (simp_all add: covered_def page_no_def fun_eq_iff)
  with Cons.IH [OF l'(2)] Cons.prems(2) l' show ?case by auto
qed simp

section \<open>Reading the log\<close>

definition page_gpa :: "NptDirtyLog \<Rightarrow> nat \<Rightarrow> u64" where
  "page_gpa l p = dl_base_gpa l + of_nat p * NPT_HUGE_2MIB"

lemma page_gpa_unat:
  assumes "dl_wf l" "p < unat (dl_num_pages l)"
  shows "unat (page_gpa l p) = unat (dl_base_gpa l) + p * 2 ^ 21"
proof -
  have b: "unat (dl_base_gpa l) + p * 2 ^ 21 < 2 ^ 64" using assms by (auto simp: dl_wf_def)
  have "p < 2 ^ 64" using assms(2) unat_bound [of "dl_num_pages l"] by simp
  then have p: "unat (of_nat p :: u64) = p" by (simp add: unat_of_nat_small)
  have m: "unat (of_nat p * NPT_HUGE_2MIB :: u64) = p * 2 ^ 21"
    using unat_mul_no_wrap [of "of_nat p :: u64" NPT_HUGE_2MIB] b unfolding p huge_unat by simp
  show ?thesis unfolding page_gpa_def
    using unat_add_no_wrap [of "dl_base_gpa l" "of_nat p * NPT_HUGE_2MIB"] b unfolding m by simp
qed

lemma dirty_page_eq:
  assumes "dl_wf l" "p < unat (dl_num_pages l)"
  shows "dirty_page l (of_nat p) = (if p \<in> dirty_set l then Some (page_gpa l p) else None)"
proof -
  have "p < 2 ^ 64" using assms(2) unat_bound [of "dl_num_pages l"] by simp
  then have p: "unat (of_nat p :: u64) = p" by (simp add: unat_of_nat_small)
  have "dl_base_gpa l \<le> page_gpa l p" using page_gpa_unat [OF assms] by (simp add: word_le_nat_alt)
  then have c: "checked_add (dl_base_gpa l) (of_nat p * NPT_HUGE_2MIB) = Some (page_gpa l p)"
    by (simp add: checked_add_code page_gpa_def)
  have "of_nat p < dl_num_pages l" using assms(2) p by (simp add: word_less_nat_alt)
  from page_bit [OF assms(1) this] show ?thesis by (simp add: dirty_page_def locate_eq c p)
qed

lemma dirty_pages_eq:
  assumes "dl_wf l"
  shows "dirty_pages l = map (page_gpa l) (sorted_list_of_set (dirty_set l))"
proof -
  let ?n = "unat (dl_num_pages l)"
  have "dirty_pages l = map (page_gpa l) (List.filter (\<lambda>p. p \<in> dirty_set l) [0..<?n])"
    unfolding dirty_pages_def List.map_filter_def
    by (auto simp: dirty_page_eq [OF assms] intro!: map_cong filter_cong split: if_splits)
  moreover have "List.filter (\<lambda>p. p \<in> dirty_set l) [0..<?n] = sorted_list_of_set (dirty_set l)"
    using assms by (intro sorted_distinct_set_unique) (auto simp: dl_wf_def finite_subset [OF _ finite_lessThan] sorted_wrt_filter)
  ultimately show ?thesis by simp
qed

lemma count_ones_card: "count_ones w = card {j. j < 64 \<and> bit w j}"
proof -
  have "{j. j < 64 \<and> bit w j} = set (List.filter (bit w) [0..<64])" by auto
  then show ?thesis by (simp only: count_ones_def) (subst distinct_card, simp_all)
qed

lemma bitmap_card:
  "(\<Sum>w\<leftarrow>ws. count_ones w) = card {p. p div 64 < length ws \<and> bit (ws ! (p div 64)) (p mod 64)}"
proof (induction ws rule: rev_induct)
  case (snoc w ws)
  let ?A = "{p. p div 64 < length ws \<and> bit (ws ! (p div 64)) (p mod 64)}"
  let ?B = "(\<lambda>j. 64 * length ws + j) ` {j. j < 64 \<and> bit w j}"
  have "{p. p div 64 < length (ws @ [w]) \<and> bit ((ws @ [w]) ! (p div 64)) (p mod 64)} = ?A \<union> ?B"
  proof (intro set_eqI)
    fix p
    have "p \<in> ?B \<longleftrightarrow> p div 64 = length ws \<and> bit w (p mod 64)"
    proof
      assume "p div 64 = length ws \<and> bit w (p mod 64)"
      then show "p \<in> ?B" using mult_div_mod_eq [of 64 p] by (intro image_eqI [of _ _ "p mod 64"]) auto
    qed auto
    then show "p \<in> {p. p div 64 < length (ws @ [w]) \<and> bit ((ws @ [w]) ! (p div 64)) (p mod 64)} \<longleftrightarrow> p \<in> ?A \<union> ?B"
      by (auto simp: nth_append less_Suc_eq)
  qed
  moreover have "card (?A \<union> ?B) = card ?A + card ?B"
  proof (rule card_Un_disjoint)
    have "p < 64 * length ws" if "p \<in> ?A" for p using that by (simp add: div_less_iff_less_mult mult.commute)
    then show "finite ?A" by (intro finite_subset [of ?A "{..<64 * length ws}"]) auto
    show "?A \<inter> ?B = {}" by auto
  qed simp
  moreover have "card ?B = count_ones w" by (subst card_image) (simp_all add: count_ones_card)
  ultimately show ?case using snoc.IH by (simp only: map_append sum_list_append list.map sum_list.Cons sum_list.Nil add_0_right)
qed simp

lemma sum_list_of_nat: "(\<Sum>w\<leftarrow>ws. of_nat (f w)) = (of_nat (\<Sum>w\<leftarrow>ws. f w) :: 'b::semiring_1)"
  by (induction ws) simp_all

lemma dirty_page_count_card:
  assumes "dl_wf l"
  shows "unat (dirty_page_count l) = card (dirty_set l)"
proof -
  have "dirty_page_count l = of_nat (\<Sum>w\<leftarrow>dl_bits l. count_ones w)"
    unfolding dirty_page_count_def by (rule sum_list_of_nat)
  moreover have "card (dirty_set l) \<le> unat (dl_num_pages l)"
    using assms card_mono [of "{..<unat (dl_num_pages l)}" "dirty_set l"] by (simp add: dl_wf_def)
  then have "card (dirty_set l) < 2 ^ 64" using unat_bound [of "dl_num_pages l"] by simp
  ultimately show ?thesis by (simp add: bitmap_card unat_of_nat_small flip: dirty_set_def)
qed

section \<open>Clearing the write bit of leaves\<close>

text \<open>A buffer in which some entries have lost their write bit: every walk finds the same tables and frames.\<close>

definition less_writable :: "u8 list \<Rightarrow> u8 list \<Rightarrow> bool" where
  "less_writable buf' buf \<longleftrightarrow> length buf' = length buf \<and>
     (\<forall>k. slot k buf' = slot k buf \<or> slot k buf' = slot k buf AND NOT NPT_WRITABLE)"

lemma less_writable_refl: "less_writable buf buf"
  by (simp add: less_writable_def)

lemma less_writable_trans: "less_writable c b \<Longrightarrow> less_writable b a \<Longrightarrow> less_writable c a"
proof -
  assume "less_writable c b" "less_writable b a"
  then have l: "length c = length a"
    and "slot k c = slot k b \<or> slot k c = slot k b AND NOT NPT_WRITABLE"
    "slot k b = slot k a \<or> slot k b = slot k a AND NOT NPT_WRITABLE" for k
    by (simp_all add: less_writable_def)
  then have "slot k c = slot k a \<or> slot k c = slot k a AND NOT NPT_WRITABLE" for k
    using and.right_idem [of "slot k a" "NOT NPT_WRITABLE"] by metis
  with l show ?thesis by (simp add: less_writable_def)
qed

lemma clear_write_fields:
  "(e AND NOT NPT_WRITABLE) AND NPT_PRESENT = e AND NPT_PRESENT"
  "(e AND NOT NPT_WRITABLE) AND NPT_HUGE_PAGE = e AND NPT_HUGE_PAGE"
  "(e AND NOT NPT_WRITABLE) AND ADDR_MASK = e AND ADDR_MASK"
proof -
  have "NOT NPT_WRITABLE AND NPT_PRESENT = NPT_PRESENT" "NOT NPT_WRITABLE AND NPT_HUGE_PAGE = NPT_HUGE_PAGE"
    "NOT NPT_WRITABLE AND ADDR_MASK = ADDR_MASK"
    by (simp_all add: NPT_WRITABLE_def NPT_PRESENT_def NPT_HUGE_PAGE_def ADDR_MASK_def bitmask_def)
  then show "(e AND NOT NPT_WRITABLE) AND NPT_PRESENT = e AND NPT_PRESENT"
    "(e AND NOT NPT_WRITABLE) AND NPT_HUGE_PAGE = e AND NPT_HUGE_PAGE"
    "(e AND NOT NPT_WRITABLE) AND ADDR_MASK = e AND ADDR_MASK" by (simp_all only: and.assoc)
qed

lemma read_slot: "npt_read_entry buf (8 * a + i * 8) = (if 8 * (a + i) + 8 \<le> length buf then Inr (slot (a + i) buf) else Inl IntermediateNotPresent)"
  by (simp add: npt_read_entry_def slot_def algebra_simps)

lemma less_writable_read:
  assumes "less_writable buf' buf" "8 dvd off"
  shows "(\<exists>e. npt_read_entry buf (off + i * 8) = Inl e \<and> npt_read_entry buf' (off + i * 8) = Inl e) \<or>
    (\<exists>e e'. npt_read_entry buf (off + i * 8) = Inr e \<and> npt_read_entry buf' (off + i * 8) = Inr e' \<and>
       (e' = e \<or> e' = e AND NOT NPT_WRITABLE))"
proof -
  obtain a where "off = 8 * a" using assms(2) by (rule dvdE)
  then show ?thesis using assms(1) by (simp add: read_slot less_writable_def)
qed

lemma less_writable_child:
  assumes "less_writable buf' buf" "8 dvd off"
  shows "child_offset buf' pb off i = child_offset buf pb off i"
proof -
  have "table_in buf' = table_in buf" using assms(1) by (simp add: table_in_def fun_eq_iff less_writable_def)
  then show ?thesis using less_writable_read [OF assms, of i] by (auto simp: child_offset_def clear_write_fields)
qed

lemma child_aligned:
  assumes "2 ^ 12 dvd unat pb" "child_offset buf pb off i = Inr off'"
  shows "8 dvd off'"
proof -
  obtain e where e: "pb \<le> e AND ADDR_MASK" "off' = unat ((e AND ADDR_MASK) - pb)"
    using assms(2) by (auto simp: child_offset_def table_in_def Let_def not_less split: sum.splits if_splits)
  have "take_bit 12 (e AND ADDR_MASK) = 0"
    by (simp add: ADDR_MASK_def take_bit_and)
  then have "2 ^ 12 dvd unat (e AND ADDR_MASK)" using aligned_iff(1) [of "e AND ADDR_MASK"] unfolding offset_masks by blast
  then have "2 ^ 12 dvd off'" using assms(1) e by (simp add: unat_diff dvd_diff_nat)
  then show ?thesis by (rule dvd_trans [rotated]) simp
qed

definition huge_entry :: "u8 list \<Rightarrow> u64 \<Rightarrow> u64 \<Rightarrow> NptError + u64" where
  "huge_entry buf pb gpa =
     (case child_offset buf pb 0 (i4 gpa) of
        Inl e \<Rightarrow> Inl e
      | Inr pdpt_off \<Rightarrow>
     (case child_offset buf pb pdpt_off (i3 gpa) of
        Inl e \<Rightarrow> Inl e
      | Inr pd_off \<Rightarrow> npt_read_entry buf (pd_off + i2 gpa * 8)))"

definition huge_writable :: "u8 list \<Rightarrow> u64 \<Rightarrow> u64 \<Rightarrow> bool" where
  "huge_writable buf pb gpa \<longleftrightarrow> (case huge_entry buf pb gpa of Inl _ \<Rightarrow> False | Inr e \<Rightarrow> bit e 1)"

lemma walk_cases:
  assumes "less_writable buf' buf" "2 ^ 12 dvd unat pb"
  obtains (stuck) e where "child_offset buf pb 0 (i4 gpa) = Inl e" "child_offset buf' pb 0 (i4 gpa) = Inl e"
  | (stuck3) e off3 where "child_offset buf pb 0 (i4 gpa) = Inr off3" "child_offset buf' pb 0 (i4 gpa) = Inr off3"
      "child_offset buf pb off3 (i3 gpa) = Inl e" "child_offset buf' pb off3 (i3 gpa) = Inl e"
  | (pd) off3 off2 where "child_offset buf pb 0 (i4 gpa) = Inr off3" "child_offset buf' pb 0 (i4 gpa) = Inr off3"
      "child_offset buf pb off3 (i3 gpa) = Inr off2" "child_offset buf' pb off3 (i3 gpa) = Inr off2" "8 dvd off2"
proof (cases "child_offset buf pb 0 (i4 gpa)")
  case (Inl e)
  then show ?thesis using stuck less_writable_child [OF assms(1), of 0] by simp
next
  case (Inr off3)
  have 3: "child_offset buf' pb 0 (i4 gpa) = Inr off3" using Inr less_writable_child [OF assms(1), of 0] by simp
  have "8 dvd off3" by (rule child_aligned [OF assms(2) Inr])
  from less_writable_child [OF assms(1) this] have c: "child_offset buf' pb off3 (i3 gpa) = child_offset buf pb off3 (i3 gpa)" .
  show ?thesis
  proof (cases "child_offset buf pb off3 (i3 gpa)")
    case (Inl e)
    then show ?thesis using stuck3 Inr 3 c by simp
  next
    case (Inr off2)
    then show ?thesis using pd child_aligned [OF assms(2) Inr] \<open>child_offset buf pb 0 (i4 gpa) = Inr off3\<close> 3 c by simp
  qed
qed

lemma less_writable_huge:
  assumes "less_writable buf' buf" "2 ^ 12 dvd unat pb" "\<not> huge_writable buf pb gpa"
  shows "\<not> huge_writable buf' pb gpa"
  using assms(1,2)
proof (cases rule: walk_cases [where gpa = gpa])
  case (pd off3 off2)
  then show ?thesis using assms(3) less_writable_read [OF assms(1) pd(5), of "i2 gpa"]
    by (auto simp: huge_writable_def huge_entry_def NPT_WRITABLE_def)
qed (use assms(3) in \<open>simp_all add: huge_writable_def huge_entry_def\<close>)

lemma less_writable_translate:
  assumes "less_writable buf' buf" "2 ^ 12 dvd unat pb"
  shows "translate_npt buf' pb v = translate_npt buf pb v"
  using assms
proof (cases rule: walk_cases [where gpa = v])
  case (pd off3 off2)
  note r = less_writable_read [OF assms(1) pd(5), of "i2 v"]
  have c: "child_offset buf' pb off2 (i2 v) = child_offset buf pb off2 (i2 v)" by (rule less_writable_child [OF assms(1) pd(5)])
  show ?thesis
  proof (cases "child_offset buf pb off2 (i2 v)")
    case (Inl e)
    then show ?thesis using r pd c by (auto simp: translate_npt_def clear_write_fields)
  next
    case (Inr off1)
    have "8 dvd off1" by (rule child_aligned [OF assms(2) Inr])
    from less_writable_read [OF assms(1) this, of "i1 v"] show ?thesis using r pd c Inr
      by (auto simp: translate_npt_def clear_write_fields)
  qed
qed (simp_all add: translate_npt_def)

lemma protect_leaf:
  assumes "set_npt_2mib_leaf_writable pb gpa False buf = Inr buf'" "2 ^ 12 dvd unat pb"
  shows "less_writable buf' buf" "\<not> huge_writable buf' pb gpa"
proof -
  obtain off3 off2 e where w: "child_offset buf pb 0 (i4 gpa) = Inr off3" "child_offset buf pb off3 (i3 gpa) = Inr off2"
    "npt_read_entry buf (off2 + i2 gpa * 8) = Inr e"
    and b: "buf' = npt_write_entry (off2 + i2 gpa * 8) (e AND NOT NPT_WRITABLE) buf"
    using assms(1) by (auto simp: set_npt_2mib_leaf_writable_def split: if_splits sum.splits)
  obtain a where a: "off2 = 8 * a" using child_aligned [OF assms(2) w(2)] by (rule dvdE)
  let ?q = "a + i2 gpa"
  have q: "8 * ?q + 8 \<le> length buf" "e = slot ?q buf" using w(3) by (auto simp: a read_slot split: if_splits)
  have b': "buf' = write_entry (8 * ?q) (e AND NOT NPT_WRITABLE) buf" by (simp add: b a npt_write_eq algebra_simps)
  have s: "slot p buf' = (if p = ?q then e AND NOT NPT_WRITABLE else slot p buf)" for p
    unfolding b' by (rule slot_write [OF q(1)])
  have len: "length buf' = length buf" using q(1) by (simp add: b a algebra_simps)
  show lw: "less_writable buf' buf" using s q(2) len by (simp add: less_writable_def)
  have "child_offset buf' pb 0 (i4 gpa) = Inr off3" "child_offset buf' pb off3 (i3 gpa) = Inr off2"
    using w(1,2) less_writable_child [OF lw, of 0] less_writable_child [OF lw child_aligned [OF assms(2) w(1)]] by simp_all
  then show "\<not> huge_writable buf' pb gpa"
    using q(1) len by (simp add: huge_writable_def huge_entry_def a read_slot s NPT_WRITABLE_def)
qed

lemma reprotect_loop_spec:
  "reprotect_loop pb gs c buf = (Inr count, buf') \<Longrightarrow> 2 ^ 12 dvd unat pb \<Longrightarrow>
   less_writable buf' buf \<and> count = c + of_nat (length gs) \<and> (\<forall>g \<in> set gs. \<not> huge_writable buf' pb g)"
proof (induction gs arbitrary: c buf)
  case (Cons g gs)
  then obtain b1 where b1: "set_npt_2mib_leaf_writable pb g False buf = Inr b1" "reprotect_loop pb gs (c + 1) b1 = (Inr count, buf')"
    by (auto split: sum.splits)
  note p = protect_leaf [OF b1(1) Cons.prems(2)]
  note ih = Cons.IH [OF b1(2) Cons.prems(2)]
  have "\<not> huge_writable buf' pb g" using less_writable_huge [OF _ Cons.prems(2) p(2)] ih by blast
  with ih p(1) less_writable_trans show ?case by auto
qed (simp add: less_writable_refl)

lemma huge_writable_frame:
  assumes "unat v div 2 ^ 21 = unat g div 2 ^ 21"
  shows "huge_writable buf pb v = huge_writable buf pb g"
proof -
  have d: "n div 2 ^ 39 = n div 2 ^ 21 div 2 ^ 18" "n div 2 ^ 30 = n div 2 ^ 21 div 2 ^ 9" for n :: nat
    by (simp_all flip: div_mult2_eq)
  have "i4 v = i4 g" "i3 v = i3 g" "i2 v = i2 g" unfolding index_defs indices d by (simp_all only: assms)
  then show ?thesis by (simp only: huge_writable_def huge_entry_def)
qed

lemma page_gpa_frame:
  assumes "dl_wf l" "covered l g"
  shows "unat (page_gpa l (page_no l g)) div 2 ^ 21 = unat g div 2 ^ 21"
proof -
  from page_index_cases(1) [OF assms] have n: "page_no l g < unat (dl_num_pages l)" by (auto simp: word_less_nat_alt)
  obtain c where c: "unat (dl_base_gpa l) = 2 ^ 21 * c" using assms(1) unfolding dl_wf_def by (auto elim: dvdE)
  have "unat (dl_base_gpa l) \<le> unat g" using assms(2) by (simp add: covered_def)
  then obtain d where d: "unat g = 2 ^ 21 * c + d" using c by (metis le_iff_add)
  show ?thesis using page_gpa_unat [OF assms(1) n] by (simp add: page_no_def c d)
qed

text \<open>Three tables at physical address 0 whose first path leads to one huge leaf, and an epoch over it.\<close>

definition one_leaf :: "u8 list" where
  "one_leaf = write_entry (8 * 1024) 0x40000087 (write_entry (8 * 512) 0x2007 (write_entry (8 * 0) 0x1007 (replicate 12288 0)))"

lemma one_leaf_slots:
  "length one_leaf = 12288" "slot 0 one_leaf = 0x1007" "slot 512 one_leaf = 0x2007" "slot 1024 one_leaf = 0x40000087"
proof -
  show "length one_leaf = 12288" by (simp add: one_leaf_def)
  have "slot p one_leaf = (if p = 1024 then 0x40000087 else if p = 512 then 0x2007 else if p = 0 then 0x1007
      else slot p (replicate 12288 0))" for p
    unfolding one_leaf_def by (subst slot_write, simp, subst slot_write, simp, subst slot_write, simp, rule refl)
  then show "slot 0 one_leaf = 0x1007" "slot 512 one_leaf = 0x2007" "slot 1024 one_leaf = 0x40000087" by simp_all
qed

lemma one_leaf_walk:
  "child_offset one_leaf 0 0 0 = Inr 4096" "child_offset one_leaf 0 4096 0 = Inr 8192"
  "npt_read_entry one_leaf 8192 = Inr 0x40000087"
  using read_slot [of one_leaf 0 0] read_slot [of one_leaf 512 0] read_slot [of one_leaf 1024 0]
  by (simp_all add: child_offset_def one_leaf_slots table_in_def NPT_PRESENT_def NPT_HUGE_PAGE_def ADDR_MASK_def bitmask_def)

lemma one_leaf_epoch:
  assumes "dl_new 0 1 [0] = Inr l0"
  shows "\<exists>npt' l'. end_epoch 0 one_leaf (record_all [0x1234] l0) = (Inr 1, npt', l')"
proof -
  note w = dl_new_wf [OF assms]
  have "list_all (covered l0) [0x1234]" by (simp add: covered_def w)
  from record_all_spec [OF w(1) this] have "dl_wf (record_all [0x1234] l0)" "dirty_set (record_all [0x1234] l0) = {0}"
    "dl_base_gpa (record_all [0x1234] l0) = 0" by (simp_all add: w page_no_def del: record_all.simps)
  with dirty_pages_eq have "dirty_pages (record_all [0x1234] l0) = [0]" by (simp add: page_gpa_def del: record_all.simps)
  then show ?thesis
    by (simp add: end_epoch_def reprotect_recorded_def set_npt_2mib_leaf_writable_def one_leaf_walk NPT_PRESENT_def
        NPT_HUGE_PAGE_def bitmask_def del: record_all.simps)
qed

section \<open>Properties\<close>

text \<open>
  C38 (refinement).  The bitmap is the set of the pages recorded in the epoch: after a fresh log has recorded any addresses of
  its range, its pages are listed in ascending order without repetition, their number is the count, and an address of the
  range is dirty exactly when its page was recorded.
\<close>

theorem dirty_log_refines_set:
  assumes new: "dl_new base n bits = Inr l0" and cov: "list_all (covered l0) gs"
  defines "l \<equiv> record_all gs l0" and "D \<equiv> page_no l0 ` set gs"
  shows "dirty_pages l = map (page_gpa l0) (sorted_list_of_set D) \<and> unat (dirty_page_count l) = card D \<and>
    (\<forall>g. dl_is_dirty l g = (if covered l0 g then Inr (page_no l0 g \<in> D) else Inl (GpaOutOfRange g base n)))"
proof -
  note w = dl_new_wf [OF new]
  have l: "dl_wf l" "dl_base_gpa l = base" "dl_num_pages l = n" "dirty_set l = D"
    using record_all_spec [OF w(1) cov] w(2-4) by (simp_all add: l_def D_def)
  have same: "page_gpa l = page_gpa l0" "page_no l = page_no l0" "covered l = covered l0"
    using l(2,3) w(3,4) by (simp_all add: page_gpa_def page_no_def covered_def fun_eq_iff)
  have "dl_is_dirty l g = (if covered l0 g then Inr (page_no l0 g \<in> D) else Inl (GpaOutOfRange g base n))" for g
  proof (cases "covered l g")
    case True
    from page_index_cases(1) [OF l(1) this] obtain page where
      p: "page_index l g = Some page" "unat page = page_no l g" "page < dl_num_pages l" by blast
    then show ?thesis using True page_bit [OF l(1) p(3)] same l(4) by (simp add: dl_is_dirty_def locate_eq)
  next
    case False
    then show ?thesis using page_index_cases(2) [OF l(1) False] same l(2,3) by (simp add: dl_is_dirty_def)
  qed
  then show ?thesis using dirty_pages_eq [OF l(1)] dirty_page_count_card [OF l(1)] l(4) same(1) by simp
qed

theorem dirty_log_refines_set_witness:
  "\<exists>l0. dl_new 0x200000 3 [0xFF] = Inr l0 \<and> dirty_pages (record_all [0x600010, 0x200000, 0x7FFFFF] l0) = [0x200000, 0x600000]"
proof -
  obtain l0 where l0: "dl_new 0x200000 3 [0xFF] = Inr l0" by (simp add: dl_new_def dirty_bitmap_words_def NPT_HUGE_2MIB_def checked_add_code)
  note w = dl_new_wf [OF l0]
  have "list_all (covered l0) [0x600010, 0x200000, 0x7FFFFF]" by (simp add: covered_def w)
  from dirty_log_refines_set [OF l0 this] l0 show ?thesis
    by (simp add: page_no_def w page_gpa_def NPT_HUGE_2MIB_def insert_commute)
qed

text \<open>
  C10 (safety).  Ending an epoch re-arms the tracking: when it succeeds no page written in the epoch is writable in the nested
  page tables any more, every guest address still translates as before, the count is that of the pages written and the log is
  empty.
\<close>

theorem end_epoch_rearms:
  assumes new: "dl_new base n bits = Inr l0" and cov: "list_all (covered l0) gs" and pb: "2 ^ 12 dvd unat pb"
    and "end_epoch pb npt (record_all gs l0) = (Inr count, npt', l')"
  shows "(\<forall>g \<in> set gs. \<not> huge_writable npt' pb g) \<and> (\<forall>v. translate_npt npt' pb v = translate_npt npt pb v) \<and>
    unat count = card (page_no l0 ` set gs) \<and> dirty_pages l' = []"
proof -
  let ?l = "record_all gs l0" and ?D = "page_no l0 ` set gs"
  note w = dl_new_wf [OF new]
  have l: "dl_wf ?l" "dl_base_gpa ?l = dl_base_gpa l0" "dl_num_pages ?l = dl_num_pages l0" "dirty_set ?l = ?D"
    using record_all_spec [OF w(1) cov] w(2) by simp_all
  have same: "page_gpa ?l = page_gpa l0" using l(2) by (simp add: page_gpa_def fun_eq_iff)
  have dp: "dirty_pages ?l = map (page_gpa l0) (sorted_list_of_set ?D)" using dirty_pages_eq [OF l(1)] by (simp only: l(4) same)
  have r: "reprotect_loop pb (dirty_pages ?l) 0 npt = (Inr count, npt')" and l': "l' = ?l\<lparr>dl_bits := replicate (length (dl_bits ?l)) 0\<rparr>"
    using assms(4) by (auto simp: end_epoch_def reprotect_recorded_def split: prod.splits sum.splits)
  note s = reprotect_loop_spec [OF r pb]
  have "\<not> huge_writable npt' pb g" if "g \<in> set gs" for g
  proof -
    have "page_gpa l0 (page_no l0 g) \<in> set (dirty_pages ?l)" using that by (simp add: dp)
    with s have "\<not> huge_writable npt' pb (page_gpa l0 (page_no l0 g))" by blast
    moreover have "covered l0 g" using cov that by (simp add: list_all_iff)
    ultimately show ?thesis using huge_writable_frame [OF page_gpa_frame [OF w(1)]] by blast
  qed
  moreover have "dirty_set l' = {}" by (auto simp: dirty_set_def l')
  then have "dl_wf l'" "dirty_set l' = {}" using l(1) by (simp_all add: dl_wf_def l')
  from dirty_pages_eq [OF this(1)] this(2) have "dirty_pages l' = []" by simp
  moreover have "unat count = card ?D"
  proof -
    have "card ?D \<le> unat (dl_num_pages l0)" using l(1,3,4) card_mono [of "{..<unat (dl_num_pages l0)}" ?D] by (simp add: dl_wf_def)
    then have "card ?D < 2 ^ 64" using unat_bound [of "dl_num_pages l0"] by simp
    then show ?thesis using s by (simp add: dp unat_of_nat_small)
  qed
  ultimately show ?thesis using less_writable_translate [OF _ pb] s by blast
qed

theorem end_epoch_rearms_witness:
  "\<exists>l0 npt' l'. dl_new 0 1 [0] = Inr l0 \<and> end_epoch 0 one_leaf (record_all [0x1234] l0) = (Inr 1, npt', l') \<and>
     huge_writable one_leaf 0 0x1234 \<and> \<not> huge_writable npt' 0 0x1234"
proof -
  obtain l0 where l0: "dl_new 0 1 [0] = Inr l0" by (simp add: dl_new_def dirty_bitmap_words_def NPT_HUGE_2MIB_def checked_add_code)
  have c: "list_all (covered l0) [0x1234]" by (simp add: covered_def dl_new_wf [OF l0])
  from one_leaf_epoch [OF l0] obtain npt' l' where e: "end_epoch 0 one_leaf (record_all [0x1234] l0) = (Inr 1, npt', l')" by blast
  have "huge_writable one_leaf 0 0x1234" by (simp add: huge_writable_def huge_entry_def one_leaf_walk)
  with end_epoch_rearms [OF l0 c _ e] l0 e show ?thesis by simp
qed

end
