(* ===== verification/Spec2Isabelle.thy ===== *)
theory Spec2Isabelle
  imports Pic Pirq Controller Bus Pit Tsc Paravirt Pm_Timer Hpet Rtc Platform Memory_Map Paging Scheduler Guest_Memory Ept Npt_Dirty
begin

text \<open>
  \<^bold>\<open>A verification of the core of the Enlil hypervisor.\<close>

  Enlil is a type-1 hypervisor written in Rust.  This library models, as functions over records, the parts of it whose
  behaviour is fixed by the sources: the emulated PC platform a guest sees (interrupt controllers, timers, buses), the
  memory side of the hypervisor (the boot-time region plan, the allocator of guest RAM, the page tables of the host and
  of the guests, the dirty logs), and the task scheduler.  All paths below are under \<open>src/\<close>.

  \<^bold>\<open>How the code is rendered.\<close>
  A struct is a record, an enum a datatype, an integer of \<open>w\<close> bits a word of \<open>w\<close> bits whose arithmetic wraps as in the
  release profile; sizes and indices (\<open>usize\<close>) are natural numbers, with the 64-bit limits written out where the code
  tests them.  A method with \<open>&mut self\<close> takes the record and returns it with its result, also on an error where the
  code leaves changes behind.  \<open>Result\<close> is a sum with the error on the left, a panic a value of its own.  A \<open>BTreeMap\<close> is
  an association list sorted by key (\<open>Ordered_Map\<close>), guest memory and table buffers are lists of bytes (\<open>Le_Bytes\<close>).  An
  interrupt sink a device holds is not a pointer in the model: the device returns the trace of levels it drives, and the
  platform feeds the trace to the sink (\<open>Irq_Line\<close>).  Names are those of the source, with a prefix where two components
  use the same one; register numbers and flags are constants under their source names.

  \<^bold>\<open>Theories and sources.\<close>
  \<^item> \<open>Prelude\<close>: the integer types, bit operations, iterator adaptors and the generic lemmas on words and lists.
  \<^item> \<open>Irq_Types\<close>, \<open>Msi\<close>, \<open>Pic\<close>, \<open>Ioapic\<close>, \<open>Pirq\<close>, \<open>Lapic\<close>, \<open>Controller\<close>: \<open>enlil-devices/src/interrupt/\<close>.  The 8259A pair
    with its command words, resolution and acknowledge cycles; the I/O APIC with its redirection table and EOI; the PCI
    interrupt router; the local APIC with its registers, priorities and timer modes; and the controller that routes
    device lines, MSIs and IPIs between them.
  \<^item> \<open>Bus\<close>: \<open>enlil-devices/src/bus.rs\<close>, registration and dispatch of port and memory accesses.
  \<^item> \<open>Pit\<close>, \<open>Hpet\<close>, \<open>Rtc\<close> with \<open>Calendar\<close>, \<open>Pm_Timer\<close>, \<open>Tsc\<close>, \<open>Paravirt\<close>: \<open>enlil-devices/src/timer/\<close>.
  \<^item> \<open>Platform\<close>: the clock loop and the interrupt wiring of \<open>StandardPc\<close> in \<open>enlil-core/src/device_bus.rs\<close>, over the
    devices above.
  \<^item> \<open>Memory_Map\<close>: \<open>enlil-platform/src/memory/map.rs\<close>, the physical memory map, carving and the boot-time region plan.
  \<^item> \<open>Guest_Memory\<close>: \<open>enlil-core/src/memory.rs\<close>, the allocator of guest RAM and the guest memory maps.
  \<^item> \<open>Paging\<close>: \<open>enlil-platform/src/memory/paging.rs\<close>, the identity-map builders, against the walk of the hardware.
  \<^item> \<open>Npt\<close>, \<open>Npt_Mapper\<close>, \<open>Npt_Dirty\<close>: \<open>enlil-hal/src/npt.rs\<close>, the nested page tables of an SVM guest: builders, operations
    on leaves, the walk, the mapper of ranges and the per-epoch dirty log.
  \<^item> \<open>Ept\<close>: \<open>enlil-core/src/ept.rs\<close>, the second-level page table manager with write protection and dirty tracking.
  \<^item> \<open>Scheduler\<close>: \<open>enlil-platform/src/threading/scheduler.rs\<close>, run queues, work stealing and priority inheritance, once as
    functions and once as a step relation over the atomic parts of concurrent calls.

  \<^bold>\<open>Interfaces.\<close>
  What one part promises to another is a locale, interpreted on the model of every part that keeps the promise:
  \<open>interrupt_nesting\<close> (the CPU and an interrupt controller: an EOI undoes the last acknowledge whatever happened in
  between) for the 8259A and the local APIC; \<open>batched_clock\<close> (the clock loop and a timer: how elapsed time is cut into
  calls does not matter) for the PIT, the PM timer and the local APIC timer; \<open>edge_line\<close> (a device and its interrupt
  input: a rising edge is not lost) for the PIC input, the I/O APIC pin and the wired ISA line; \<open>address_decoder\<close> for the
  two buses; \<open>priority_deque\<close> for the run queue.

  \<^bold>\<open>What is shown.\<close>
  \<^item> Memory isolation.  The region plan gives disjoint regions and records them; the guest allocator never gives a byte to
    two guests, never gives out the hypervisor's part, refuses a request only for the stated reasons, and gets all memory
    back in one block.  The invariant behind it counts by how many blocks a byte is covered.
  \<^item> Address translation.  The builders, walked as the hardware walks them, map exactly what was asked for with the
    rights asked for, guard pages excluded.  The mapper of nested page tables keeps a tree of tables in its buffer
    (\<open>npt_tree\<close>); any sequence of its calls returns, maps nothing that was not asked for even when it fails, and when it
    succeeds translates as the ranges say.  The range mapping of the second-level manager is linear and complete.
  \<^item> Dirty tracking.  After protection every page the guest can write again is in the log; the bitmap of an epoch is the
    set of the pages recorded; ending the epoch takes the write bit of each of them and changes no translation.
  \<^item> Interrupts.  Priority resolution against a declarative specification, nesting of service, delivery of level and edge
    interrupts end to end, lowest-priority arbitration and IPIs.
  \<^item> Buses.  Any run of registrations, reads and writes behaves as a table of disjoint ranges.
  \<^item> Time.  Independence of the batching of elapsed time, exact rates and deadlines, the calendar, the registers of the
    HPET, and the rates in the paravirtual clock pages.
  \<^item> Scheduling.  The run queue refines one list in stable priority order; under every interleaving no task is
    lost or duplicated, the lanes keep the order of the pushes and the counter is off by exactly the calls in flight;
    submission balances.
  Lemmas that show a deviation of the code from its documentation or intent are kept beside the model they are about.

  \<^bold>\<open>Bounds and termination.\<close>
  Loops are recursive functions with a termination proof.  Two are partial functions in the option type, because the code
  does not end for every argument: the page loop of the range operations in \<open>Npt\<close>, and the loop of \<open>map_range\<close> in
  \<open>Npt_Mapper\<close>, which ends for the multiples of the page size its caller admits; that it returns is part of the theorems.  No
  fuel is used.  Hypotheses bound what would otherwise wrap: guest memory sizes between 1 MB and \<open>2 ^ 42\<close> MB, system
  addresses of mapped ranges below \<open>2 ^ 52\<close>, table buffers below \<open>2 ^ 52\<close>, guest addresses below \<open>2 ^ 48\<close>.

  \<^bold>\<open>Not modelled.\<close>
  The code that runs privileged instructions or drives physical devices (\<open>enlil-boot\<close>, the VMX, SVM and IOMMU parts of
  \<open>enlil-hal\<close>), the KVM backend, run loop and orchestrator of \<open>enlil-core\<close>, and the wrappers of the operating system in
  \<open>enlil-platform\<close>: their behaviour is that of the hardware or the kernel.  Of \<open>StandardPc\<close> the assembly of the bus and
  the exit handlers are left out.  The USB, storage, network, display, audio and PCI express devices, the generators of
  firmware tables, the host address space, the management tools and the stealth tables are pure or nearly pure code that
  this library does not reach.
\<close>

end
